(* ===== verification/Prelude.thy ===== *)
theory Prelude
  imports Main "HOL-Library.Word" "HOL-Library.List_Lexorder" "HOL-Library.Monad_Syntax"
begin

text \<open>
  The vocabulary every component shares: Go's basic types, the record that the three
  \<open>Entry\<close> structs of the storage packages have in common, the big-endian codec of
  \<open>encoding/binary\<close>, \<open>io.ReadFull\<close>, and the theory of entry lists sorted by key.

  Conventions.
  \<^item> A Go \<open>string\<close> and a \<open>[]byte\<close> are both byte lists; \<open>nil\<close> and the empty
    slice are both \<open>[]\<close> (only the JSON encoder tells them apart, see \<open>Codec\<close>). Go compares
    strings bytewise, which is the lexicographic order of List\_Lexorder on \<open>8 word list\<close>.
  \<^item> \<open>int64\<close> and \<open>uint64\<close> are \<open>64 word\<close>; where the source compares an
    \<open>int64\<close> the model compares \<open>sint\<close>. \<open>int\<close> values that are lengths or
    indices are \<open>nat\<close>, arguments that may be negative are \<open>int\<close>.
  \<^item> An operation that can panic or fail to return has an \<open>option\<close> type; \<open>None\<close>
    is "does not return normally". An \<open>error\<close> result is \<open>Inl\<close> of a sum.
\<close>

unbundle bit_operations_syntax

type_synonym byte = "8 word"
type_synonym bytes = "8 word list"
type_synonym u32 = "32 word"
type_synonym u64 = "64 word"
type_synonym i64 = "64 word"

text \<open>Entries: \<open>skiplist.Entry\<close>, \<open>sstable.Entry\<close> and \<open>storage.Entry\<close>
  have the same four fields.\<close>

record entry =
  Key :: bytes
  Value :: bytes
  Version :: i64
  Deleted :: bool

definition zeroEntry :: entry where
  "zeroEntry = \<lparr>Key = [], Value = [], Version = 0, Deleted = False\<rparr>"

text \<open>Errors the sources return.\<close>

datatype goerror = EOF | ErrUnexpectedEOF | SeekError | InvalidMagic | NotExist
  | ErrChecksumMismatch | OSError nat

type_synonym 'a result = "goerror + 'a"

text \<open>\<open>encoding/binary\<close>, big endian. A read of a slice that is too short panics,
  so the callers check the length first.\<close>

definition PutUint32 :: "u32 \<Rightarrow> bytes" where
  "PutUint32 v = [ucast (drop_bit 24 v), ucast (drop_bit 16 v), ucast (drop_bit 8 v), ucast v]"

definition PutUint64 :: "u64 \<Rightarrow> bytes" where
  "PutUint64 v = [ucast (drop_bit 56 v), ucast (drop_bit 48 v), ucast (drop_bit 40 v),
     ucast (drop_bit 32 v), ucast (drop_bit 24 v), ucast (drop_bit 16 v),
     ucast (drop_bit 8 v), ucast v]"

definition Uint32 :: "bytes \<Rightarrow> u32" where
  "Uint32 b = ucast (b ! 3) OR push_bit 8 (ucast (b ! 2)) OR push_bit 16 (ucast (b ! 1))
     OR push_bit 24 (ucast (b ! 0))"

definition Uint64 :: "bytes \<Rightarrow> u64" where
  "Uint64 b = ucast (b ! 7) OR push_bit 8 (ucast (b ! 6)) OR push_bit 16 (ucast (b ! 5))
     OR push_bit 24 (ucast (b ! 4)) OR push_bit 32 (ucast (b ! 3)) OR push_bit 40 (ucast (b ! 2))
     OR push_bit 48 (ucast (b ! 1)) OR push_bit 56 (ucast (b ! 0))"

text \<open>\<open>io.ReadFull\<close> of \<open>n\<close> bytes from a reader whose remaining input is
  \<open>inp\<close>: the bytes read and the rest, or the error.\<close>

definition ReadFull :: "bytes \<Rightarrow> nat \<Rightarrow> (bytes \<times> bytes) result" where
  "ReadFull inp n =
     (if n \<le> length inp then Inr (take n inp, drop n inp)
      else if inp = [] then Inl EOF else Inl ErrUnexpectedEOF)"

text \<open>Entry lists sorted strictly by key: lookup, and insertion that replaces.\<close>

definition ksorted :: "entry list \<Rightarrow> bool" where
  "ksorted es = sorted_wrt (\<lambda>a b. Key a < Key b) es"

fun find_key :: "bytes \<Rightarrow> entry list \<Rightarrow> entry option" where
  "find_key k [] = None"
| "find_key k (e # es) = (if Key e = k then Some e else find_key k es)"

fun upsert :: "entry \<Rightarrow> entry list \<Rightarrow> entry list" where
  "upsert x [] = [x]"
| "upsert x (y # ys) =
     (if Key x < Key y then x # y # ys
      else if Key x = Key y then x # ys else y # upsert x ys)"

text \<open>A loop over a slice whose body may not return.\<close>

fun foldM :: "('s \<Rightarrow> 'a \<Rightarrow> 's option) \<Rightarrow> 's \<Rightarrow> 'a list \<Rightarrow> 's option" where
  "foldM f s [] = Some s"
| "foldM f s (x # xs) = Option.bind (f s x) (\<lambda>s'. foldM f s' xs)"

named_theorems codec \<open>round trips and lengths of the binary codec\<close>
named_theorems ksort \<open>entry lists sorted by key\<close>

subsection \<open>Codec lemmas\<close>

lemma length_PutUint32 [simp, codec]: "length (PutUint32 v) = 4"
  by (simp add: PutUint32_def)

lemma length_PutUint64 [simp, codec]: "length (PutUint64 v) = 8"
  by (simp add: PutUint64_def)

lemma Uint32_PutUint32 [simp, codec]: "Uint32 (PutUint32 v @ r) = v"
proof (rule bit_word_eqI)
  fix n assume "n < LENGTH(32)"
  then consider "n < 8" | "8 \<le> n" "n < 16" | "16 \<le> n" "n < 24" | "24 \<le> n" "n < 32"
    by fastforce
  then show "bit (Uint32 (PutUint32 v @ r)) n = bit v n"
    by cases (simp_all add: Uint32_def PutUint32_def bit_simps less_diff_conv2)
qed

lemma Uint64_PutUint64 [simp, codec]: "Uint64 (PutUint64 v @ r) = v"
proof (rule bit_word_eqI)
  fix n assume "n < LENGTH(64)"
  then consider "n < 8" | "8 \<le> n" "n < 16" | "16 \<le> n" "n < 24" | "24 \<le> n" "n < 32"
    | "32 \<le> n" "n < 40" | "40 \<le> n" "n < 48" | "48 \<le> n" "n < 56" | "56 \<le> n" "n < 64"
    by fastforce
  then show "bit (Uint64 (PutUint64 v @ r)) n = bit v n"
    by cases (simp_all add: Uint64_def PutUint64_def bit_simps less_diff_conv2)
qed

lemma Uint32_PutUint32_Nil [simp, codec]: "Uint32 (PutUint32 v) = v"
  using Uint32_PutUint32 [of v "[]"] by simp

lemma Uint64_PutUint64_Nil [simp, codec]: "Uint64 (PutUint64 v) = v"
  using Uint64_PutUint64 [of v "[]"] by simp

lemma unat_word_of_nat_32 [codec]: "n < 2 ^ 32 \<Longrightarrow> unat (word_of_nat n :: u32) = n"
  by (simp add: unat_of_nat take_bit_eq_mod)

lemma unat_word_of_nat_64 [codec]: "n < 2 ^ 64 \<Longrightarrow> unat (word_of_nat n :: u64) = n"
  by (simp add: unat_of_nat take_bit_eq_mod)

lemma sint_word_of_nat_64 [codec]: "n < 2 ^ 63 \<Longrightarrow> sint (word_of_nat n :: i64) = int n"
  by (simp add: signed_of_nat signed_take_bit_int_eq_self)

lemma ReadFull_append [simp]: "length xs = n \<Longrightarrow> ReadFull (xs @ ys) n = Inr (xs, ys)"
  by (auto simp: ReadFull_def)

lemma ReadFull_short: "length inp < n \<Longrightarrow> \<exists>e. ReadFull inp n = Inl e \<and> e \<in> {EOF, ErrUnexpectedEOF}"
  by (auto simp: ReadFull_def)

lemma ReadFull_Inr: "ReadFull inp n = Inr (a, b) \<Longrightarrow> inp = a @ b \<and> length a = n"
  by (auto simp: ReadFull_def split: if_splits)

subsection \<open>Sorted entry lists\<close>

lemma ksorted_Nil [simp]: "ksorted []"
  by (simp add: ksorted_def)

lemma ksorted_Cons [simp]: "ksorted (x # xs) \<longleftrightarrow> (\<forall>y\<in>set xs. Key x < Key y) \<and> ksorted xs"
  by (simp add: ksorted_def)

lemma ksorted_append: "ksorted (xs @ ys) \<longleftrightarrow>
    ksorted xs \<and> ksorted ys \<and> (\<forall>x\<in>set xs. \<forall>y\<in>set ys. Key x < Key y)"
  by (simp add: ksorted_def sorted_wrt_append)

lemma ksorted_distinct [ksort]: "ksorted es \<Longrightarrow> distinct (map Key es)"
  by (induction es) auto

lemma set_upsert: "set (upsert x es) \<subseteq> insert x (set es)"
  by (induction es) auto

lemma Key_upsert: "Key ` set (upsert x es) = insert (Key x) (Key ` set es)"
  by (induction es) auto

lemma ksorted_upsert [simp, ksort]: "ksorted es \<Longrightarrow> ksorted (upsert x es)"
proof (induction es)
  case (Cons y ys)
  have "\<forall>z\<in>set (upsert x ys). z = x \<or> z \<in> set ys" using set_upsert [of x ys] by auto
  with Cons show ?case by fastforce
qed simp

lemma find_key_upsert [simp, ksort]:
  "find_key k (upsert x es) = (if k = Key x then Some x else find_key k es)"
  by (induction es) auto

lemma find_key_None_iff: "find_key k es = None \<longleftrightarrow> k \<notin> Key ` set es"
  by (induction es) auto

lemma find_key_SomeD: "find_key k es = Some e \<Longrightarrow> e \<in> set es \<and> Key e = k"
  by (induction es) (auto split: if_splits)

lemma find_key_Some_iff [ksort]:
  "ksorted es \<Longrightarrow> find_key k es = Some e \<longleftrightarrow> e \<in> set es \<and> Key e = k"
  by (induction es) auto

lemma ksorted_ext:
  assumes "ksorted xs" "ksorted ys" "\<And>k. find_key k xs = find_key k ys"
  shows "xs = ys"
proof -
  have set: "set xs = set ys" using assms find_key_Some_iff by (metis subsetI subset_antisym)
  have inj: "inj_on Key (set xs \<union> set ys)"
    using ksorted_distinct [OF assms(1)] set by (simp add: distinct_map)
  have "sorted (map Key zs)" if "ksorted zs" for zs
    using that unfolding ksorted_def sorted_wrt_map by (rule sorted_wrt_mono_rel [rotated]) simp
  then show ?thesis
    using map_sorted_distinct_set_unique [OF inj _ _ _ _ set] assms(1,2) ksorted_distinct by blast
qed

lemma find_key_append:
  "find_key k (xs @ ys) = (case find_key k xs of None \<Rightarrow> find_key k ys | Some e \<Rightarrow> Some e)"
  by (induction xs) auto

lemma find_key_sorted_split:
  assumes "ksorted (as @ bs)" "\<forall>a\<in>set as. Key a < k" "\<forall>b\<in>set bs. k \<le> Key b"
  shows "find_key k (as @ bs) = (case bs of [] \<Rightarrow> None | b # _ \<Rightarrow> if Key b = k then Some b else None)"
proof -
  have "find_key k as = None" using assms(2) by (auto simp: find_key_None_iff)
  moreover have "find_key k xs = None" if "bs = x # xs" "Key x \<noteq> k" for x xs
    using that assms by (auto simp: find_key_None_iff ksorted_append)
  ultimately show ?thesis by (auto simp: find_key_append split: list.splits)
qed

lemma upsert_split:
  assumes "\<forall>a\<in>set as. Key a < Key x" "\<forall>b\<in>set bs. Key x < Key b"
  shows "upsert x (as @ bs) = as @ x # bs"
    and "Key y = Key x \<Longrightarrow> upsert x (as @ y # bs) = as @ x # bs"
  using assms by (induction as; cases bs; auto)+


text \<open>A loop whose body keeps an invariant and returns, returns; \<open>foldM_rel\<close> also relates the
  loop to one on abstract states.\<close>

lemma foldM_rel:
  assumes "\<And>s x. x \<in> set xs \<Longrightarrow> I s \<Longrightarrow> \<exists>s'. f s x = Some s' \<and> I s' \<and> proj s' = g x (proj s)"
  shows "I s \<Longrightarrow> \<exists>s'. foldM f s xs = Some s' \<and> I s' \<and> proj s' = fold g xs (proj s)"
  using assms
proof (induction xs arbitrary: s)
  case (Cons x xs)
  obtain s1 where "f s x = Some s1" "I s1" "proj s1 = g x (proj s)" using Cons.prems by force
  moreover obtain s2 where "foldM f s1 xs = Some s2" "I s2" "proj s2 = fold g xs (proj s1)"
    using Cons.IH [of s1] Cons.prems(2) \<open>I s1\<close> by auto
  ultimately show ?case by simp
qed simp

lemma foldM_keep:
  assumes "\<And>s x s'. x \<in> set xs \<Longrightarrow> I s \<Longrightarrow> f s x = Some s' \<Longrightarrow> I s'" "foldM f s xs = Some s'" "I s"
  shows "I s'"
  using assms by (induction xs arbitrary: s) (auto split: Option.bind_splits)

lemma foldM_append: "foldM f s (xs @ ys) = Option.bind (foldM f s xs) (\<lambda>s'. foldM f s' ys)"
  by (induction xs arbitrary: s) (auto split: Option.bind_splits)

end
