(* ===== verification/Memtable.thy ===== *)
theory Memtable
  imports Prelude
begin

text \<open>
  The contract between the storage engine and its memtable: what the skip list promises and
  the engine relies on. The state is seen through \<open>content\<close>, the list of its entries
  in strictly ascending key order; every operation returns (no panic, no endless walk) and
  acts on that list as the functions below say. The client lemmas are proved here once, from
  the contract alone. The skip list interprets the locale.
\<close>

text \<open>Deleting: a present entry is marked and keeps its value, an absent key gets a tombstone
  without a value.\<close>

definition tombstone :: "bytes \<Rightarrow> i64 \<Rightarrow> entry list \<Rightarrow> entry" where
  "tombstone k ver es =
     (case find_key k es of
        Some e \<Rightarrow> e\<lparr>Deleted := True, Version := ver\<rparr>
      | None \<Rightarrow> \<lparr>Key = k, Value = [], Version = ver, Deleted = True\<rparr>)"

definition entomb :: "bytes \<Rightarrow> i64 \<Rightarrow> entry list \<Rightarrow> entry list" where
  "entomb k ver es = upsert (tombstone k ver es) es"

definition live :: "bytes \<Rightarrow> bytes \<Rightarrow> i64 \<Rightarrow> entry" where
  "live k v ver = \<lparr>Key = k, Value = v, Version = ver, Deleted = False\<rparr>"

definition take_limit :: "int \<Rightarrow> 'a list \<Rightarrow> 'a list" where
  "take_limit limit xs = (if limit > 0 then take (nat limit) xs else xs)"

definition range_scan :: "bytes \<Rightarrow> bytes \<Rightarrow> entry list \<Rightarrow> entry list" where
  "range_scan start fin es =
     takeWhile (\<lambda>e. fin = [] \<or> Key e < fin) (dropWhile (\<lambda>e. Key e < start) es)"

definition lookup_result :: "bytes \<Rightarrow> entry list \<Rightarrow> entry \<times> bool" where
  "lookup_result k es = (case find_key k es of None \<Rightarrow> (zeroEntry, False) | Some e \<Rightarrow> (e, True))"

text \<open>The writes a memtable receives, and their effect on the entries.\<close>

datatype mem_op = MPut bytes bytes i64 | MDel bytes i64

fun apply_op :: "mem_op \<Rightarrow> entry list \<Rightarrow> entry list" where
  "apply_op (MPut k v ver) es = upsert (live k v ver) es"
| "apply_op (MDel k ver) es = entomb k ver es"

fun op_key :: "mem_op \<Rightarrow> bytes" where
  "op_key (MPut k v ver) = k"
| "op_key (MDel k ver) = k"

lemma live_simps [simp]:
  "Key (live k v ver) = k" "Value (live k v ver) = v" "Version (live k v ver) = ver" "\<not> Deleted (live k v ver)"
  by (simp_all add: live_def)

lemma tombstone_simps [simp]:
  "Key (tombstone k ver es) = k" "Version (tombstone k ver es) = ver" "Deleted (tombstone k ver es)"
  by (auto simp: tombstone_def split: option.splits dest: find_key_SomeD)

lemma find_key_entomb [simp, ksort]:
  "find_key k (entomb k' ver es) = (if k = k' then Some (tombstone k' ver es) else find_key k es)"
  by (simp add: entomb_def)

lemma ksorted_entomb [simp, ksort]: "ksorted es \<Longrightarrow> ksorted (entomb k ver es)"
  by (simp add: entomb_def)

lemma ksorted_apply_op [simp, ksort]: "ksorted es \<Longrightarrow> ksorted (apply_op op es)"
  by (cases op) auto

lemma find_key_apply_op_other: "k \<noteq> op_key op \<Longrightarrow> find_key k (apply_op op es) = find_key k es"
  by (cases op) auto

lemma ksorted_fold_apply_op: "ksorted es \<Longrightarrow> ksorted (fold apply_op ops es)"
  by (induction ops arbitrary: es) auto

lemma set_take_limit: "set (take_limit n xs) \<subseteq> set xs"
  by (auto simp: take_limit_def dest: in_set_takeD)

lemma ksorted_dropWhile_iff: "ksorted es \<Longrightarrow> e \<in> set (dropWhile (\<lambda>e. Key e < k) es) \<longleftrightarrow> e \<in> set es \<and> k \<le> Key e"
  by (induction es) auto

lemma ksorted_takeWhile_iff: "ksorted es \<Longrightarrow> e \<in> set (takeWhile (\<lambda>e. Key e < k) es) \<longleftrightarrow> e \<in> set es \<and> Key e < k"
  by (induction es) auto

lemma ksorted_dropWhile: "ksorted es \<Longrightarrow> ksorted (dropWhile P es)"
  by (simp add: ksorted_def sorted_wrt_dropWhile)

lemma takeWhile_True [simp]: "takeWhile (\<lambda>x. True) xs = xs"
  by (induction xs) auto

lemma set_range_scan:
  "ksorted es \<Longrightarrow> e \<in> set (range_scan start fin es) \<longleftrightarrow>
     e \<in> set es \<and> start \<le> Key e \<and> (fin = [] \<or> Key e < fin)"
  by (cases "fin = []")
    (simp_all add: range_scan_def ksorted_dropWhile_iff ksorted_takeWhile_iff ksorted_dropWhile)

locale memtable =
  fixes invar :: "'s \<Rightarrow> bool"
    and content :: "'s \<Rightarrow> entry list"
    and new :: "'s"
    and put :: "'r \<Rightarrow> 's \<Rightarrow> bytes \<Rightarrow> bytes \<Rightarrow> i64 \<Rightarrow> 's option"
    and del :: "'r \<Rightarrow> 's \<Rightarrow> bytes \<Rightarrow> i64 \<Rightarrow> 's option"
    and get :: "'s \<Rightarrow> bytes \<Rightarrow> (entry \<times> bool) option"
    and scan :: "'s \<Rightarrow> bytes \<Rightarrow> bytes \<Rightarrow> int \<Rightarrow> entry list option"
    and elems :: "'s \<Rightarrow> entry list option"
    and size_of :: "'s \<Rightarrow> nat"
  assumes invar_new: "invar new" and content_new: "content new = []"
    and content_sorted: "invar s \<Longrightarrow> ksorted (content s)"
    and put_law: "invar s \<Longrightarrow> \<exists>s'. put r s k v ver = Some s' \<and> invar s' \<and>
          content s' = upsert (live k v ver) (content s)"
    and del_law: "invar s \<Longrightarrow> \<exists>s'. del r s k ver = Some s' \<and> invar s' \<and>
          content s' = entomb k ver (content s)"
    and get_law: "invar s \<Longrightarrow> get s k = Some (lookup_result k (content s))"
    and scan_law: "invar s \<Longrightarrow>
          scan s start fin limit = Some (take_limit limit (range_scan start fin (content s)))"
    and elems_law: "invar s \<Longrightarrow> elems s = Some (content s)"
    and size_law: "invar s \<Longrightarrow> size_of s = length (content s)"
begin

lemma get_after_put:
  "invar s \<Longrightarrow> put r s k v ver = Some s' \<Longrightarrow>
   get s' k' = (if k' = k then Some (live k v ver, True) else get s k')"
  using put_law [of s r k v ver] by (auto simp: get_law lookup_result_def)

lemma get_after_del:
  "invar s \<Longrightarrow> del r s k ver = Some s' \<Longrightarrow>
   get s' k' = (if k' = k then Some (tombstone k ver (content s), True) else get s k')"
  using del_law [of s r k ver] by (auto simp: get_law lookup_result_def)

lemma scan_members:
  "invar s \<Longrightarrow> \<exists>es. scan s start fin limit = Some es \<and>
     (\<forall>e\<in>set es. e \<in> set (content s) \<and> start \<le> Key e \<and> (fin = [] \<or> Key e < fin)) \<and>
     (limit > 0 \<longrightarrow> length es \<le> nat limit)"
proof -
  assume s: "invar s"
  let ?es = "take_limit limit (range_scan start fin (content s))"
  have "\<forall>e\<in>set ?es. e \<in> set (content s) \<and> start \<le> Key e \<and> (fin = [] \<or> Key e < fin)"
    using set_take_limit [of limit "range_scan start fin (content s)"] set_range_scan [OF content_sorted [OF s]]
    by blast
  moreover have "limit > 0 \<longrightarrow> length ?es \<le> nat limit" by (simp add: take_limit_def)
  ultimately show ?thesis using scan_law [OF s] by blast
qed

lemma scan_unlimited:
  "invar s \<Longrightarrow> \<exists>es. scan s start [] 0 = Some es \<and> ksorted es \<and>
     set es = {e \<in> set (content s). start \<le> Key e}"
  by (auto simp: scan_law take_limit_def set_range_scan content_sorted)
    (simp add: range_scan_def ksorted_dropWhile content_sorted)

lemma empty_iff: "invar s \<Longrightarrow> size_of s = 0 \<longleftrightarrow> content s = []"
  by (simp add: size_law)

lemma get_empty: "get new k = Some (zeroEntry, False)"
  by (simp add: get_law invar_new content_new lookup_result_def)

end

end
