(* ===== verification/Skiplist.thy ===== *)
theory Skiplist
  imports Memtable Complex_Main
begin

text \<open>
  \<open>internal/storage/skiplist/skiplist.go\<close>: the memtable. The model keeps the pointer
  structure: a node is a cell of a heap (the list \<open>nodes\<close>, a pointer is an index into it)
  with its entry and its \<open>forward\<close> pointers, one per level, and every operation walks
  and splices the levels as the Go code does. A nil dereference, an index out of range and a
  walk that never ends are all \<open>None\<close>.

  The calls of \<open>rand.Float64\<close> made by one \<open>Put\<close> are a parameter
  \<open>draw\<close>: \<open>draw i\<close> is the value of the call made with \<open>lvl = i\<close>. All
  results hold for every \<open>draw\<close>.

  \<open>sl_rep s xs\<close> is the representation invariant: \<open>xs\<close> are the addresses of the
  nodes in order, and on every level \<open>i\<close> the forward pointers visit exactly the nodes of
  \<open>xs\<close> that are tall enough. The lemmas show that each operation implements an
  operation on the sorted list of entries; the locale \<open>memtable\<close> states that contract and
  the end of the theory interprets it.
\<close>

type_synonym rng = "nat \<Rightarrow> rat"

definition maxLevel :: nat where
  "maxLevel = 32"

definition probability :: rat where
  "probability = 1 / 4"

record node =
  nentry :: entry
  forward :: "nat option list"

record skiplist =
  head :: nat
  level :: nat
  len :: nat
  memSize :: i64
  nodes :: "node list"

definition newNode :: "nat \<Rightarrow> entry \<Rightarrow> node" where
  "newNode lvl e = \<lparr>nentry = e, forward = replicate (lvl + 1) None\<rparr>"

definition sl_New :: skiplist where
  "sl_New = \<lparr>head = 0, level = 0, len = 0, memSize = 0, nodes = [newNode maxLevel zeroEntry]\<rparr>"

function randomLevel_loop :: "rng \<Rightarrow> nat \<Rightarrow> nat" where
  "randomLevel_loop draw lvl =
     (if lvl < maxLevel \<and> draw lvl < probability then randomLevel_loop draw (lvl + 1) else lvl)"
  by pat_completeness auto
termination
  by (relation "measure (\<lambda>(draw, lvl). maxLevel - lvl)") auto

definition randomLevel :: "rng \<Rightarrow> nat" where
  "randomLevel draw = randomLevel_loop draw 0"

text \<open>Reading \<open>p.forward[i]\<close> and the node behind a pointer.\<close>

definition fwd :: "node list \<Rightarrow> nat \<Rightarrow> nat \<Rightarrow> nat option option" where
  "fwd ns i a = (if a < length ns \<and> i < length (forward (ns ! a)) then Some (forward (ns ! a) ! i)
                 else None)"

definition fetch :: "node list \<Rightarrow> nat \<Rightarrow> node option" where
  "fetch ns a = (if a < length ns then Some (ns ! a) else None)"

definition set_fwd :: "node list \<Rightarrow> nat \<Rightarrow> nat \<Rightarrow> nat option \<Rightarrow> node list" where
  "set_fwd ns a i p = ns[a := (ns ! a)\<lparr>forward := (forward (ns ! a))[i := p]\<rparr>]"

text \<open>The inner loop of every search: move right on level \<open>i\<close> while the next key is
  smaller.\<close>

partial_function (option) walk :: "node list \<Rightarrow> bytes \<Rightarrow> nat \<Rightarrow> nat \<Rightarrow> nat option" where
  "walk ns key i cur =
     Option.bind (fwd ns i cur) (\<lambda>nx. case nx of
        None \<Rightarrow> Some cur
      | Some n \<Rightarrow> Option.bind (fetch ns n) (\<lambda>nd.
          if Key (nentry nd) < key then walk ns key i n else Some cur))"

text \<open>The outer loop, from level \<open>i\<close> down to 0; \<open>descend\<close> also records the
  predecessors in \<open>update\<close>, as \<open>Put\<close> does.\<close>

fun seek :: "node list \<Rightarrow> bytes \<Rightarrow> nat \<Rightarrow> nat \<Rightarrow> nat option" where
  "seek ns key 0 cur = walk ns key 0 cur"
| "seek ns key (Suc i) cur = Option.bind (walk ns key (Suc i) cur) (seek ns key i)"

definition store_update :: "nat option list \<Rightarrow> nat \<Rightarrow> nat \<Rightarrow> nat option list option" where
  "store_update upd i c = (if i < length upd then Some (upd[i := Some c]) else None)"

fun descend :: "node list \<Rightarrow> bytes \<Rightarrow> nat \<Rightarrow> nat \<Rightarrow> nat option list \<Rightarrow> (nat \<times> nat option list) option" where
  "descend ns key 0 cur upd = do {
     c \<leftarrow> walk ns key 0 cur;
     upd' \<leftarrow> store_update upd 0 c;
     Some (c, upd')
   }"
| "descend ns key (Suc i) cur upd = do {
     c \<leftarrow> walk ns key (Suc i) cur;
     upd' \<leftarrow> store_update upd (Suc i) c;
     descend ns key i c upd'
   }"

text \<open>\<open>for i := s.level + 1; i <= lvl; i++ { update[i] = s.head }\<close>\<close>

function fill_update :: "nat option list \<Rightarrow> nat \<Rightarrow> nat \<Rightarrow> nat \<Rightarrow> nat option list option" where
  "fill_update upd i lvl hp =
     (if i \<le> lvl then Option.bind (store_update upd i hp) (\<lambda>u. fill_update u (i + 1) lvl hp)
      else Some upd)"
  by pat_completeness auto
termination
  by (relation "measure (\<lambda>(upd, i, lvl, hp). Suc lvl - i)") auto

text \<open>\<open>for i := 0; i <= lvl; i++ { n.forward[i] = update[i].forward[i]; update[i].forward[i] = n }\<close>\<close>

function splice_node :: "node list \<Rightarrow> nat option list \<Rightarrow> nat \<Rightarrow> nat \<Rightarrow> nat \<Rightarrow> node list option" where
  "splice_node ns upd n i lvl =
     (if i \<le> lvl then
        Option.bind (if i < length upd then upd ! i else None) (\<lambda>u.
        Option.bind (fwd ns i u) (\<lambda>p.
          splice_node (set_fwd (set_fwd ns n i p) u i (Some n)) upd n (i + 1) lvl))
      else Some ns)"
  by pat_completeness auto
termination
  by (relation "measure (\<lambda>(ns, upd, n, i, lvl). Suc lvl - i)") auto

definition entry_at :: "skiplist \<Rightarrow> nat \<Rightarrow> (entry \<Rightarrow> entry) \<Rightarrow> skiplist" where
  "entry_at s n f = s\<lparr>nodes := (nodes s)[n := (nodes s ! n)\<lparr>nentry := f (nentry (nodes s ! n))\<rparr>]\<rparr>"

definition insert_node ::
  "rng \<Rightarrow> skiplist \<Rightarrow> bytes \<Rightarrow> bytes \<Rightarrow> i64 \<Rightarrow> nat option list \<Rightarrow> skiplist option" where
  "insert_node draw s key value version upd = (
     let lvl = randomLevel draw;
         n = length (nodes s);
         nd = newNode lvl \<lparr>Key = key, Value = value, Version = version, Deleted = False\<rparr>
     in do {
       upd' \<leftarrow> (if lvl > level s then fill_update upd (level s + 1) lvl (head s) else Some upd);
       ns \<leftarrow> splice_node (nodes s @ [nd]) upd' n 0 lvl;
       Some (s\<lparr>level := max lvl (level s), len := len s + 1,
               memSize := memSize s + word_of_nat (length key + length value + 24),
               nodes := ns\<rparr>)
     })"

text \<open>The node after \<open>cur\<close> on level 0 when its key is \<open>key\<close>: the test
  \<open>cur = cur.forward[0]; cur != nil \&\& cur.entry.Key == key\<close> that ends every search.\<close>

definition next_if :: "node list \<Rightarrow> bytes \<Rightarrow> nat \<Rightarrow> nat option option" where
  "next_if ns key cur = do {
     nx \<leftarrow> fwd ns 0 cur;
     (case nx of
        None \<Rightarrow> Some None
      | Some n \<Rightarrow> do {
          nd \<leftarrow> fetch ns n;
          Some (if Key (nentry nd) = key then Some n else None)
        })
   }"

definition sl_Put :: "rng \<Rightarrow> skiplist \<Rightarrow> bytes \<Rightarrow> bytes \<Rightarrow> i64 \<Rightarrow> skiplist option" where
  "sl_Put draw s key value version = do {
     (cur, upd) \<leftarrow> descend (nodes s) key (level s) (head s) (replicate (maxLevel + 1) None);
     m \<leftarrow> next_if (nodes s) key cur;
     (case m of
        Some n \<Rightarrow> Some (entry_at s n (\<lambda>e. e\<lparr>Value := value, Version := version, Deleted := False\<rparr>))
      | None \<Rightarrow> insert_node draw s key value version upd)
   }"

definition findNode :: "skiplist \<Rightarrow> bytes \<Rightarrow> nat option option" where
  "findNode s key = do {
     cur \<leftarrow> seek (nodes s) key (level s) (head s);
     next_if (nodes s) key cur
   }"

text \<open>\<open>Delete\<close> holds the lock in three sections: the search that marks a present key,
  the nested \<open>Put\<close> (which takes the lock itself), and the final marking.\<close>

definition sl_Delete_probe :: "skiplist \<Rightarrow> bytes \<Rightarrow> i64 \<Rightarrow> (bool \<times> skiplist) option" where
  "sl_Delete_probe s key version = do {
     cur \<leftarrow> seek (nodes s) key (level s) (head s);
     m \<leftarrow> next_if (nodes s) key cur;
     Some (case m of
        Some n \<Rightarrow> (True, entry_at s n (\<lambda>e. e\<lparr>Deleted := True, Version := version\<rparr>))
      | None \<Rightarrow> (False, s))
   }"

definition sl_Delete_mark :: "skiplist \<Rightarrow> bytes \<Rightarrow> skiplist option" where
  "sl_Delete_mark s key = do {
     m \<leftarrow> findNode s key;
     (case m of
        Some n \<Rightarrow> Some (entry_at s n (\<lambda>e. e\<lparr>Deleted := True\<rparr>))
      | None \<Rightarrow> None)
   }"

definition sl_Delete :: "rng \<Rightarrow> skiplist \<Rightarrow> bytes \<Rightarrow> i64 \<Rightarrow> skiplist option" where
  "sl_Delete draw s key version = do {
     (found, s1) \<leftarrow> sl_Delete_probe s key version;
     (if found then Some s1
      else do { s2 \<leftarrow> sl_Put draw s1 key [] version; sl_Delete_mark s2 key })
   }"

definition sl_Get :: "skiplist \<Rightarrow> bytes \<Rightarrow> (entry \<times> bool) option" where
  "sl_Get s key = do {
     cur \<leftarrow> seek (nodes s) key (level s) (head s);
     m \<leftarrow> next_if (nodes s) key cur;
     Some (case m of Some n \<Rightarrow> (nentry (nodes s ! n), True) | None \<Rightarrow> (zeroEntry, False))
   }"

partial_function (option) sl_Scan_loop ::
  "node list \<Rightarrow> bytes \<Rightarrow> int \<Rightarrow> nat option \<Rightarrow> entry list \<Rightarrow> entry list option" where
  "sl_Scan_loop ns fin limit cur results =
     (case cur of
        None \<Rightarrow> Some results
      | Some n \<Rightarrow> Option.bind (fetch ns n) (\<lambda>nd.
          if fin \<noteq> [] \<and> Key (nentry nd) \<ge> fin then Some results
          else if limit > 0 \<and> int (length results) \<ge> limit then Some results
          else Option.bind (fwd ns 0 n) (\<lambda>nx. sl_Scan_loop ns fin limit nx (results @ [nentry nd]))))"

definition sl_Scan :: "skiplist \<Rightarrow> bytes \<Rightarrow> bytes \<Rightarrow> int \<Rightarrow> entry list option" where
  "sl_Scan s start fin limit = do {
     cur \<leftarrow> seek (nodes s) start (level s) (head s);
     nx \<leftarrow> fwd (nodes s) 0 cur;
     sl_Scan_loop (nodes s) fin limit nx []
   }"

partial_function (option) sl_All_loop :: "node list \<Rightarrow> nat option \<Rightarrow> entry list \<Rightarrow> entry list option" where
  "sl_All_loop ns cur entries =
     (case cur of
        None \<Rightarrow> Some entries
      | Some n \<Rightarrow> Option.bind (fetch ns n) (\<lambda>nd.
          Option.bind (fwd ns 0 n) (\<lambda>nx. sl_All_loop ns nx (entries @ [nentry nd]))))"

definition sl_All :: "skiplist \<Rightarrow> entry list option" where
  "sl_All s = do {
     nx \<leftarrow> fwd (nodes s) 0 (head s);
     sl_All_loop (nodes s) nx []
   }"

definition sl_Len :: "skiplist \<Rightarrow> nat" where
  "sl_Len s = len s"

definition sl_MemSize :: "skiplist \<Rightarrow> i64" where
  "sl_MemSize s = memSize s"

subsection \<open>The representation invariant\<close>

primrec chain :: "(nat \<Rightarrow> nat option option) \<Rightarrow> nat \<Rightarrow> nat list \<Rightarrow> bool" where
  "chain f a [] = (f a = Some None)"
| "chain f a (b # bs) = (f a = Some (Some b) \<and> chain f b bs)"

definition nkey :: "node list \<Rightarrow> nat \<Rightarrow> bytes" where
  "nkey ns a = Key (nentry (ns ! a))"

definition lane :: "node list \<Rightarrow> nat \<Rightarrow> nat list \<Rightarrow> nat list" where
  "lane ns i xs = filter (\<lambda>a. i < length (forward (ns ! a))) xs"

definition sl_rep :: "skiplist \<Rightarrow> nat list \<Rightarrow> bool" where
  "sl_rep s xs \<longleftrightarrow>
     head s < length (nodes s) \<and> length (forward (nodes s ! head s)) = maxLevel + 1 \<and>
     distinct (head s # xs) \<and> (\<forall>a\<in>set xs. a < length (nodes s)) \<and>
     sorted_wrt (\<lambda>a b. nkey (nodes s) a < nkey (nodes s) b) xs \<and>
     (\<forall>i\<le>maxLevel. chain (fwd (nodes s) i) (head s) (lane (nodes s) i xs)) \<and>
     (\<forall>a\<in>set xs. 0 < length (forward (nodes s ! a)) \<and> length (forward (nodes s ! a)) \<le> Suc (level s)) \<and>
     level s \<le> maxLevel \<and> len s = length xs"

definition sl_entries :: "skiplist \<Rightarrow> nat list \<Rightarrow> entry list" where
  "sl_entries s xs = map (\<lambda>a. nentry (nodes s ! a)) xs"

definition sl_inv :: "skiplist \<Rightarrow> bool" where
  "sl_inv s \<longleftrightarrow> (\<exists>xs. sl_rep s xs)"

text \<open>What the list holds: the result of \<open>All\<close>.\<close>

definition contents :: "skiplist \<Rightarrow> entry list" where
  "contents s = the (sl_All s)"

lemma nkey_fold: "Key (nentry (ns ! a)) = nkey ns a"
  by (simp add: nkey_def)

subsection \<open>Chains\<close>

lemma chain_suffix: "chain f a (as @ b # bs) \<Longrightarrow> chain f b bs"
  by (induction as arbitrary: a) auto

lemma chain_next:
  "chain f a (as @ bs) \<Longrightarrow> f (last (a # as)) = Some (case bs of [] \<Rightarrow> None | b # _ \<Rightarrow> Some b)"
  by (induction as arbitrary: a) (auto split: list.splits)

lemma chain_cong: "(\<And>b. b \<in> set (a # as) \<Longrightarrow> f b = g b) \<Longrightarrow> chain f a as \<longleftrightarrow> chain g a as"
  by (induction as arbitrary: a) auto

lemma chain_insert:
  assumes "chain f a (as @ bs)" "distinct (a # as @ bs)" "n \<notin> set (a # as @ bs)"
    and "p = last (a # as)"
    and "\<And>b. g b = (if b = p then Some (Some n) else if b = n then f p else f b)"
  shows "chain g a (as @ n # bs)"
  using assms
proof (induction as arbitrary: a)
  case Nil
  have "chain g n bs"
  proof (cases bs)
    case Nil then show ?thesis using Nil.prems by auto
  next
    case (Cons b bs')
    have "chain g b bs'"
      using Nil.prems Cons by (subst chain_cong [of _ _ g f]) auto
    then show ?thesis using Nil.prems Cons by auto
  qed
  moreover have "g a = Some (Some n)" using Nil.prems(4,5) by simp
  ultimately show ?case by simp
next
  case (Cons c as)
  have "chain g c (as @ n # bs)"
    by (rule Cons.IH) (use Cons.prems in auto)
  moreover have "g a = Some (Some c)"
    using Cons.prems by (auto split: if_splits)
  ultimately show ?case by simp
qed

lemma walk_chain:
  "chain (fwd ns i) cur bs \<Longrightarrow> \<forall>b\<in>set bs. b < length ns \<Longrightarrow>
   walk ns key i cur = Some (last (cur # takeWhile (\<lambda>a. nkey ns a < key) bs))"
proof (induction bs arbitrary: cur)
  case Nil
  then show ?case by (subst walk.simps) simp
next
  case (Cons b bs)
  then show ?case by (subst walk.simps) (auto simp: fetch_def nkey_def)
qed

subsection \<open>Searching\<close>

definition pred_at :: "node list \<Rightarrow> bytes \<Rightarrow> nat \<Rightarrow> nat \<Rightarrow> nat list \<Rightarrow> nat" where
  "pred_at ns key i h xs = last (h # takeWhile (\<lambda>a. nkey ns a < key) (lane ns i xs))"

lemma set_lane: "set (lane ns i xs) = {a \<in> set xs. i < length (forward (ns ! a))}"
  by (auto simp: lane_def)

lemma takeWhile_lane:
  assumes "sorted_wrt (\<lambda>a b. nkey ns a < nkey ns b) xs"
  shows "takeWhile (\<lambda>a. nkey ns a < key) (lane ns i xs) =
         lane ns i (takeWhile (\<lambda>a. nkey ns a < key) xs)"
    and "dropWhile (\<lambda>a. nkey ns a < key) (lane ns i xs) =
         lane ns i (dropWhile (\<lambda>a. nkey ns a < key) xs)"
proof -
  have *: "\<not> nkey ns b < key \<Longrightarrow> \<forall>a\<in>set as. nkey ns b < nkey ns a \<Longrightarrow>
      takeWhile (\<lambda>a. nkey ns a < key) (lane ns i as) = [] \<and>
      dropWhile (\<lambda>a. nkey ns a < key) (lane ns i as) = lane ns i as" for as b
    by (cases "lane ns i as") (auto simp: lane_def filter_eq_Cons_iff)
  show "takeWhile (\<lambda>a. nkey ns a < key) (lane ns i xs) =
         lane ns i (takeWhile (\<lambda>a. nkey ns a < key) xs)"
    using assms by (induction xs) (auto simp: lane_def * [unfolded lane_def])
  show "dropWhile (\<lambda>a. nkey ns a < key) (lane ns i xs) =
         lane ns i (dropWhile (\<lambda>a. nkey ns a < key) xs)"
    using assms by (induction xs) (auto simp: lane_def * [unfolded lane_def])
qed

lemma walk_pred:
  assumes rep: "sl_rep s xs" and i: "i \<le> maxLevel"
  shows "walk (nodes s) key i (pred_at (nodes s) key (Suc i) (head s) xs) =
         Some (pred_at (nodes s) key i (head s) xs)"
proof -
  let ?ns = "nodes s" and ?P = "\<lambda>a. nkey (nodes s) a < key" and ?p = "pred_at (nodes s) key (Suc i) (head s) xs"
  have ch: "chain (fwd ?ns i) (head s) (lane ?ns i xs)" and
    srt: "sorted_wrt (\<lambda>a b. nkey ?ns a < nkey ?ns b) (lane ?ns i xs)" and
    bnd: "\<forall>b\<in>set (lane ?ns i xs). b < length ?ns"
    using rep i by (auto simp: sl_rep_def lane_def sorted_wrt_filter)
  show ?thesis
  proof (cases "takeWhile ?P (lane ?ns (Suc i) xs) = []")
    case True
    then show ?thesis using walk_chain [OF ch bnd] by (simp add: pred_at_def)
  next
    case False
    then have "?p \<in> set (takeWhile ?P (lane ?ns (Suc i) xs))" by (simp add: pred_at_def)
    then have "?p \<in> set (lane ?ns i xs)" and pk: "nkey ?ns ?p < key"
      by (auto dest!: set_takeWhileD simp: set_lane)
    then obtain as bs where split: "lane ?ns i xs = as @ ?p # bs" by (metis split_list)
    have "\<forall>a\<in>set as. nkey ?ns a < key"
      using srt pk unfolding split by (auto simp: sorted_wrt_append)
    then have "takeWhile ?P (lane ?ns i xs) = as @ ?p # takeWhile ?P bs"
      using pk by (simp add: split takeWhile_append2)
    moreover have "walk ?ns key i ?p = Some (last (?p # takeWhile ?P bs))"
      using chain_suffix [of "fwd ?ns i" "head s" as ?p bs] ch bnd split by (intro walk_chain) auto
    ultimately show ?thesis by (simp add: pred_at_def)
  qed
qed

lemma pred_top: "sl_rep s xs \<Longrightarrow> pred_at (nodes s) key (Suc (level s)) (head s) xs = head s"
proof -
  assume "sl_rep s xs"
  then have "lane (nodes s) (Suc (level s)) xs = []"
    by (auto simp: sl_rep_def lane_def filter_empty_conv leD)
  then show ?thesis by (simp add: pred_at_def)
qed

lemma seek_pred:
  "sl_rep s xs \<Longrightarrow> i \<le> maxLevel \<Longrightarrow>
   seek (nodes s) key i (pred_at (nodes s) key (Suc i) (head s) xs) =
   Some (pred_at (nodes s) key 0 (head s) xs)"
  by (induction i) (auto simp: walk_pred)

lemma descend_pred:
  "sl_rep s xs \<Longrightarrow> i \<le> maxLevel \<Longrightarrow> i < length upd \<Longrightarrow>
   \<exists>upd'. descend (nodes s) key i (pred_at (nodes s) key (Suc i) (head s) xs) upd =
        Some (pred_at (nodes s) key 0 (head s) xs, upd') \<and> length upd' = length upd \<and>
        (\<forall>j\<le>i. upd' ! j = Some (pred_at (nodes s) key j (head s) xs)) \<and>
        (\<forall>j>i. j < length upd \<longrightarrow> upd' ! j = upd ! j)"
proof (induction i arbitrary: upd)
  case 0
  then show ?case by (auto simp: walk_pred store_update_def)
next
  case (Suc i)
  let ?u = "upd[Suc i := Some (pred_at (nodes s) key (Suc i) (head s) xs)]"
  obtain upd' where u: "descend (nodes s) key i (pred_at (nodes s) key (Suc i) (head s) xs) ?u =
        Some (pred_at (nodes s) key 0 (head s) xs, upd')" "length upd' = length ?u"
        "\<forall>j\<le>i. upd' ! j = Some (pred_at (nodes s) key j (head s) xs)"
        "\<forall>j>i. j < length ?u \<longrightarrow> upd' ! j = ?u ! j"
    using Suc.IH [of ?u] Suc.prems by auto
  have "upd' ! j = Some (pred_at (nodes s) key j (head s) xs)" if "j \<le> Suc i" for j
    using u(3,4) that Suc.prems by (cases "j \<le> i") (auto simp: le_Suc_eq)
  moreover have "upd' ! j = upd ! j" if "Suc i < j" "j < length upd" for j
    using u(4) that by auto
  ultimately show ?case
    using u(1,2) Suc.prems by (simp add: walk_pred store_update_def)
qed

lemma seek_head: "sl_rep s xs \<Longrightarrow>
    seek (nodes s) key (level s) (head s) = Some (pred_at (nodes s) key 0 (head s) xs)"
  using seek_pred [of s xs "level s" key] pred_top [of s xs key] by (simp add: sl_rep_def)

lemma lane_0: "sl_rep s xs \<Longrightarrow> lane (nodes s) 0 xs = xs"
  by (simp add: sl_rep_def lane_def)

lemma fwd_pred:
  assumes "sl_rep s xs"
  shows "fwd (nodes s) 0 (pred_at (nodes s) key 0 (head s) xs) =
    Some (case dropWhile (\<lambda>a. nkey (nodes s) a < key) xs of [] \<Rightarrow> None | b # _ \<Rightarrow> Some b)"
proof -
  have "chain (fwd (nodes s) 0) (head s) (takeWhile (\<lambda>a. nkey (nodes s) a < key) xs @
      dropWhile (\<lambda>a. nkey (nodes s) a < key) xs)"
    using assms lane_0 [OF assms] by (auto simp: sl_rep_def)
  from chain_next [OF this] show ?thesis using lane_0 [OF assms] by (simp add: pred_at_def)
qed

lemma next_if_pred:
  assumes "sl_rep s xs"
  shows "next_if (nodes s) key (pred_at (nodes s) key 0 (head s) xs) =
    Some (case dropWhile (\<lambda>a. nkey (nodes s) a < key) xs of [] \<Rightarrow> None
          | b # _ \<Rightarrow> if nkey (nodes s) b = key then Some b else None)"
proof -
  have "b < length (nodes s)" if "dropWhile (\<lambda>a. nkey (nodes s) a < key) xs = b # bs" for b bs
    using assms that set_dropWhileD [of b "\<lambda>a. nkey (nodes s) a < key" xs] by (simp add: sl_rep_def)
  then show ?thesis
    by (cases "dropWhile (\<lambda>a. nkey (nodes s) a < key) xs")
      (simp_all add: next_if_def fwd_pred [OF assms] fetch_def nkey_fold del: dropWhile_eq_Nil_conv)
qed

subsection \<open>The entries of a represented list\<close>

lemma ksorted_entries: "sl_rep s xs \<Longrightarrow> ksorted (sl_entries s xs)"
  by (simp add: sl_rep_def sl_entries_def ksorted_def sorted_wrt_map nkey_def)

lemma entries_split:
  "sl_entries s xs = sl_entries s (takeWhile (\<lambda>a. nkey (nodes s) a < key) xs) @
     sl_entries s (dropWhile (\<lambda>a. nkey (nodes s) a < key) xs)"
  by (metis map_append sl_entries_def takeWhile_dropWhile_id)

lemma entries_below: "e \<in> set (sl_entries s (takeWhile (\<lambda>a. nkey (nodes s) a < key) xs)) \<Longrightarrow> Key e < key"
  by (auto simp: sl_entries_def nkey_def dest: set_takeWhileD)

lemma entries_above:
  assumes "sl_rep s xs" "e \<in> set (sl_entries s (dropWhile (\<lambda>a. nkey (nodes s) a < key) xs))"
  shows "key \<le> Key e"
proof -
  have "sorted_wrt (\<lambda>a b. nkey (nodes s) a < nkey (nodes s) b) (dropWhile (\<lambda>a. nkey (nodes s) a < key) xs)"
    using assms(1) by (simp add: sl_rep_def sorted_wrt_dropWhile)
  moreover have "dropWhile (\<lambda>a. nkey (nodes s) a < key) xs = b # bs \<Longrightarrow> key \<le> nkey (nodes s) b" for b bs
    by (metis hd_dropWhile list.distinct(1) list.sel(1) not_less)
  ultimately show ?thesis using assms(2)
    by (cases "dropWhile (\<lambda>a. nkey (nodes s) a < key) xs")
      (fastforce simp: sl_entries_def nkey_fold)+
qed

lemma find_key_entries:
  assumes "sl_rep s xs"
  shows "find_key key (sl_entries s xs) =
    (case dropWhile (\<lambda>a. nkey (nodes s) a < key) xs of [] \<Rightarrow> None
     | b # _ \<Rightarrow> if nkey (nodes s) b = key then Some (nentry (nodes s ! b)) else None)"
proof -
  let ?as = "sl_entries s (takeWhile (\<lambda>a. nkey (nodes s) a < key) xs)"
    and ?bs = "sl_entries s (dropWhile (\<lambda>a. nkey (nodes s) a < key) xs)"
  have "find_key key (?as @ ?bs) = (case ?bs of [] \<Rightarrow> None | b # _ \<Rightarrow> if Key b = key then Some b else None)"
    using ksorted_entries [OF assms] entries_below entries_above [OF assms]
    by (intro find_key_sorted_split) (auto simp flip: entries_split)
  then have "find_key key (sl_entries s xs) =
      (case ?bs of [] \<Rightarrow> None | b # _ \<Rightarrow> if Key b = key then Some b else None)"
    by (simp flip: entries_split)
  then show ?thesis
    by (cases "dropWhile (\<lambda>a. nkey (nodes s) a < key) xs")
      (simp_all add: sl_entries_def nkey_fold del: dropWhile_eq_Nil_conv)
qed

lemma next_if_find:
  assumes "sl_rep s xs"
  shows "\<exists>m. next_if (nodes s) key (pred_at (nodes s) key 0 (head s) xs) = Some m \<and>
    (case m of None \<Rightarrow> find_key key (sl_entries s xs) = None
     | Some n \<Rightarrow> n \<in> set xs \<and> nkey (nodes s) n = key \<and>
         find_key key (sl_entries s xs) = Some (nentry (nodes s ! n)))"
proof -
  have "b \<in> set xs" if "dropWhile (\<lambda>a. nkey (nodes s) a < key) xs = b # bs" for b bs
    using that set_dropWhileD [of b "\<lambda>a. nkey (nodes s) a < key" xs] by simp
  then show ?thesis
    unfolding next_if_pred [OF assms] find_key_entries [OF assms]
    by (cases "dropWhile (\<lambda>a. nkey (nodes s) a < key) xs") (auto simp del: dropWhile_eq_Nil_conv)
qed

lemma Get_rep:
  assumes "sl_rep s xs"
  shows "sl_Get s key = Some (case find_key key (sl_entries s xs) of
      None \<Rightarrow> (zeroEntry, False) | Some e \<Rightarrow> (e, True))"
proof -
  obtain m where m: "next_if (nodes s) key (pred_at (nodes s) key 0 (head s) xs) = Some m"
    "case m of None \<Rightarrow> find_key key (sl_entries s xs) = None
     | Some n \<Rightarrow> n \<in> set xs \<and> nkey (nodes s) n = key \<and>
         find_key key (sl_entries s xs) = Some (nentry (nodes s ! n))"
    using next_if_find [OF assms] by blast
  then show ?thesis
    by (cases m) (auto simp: sl_Get_def seek_head [OF assms])
qed

subsection \<open>Updating an entry in place\<close>

lemma entry_at_simps [simp]:
  "head (entry_at s n f) = head s" "level (entry_at s n f) = level s" "len (entry_at s n f) = len s"
  "memSize (entry_at s n f) = memSize s" "length (nodes (entry_at s n f)) = length (nodes s)"
  by (simp_all add: entry_at_def)

lemma forward_entry_at: "n < length (nodes s) \<Longrightarrow> forward (nodes (entry_at s n f) ! a) = forward (nodes s ! a)"
  by (cases "a = n") (auto simp: entry_at_def)

lemma nentry_entry_at: "n < length (nodes s) \<Longrightarrow>
    nentry (nodes (entry_at s n f) ! a) = (if a = n then f (nentry (nodes s ! a)) else nentry (nodes s ! a))"
  by (auto simp: entry_at_def)

lemma entry_at_rep:
  assumes rep: "sl_rep s xs" and n: "n \<in> set xs" and f: "\<And>e. Key (f e) = Key e"
  shows "sl_rep (entry_at s n f) xs"
    and "sl_entries (entry_at s n f) xs = upsert (f (nentry (nodes s ! n))) (sl_entries s xs)"
proof -
  have nl: "n < length (nodes s)" using rep n by (simp add: sl_rep_def)
  have key: "nkey (nodes (entry_at s n f)) = nkey (nodes s)"
    using nl by (auto simp: nkey_def nentry_entry_at f)
  have "fwd (nodes (entry_at s n f)) = fwd (nodes s)"
    using nl by (intro ext) (simp add: fwd_def forward_entry_at)
  moreover have "lane (nodes (entry_at s n f)) = lane (nodes s)"
    using nl by (intro ext) (simp add: lane_def forward_entry_at)
  ultimately show "sl_rep (entry_at s n f) xs"
    using rep nl by (simp add: sl_rep_def key forward_entry_at)
  obtain as bs where split: "xs = as @ n # bs" using n by (metis split_list)
  have "distinct xs" using rep by (simp add: sl_rep_def)
  then have ne: "n \<notin> set as" "n \<notin> set bs" using split by auto
  have "sorted_wrt (\<lambda>a b. nkey (nodes s) a < nkey (nodes s) b) xs" using rep by (simp add: sl_rep_def)
  then have srt: "\<forall>a\<in>set as. nkey (nodes s) a < nkey (nodes s) n" "\<forall>b\<in>set bs. nkey (nodes s) n < nkey (nodes s) b"
    using split by (auto simp: sorted_wrt_append)
  have "upsert (f (nentry (nodes s ! n))) (sl_entries s as @ nentry (nodes s ! n) # sl_entries s bs) =
      sl_entries s as @ f (nentry (nodes s ! n)) # sl_entries s bs"
    using srt by (intro upsert_split(2)) (auto simp: sl_entries_def f nkey_fold)
  moreover have "sl_entries (entry_at s n f) xs =
      sl_entries s as @ f (nentry (nodes s ! n)) # sl_entries s bs"
    using ne nl by (auto simp: split sl_entries_def nentry_entry_at)
  ultimately show "sl_entries (entry_at s n f) xs = upsert (f (nentry (nodes s ! n))) (sl_entries s xs)"
    by (simp add: split sl_entries_def)
qed

subsection \<open>Inserting a node\<close>

declare randomLevel_loop.simps [simp del] fill_update.simps [simp del] splice_node.simps [simp del]

lemma randomLevel_loop_bound: "lvl \<le> maxLevel \<Longrightarrow> randomLevel_loop draw lvl \<le> maxLevel"
proof (induction draw lvl rule: randomLevel_loop.induct)
  case (1 draw lvl)
  then show ?case by (auto simp: randomLevel_loop.simps [of draw lvl])
qed

lemma randomLevel_bound [simp]: "randomLevel draw \<le> maxLevel"
  by (simp add: randomLevel_def randomLevel_loop_bound)

lemma fill_update_spec:
  "lvl < length upd \<Longrightarrow> \<exists>upd'. fill_update upd i lvl h = Some upd' \<and> length upd' = length upd \<and>
     (\<forall>j<length upd. upd' ! j = (if i \<le> j \<and> j \<le> lvl then Some h else upd ! j))"
proof (induction upd i lvl h rule: fill_update.induct)
  case (1 upd i lvl h)
  show ?case
  proof (cases "i \<le> lvl")
    case True
    with 1 obtain upd' where "fill_update (upd[i := Some h]) (i + 1) lvl h = Some upd'"
      "length upd' = length upd"
      "\<forall>j<length upd. upd' ! j = (if i + 1 \<le> j \<and> j \<le> lvl then Some h else upd[i := Some h] ! j)"
      by (fastforce simp: store_update_def)
    then show ?thesis
      using True "1.prems" by (auto simp: fill_update.simps [of upd i] store_update_def nth_list_update)
  qed (auto simp: fill_update.simps [of upd i])
qed

lemma set_fwd_nth: "set_fwd ns a i p ! b =
    (if b = a \<and> a < length ns then (ns ! a)\<lparr>forward := (forward (ns ! a))[i := p]\<rparr> else ns ! b)"
  by (cases "length ns \<le> a"; cases "b = a") (simp_all add: set_fwd_def list_update_beyond)

lemma set_fwd_simps [simp]:
  "length (set_fwd ns a i p) = length ns"
  "nentry (set_fwd ns a i p ! b) = nentry (ns ! b)"
  "length (forward (set_fwd ns a i p ! b)) = length (forward (ns ! b))"
  by (simp_all add: set_fwd_nth) (simp add: set_fwd_def)

lemma fwd_set_fwd:
  "fwd (set_fwd ns a i p) j b =
     (if b = a \<and> j = i \<and> a < length ns \<and> i < length (forward (ns ! a)) then Some p else fwd ns j b)"
  by (auto simp: fwd_def set_fwd_nth)

lemma splice_spec:
  assumes "lvl < length upd" "n < length ns" "length (forward (ns ! n)) = Suc lvl"
    and "\<forall>j. i \<le> j \<and> j \<le> lvl \<longrightarrow> upd ! j = Some (u j) \<and> u j \<noteq> n \<and> fwd ns j (u j) \<noteq> None"
  shows "\<exists>ns'. splice_node ns upd n i lvl = Some ns' \<and> length ns' = length ns \<and>
     (\<forall>a. nentry (ns' ! a) = nentry (ns ! a) \<and> length (forward (ns' ! a)) = length (forward (ns ! a))) \<and>
     (\<forall>j a. fwd ns' j a =
        (if i \<le> j \<and> j \<le> lvl then
           if a = u j then Some (Some n) else if a = n then fwd ns j (u j) else fwd ns j a
         else fwd ns j a))"
  using assms
proof (induction ns upd n i lvl rule: splice_node.induct)
  case (1 ns upd n i lvl)
  show ?case
  proof (cases "i \<le> lvl")
    case True
    with "1.prems" have ui: "upd ! i = Some (u i)" "u i \<noteq> n" by auto
    from "1.prems" True obtain p where p: "fwd ns i (u i) = Some p" by auto
    let ?ns = "set_fwd (set_fwd ns n i p) (u i) i (Some n)"
    have ub: "u i < length ns" "i < length (forward (ns ! u i))"
      using p by (auto simp: fwd_def split: if_splits)
    have f: "fwd ?ns j a = (if j = i then if a = u i then Some (Some n) else if a = n then Some p
        else fwd ns j a else fwd ns j a)" for j a
      using ub ui True "1.prems" by (auto simp: fwd_set_fwd)
    have pre: "\<forall>j. i + 1 \<le> j \<and> j \<le> lvl \<longrightarrow> upd ! j = Some (u j) \<and> u j \<noteq> n \<and> fwd ?ns j (u j) \<noteq> None"
      using "1.prems"(4) by (simp add: f)
    obtain ns' where "splice_node ?ns upd n (i + 1) lvl = Some ns'" "length ns' = length ?ns"
      "\<forall>a. nentry (ns' ! a) = nentry (?ns ! a) \<and> length (forward (ns' ! a)) = length (forward (?ns ! a))"
      "\<forall>j a. fwd ns' j a =
        (if i + 1 \<le> j \<and> j \<le> lvl then
           if a = u j then Some (Some n) else if a = n then fwd ?ns j (u j) else fwd ?ns j a
         else fwd ?ns j a)"
      using "1.IH" [OF True _ p] "1.prems" pre ui True by auto
    then show ?thesis
      using True ui p "1.prems" by (auto simp: splice_node.simps [of ns] f)
  qed (auto simp: splice_node.simps [of ns])
qed

lemma pred_at_in: "sl_rep s xs \<Longrightarrow> pred_at (nodes s) key j (head s) xs \<in> set (head s # xs)"
proof (cases "takeWhile (\<lambda>a. nkey (nodes s) a < key) (lane (nodes s) j xs) = []")
  case False
  from set_takeWhileD [OF last_in_set [OF this]] show ?thesis
    by (simp add: pred_at_def False set_lane)
qed (simp add: pred_at_def)

lemma pred_at_lt: "sl_rep s xs \<Longrightarrow> pred_at (nodes s) key j (head s) xs < length (nodes s)"
  using pred_at_in [of s xs key j] by (auto simp: sl_rep_def)

lemma lane_chain:
  assumes "sl_rep s xs" "j \<le> maxLevel"
  shows "chain (fwd (nodes s) j) (head s)
    (takeWhile (\<lambda>a. nkey (nodes s) a < key) (lane (nodes s) j xs) @
     dropWhile (\<lambda>a. nkey (nodes s) a < key) (lane (nodes s) j xs))"
  using assms by (simp add: sl_rep_def)

lemma fwd_pred_defined: "sl_rep s xs \<Longrightarrow> j \<le> maxLevel \<Longrightarrow>
    fwd (nodes s) j (pred_at (nodes s) key j (head s) xs) \<noteq> None"
  using chain_next [OF lane_chain [of s xs j key]] by (simp add: pred_at_def)

lemma pred_above_level: "sl_rep s xs \<Longrightarrow> level s < j \<Longrightarrow> pred_at (nodes s) key j (head s) xs = head s"
proof -
  assume "sl_rep s xs" "level s < j"
  then have "lane (nodes s) j xs = []"
    by (fastforce simp: sl_rep_def lane_def filter_empty_conv)
  then show ?thesis by (simp add: pred_at_def)
qed

text \<open>\<open>ns'\<close> is the heap of \<open>s\<close> with a node for \<open>e\<close> of height
  \<open>lvl\<close> linked in after its predecessors; \<open>with_new\<close> is where its address goes.\<close>

definition grown :: "skiplist \<Rightarrow> nat list \<Rightarrow> nat \<Rightarrow> entry \<Rightarrow> node list \<Rightarrow> bool" where
  "grown s xs lvl e ns' \<longleftrightarrow>
     sl_rep s xs \<and> find_key (Key e) (sl_entries s xs) = None \<and> lvl \<le> maxLevel \<and>
     length ns' = Suc (length (nodes s)) \<and>
     (\<forall>a<length (nodes s). nentry (ns' ! a) = nentry (nodes s ! a) \<and>
        length (forward (ns' ! a)) = length (forward (nodes s ! a))) \<and>
     nentry (ns' ! length (nodes s)) = e \<and> length (forward (ns' ! length (nodes s))) = Suc lvl \<and>
     (\<forall>j a. a \<noteq> length (nodes s) \<or> j \<le> lvl \<longrightarrow> fwd ns' j a =
        (if j \<le> lvl \<and> a = pred_at (nodes s) (Key e) j (head s) xs then Some (Some (length (nodes s)))
         else if a = length (nodes s) then fwd (nodes s) j (pred_at (nodes s) (Key e) j (head s) xs)
         else fwd (nodes s) j a))"

definition with_new :: "skiplist \<Rightarrow> nat list \<Rightarrow> bytes \<Rightarrow> nat list" where
  "with_new s xs key = takeWhile (\<lambda>a. nkey (nodes s) a < key) xs @ length (nodes s) #
     dropWhile (\<lambda>a. nkey (nodes s) a < key) xs"

lemma set_with_new: "set (with_new s xs key) = insert (length (nodes s)) (set xs)"
  by (metis Un_insert_right list.simps(15) set_append takeWhile_dropWhile_id with_new_def)

lemma length_with_new: "length (with_new s xs key) = Suc (length xs)"
  by (metis add_Suc_right length_Cons length_append takeWhile_dropWhile_id with_new_def)

lemma sl_rep_lt: "sl_rep s xs \<Longrightarrow> a \<in> set (head s # xs) \<Longrightarrow> a < length (nodes s)"
  by (auto simp: sl_rep_def)

lemma sl_rep_height: "sl_rep s xs \<Longrightarrow> a \<in> set xs \<Longrightarrow>
    0 < length (forward (nodes s ! a)) \<and> length (forward (nodes s ! a)) \<le> Suc (level s)"
  by (simp add: sl_rep_def)

lemma distinct_with_new: "sl_rep s xs \<Longrightarrow> distinct (head s # with_new s xs key)"
proof -
  assume rep: "sl_rep s xs"
  then have "distinct xs" "length (nodes s) \<notin> set xs" "head s \<notin> set xs" "head s \<noteq> length (nodes s)"
    using sl_rep_lt [OF rep, of "head s"] sl_rep_lt [OF rep, of "length (nodes s)"] by (auto simp: sl_rep_def)
  moreover from this(1) have "set (takeWhile (\<lambda>a. nkey (nodes s) a < key) xs) \<inter>
      set (dropWhile (\<lambda>a. nkey (nodes s) a < key) xs) = {}"
    by (metis distinct_append takeWhile_dropWhile_id)
  ultimately show ?thesis
    by (auto simp: with_new_def dest: set_takeWhileD set_dropWhileD)
qed

lemma lane_append: "lane ns i (xs @ ys) = lane ns i xs @ lane ns i ys"
  by (simp add: lane_def)

lemma lane_Cons: "lane ns i (x # xs) = lane ns i [x] @ lane ns i xs"
  by (simp add: lane_def)

lemma grown_lane:
  assumes g: "grown s xs lvl e ns'"
  shows "lane ns' i (with_new s xs (Key e)) =
    takeWhile (\<lambda>a. nkey (nodes s) a < Key e) (lane (nodes s) i xs) @ (if i \<le> lvl then [length (nodes s)] else []) @
    dropWhile (\<lambda>a. nkey (nodes s) a < Key e) (lane (nodes s) i xs)"
proof -
  have rep: "sl_rep s xs" and srt: "sorted_wrt (\<lambda>a b. nkey (nodes s) a < nkey (nodes s) b) xs"
    using g by (auto simp: grown_def sl_rep_def)
  have old: "lane ns' i ys = lane (nodes s) i ys" if "set ys \<subseteq> set xs" for ys
    unfolding lane_def using that g sl_rep_lt [OF rep] by (intro filter_cong) (auto simp: grown_def)
  have "set (takeWhile (\<lambda>a. nkey (nodes s) a < Key e) xs) \<subseteq> set xs"
    "set (dropWhile (\<lambda>a. nkey (nodes s) a < Key e) xs) \<subseteq> set xs"
    by (auto dest: set_takeWhileD set_dropWhileD)
  note old = old [OF this(1)] old [OF this(2)]
  have "lane ns' i [length (nodes s)] = (if i \<le> lvl then [length (nodes s)] else [])"
    using g by (simp add: lane_def grown_def)
  with old show ?thesis
    by (simp add: with_new_def takeWhile_lane [OF srt] lane_append
        lane_Cons [of ns' i "length (nodes s)" "dropWhile (\<lambda>a. nkey (nodes s) a < Key e) xs"])
qed

lemma grown_chain:
  assumes g: "grown s xs lvl e ns'" and i: "i \<le> maxLevel"
  shows "chain (fwd ns' i) (head s) (lane ns' i (with_new s xs (Key e)))"
proof -
  let ?P = "\<lambda>a. nkey (nodes s) a < Key e" and ?p = "pred_at (nodes s) (Key e) i (head s) xs"
  have rep: "sl_rep s xs" using g by (simp add: grown_def)
  have d: "distinct (head s # takeWhile ?P (lane (nodes s) i xs) @ dropWhile ?P (lane (nodes s) i xs))"
    "length (nodes s) \<notin> set (head s # takeWhile ?P (lane (nodes s) i xs) @ dropWhile ?P (lane (nodes s) i xs))"
    using rep sl_rep_lt [OF rep] by (auto simp: sl_rep_def set_lane lane_def)
  have link: "a \<noteq> length (nodes s) \<or> i \<le> lvl \<Longrightarrow> fwd ns' i a =
     (if i \<le> lvl \<and> a = ?p then Some (Some (length (nodes s)))
      else if a = length (nodes s) then fwd (nodes s) i ?p else fwd (nodes s) i a)" for a
    using g by (simp add: grown_def)
  show ?thesis
  proof (cases "i \<le> lvl")
    case True
    have "chain (fwd ns' i) (head s)
        (takeWhile ?P (lane (nodes s) i xs) @ length (nodes s) # dropWhile ?P (lane (nodes s) i xs))"
      by (rule chain_insert [OF lane_chain [OF rep i] d pred_at_def]) (use True link in auto)
    then show ?thesis using True by (simp add: grown_lane [OF g])
  next
    case False
    have "chain (fwd ns' i) (head s) (lane (nodes s) i xs) \<longleftrightarrow> chain (fwd (nodes s) i) (head s) (lane (nodes s) i xs)"
    proof (rule chain_cong)
      fix b assume "b \<in> set (head s # lane (nodes s) i xs)"
      then have "b \<noteq> length (nodes s)" using d(2) by (metis list.set_intros set_ConsD takeWhile_dropWhile_id)
      then show "fwd ns' i b = fwd (nodes s) i b" using link [of b] False by simp
    qed
    then show ?thesis using False i rep by (simp add: grown_lane [OF g] sl_rep_def)
  qed
qed

lemma grown_entries:
  assumes g: "grown s xs lvl e ns'" and s': "nodes s' = ns'"
  shows "sl_entries s' (with_new s xs (Key e)) = upsert e (sl_entries s xs)"
proof -
  let ?P = "\<lambda>a. nkey (nodes s) a < Key e"
  have rep: "sl_rep s xs" using g by (simp add: grown_def)
  have "Key e < Key x" if "x \<in> set (sl_entries s (dropWhile ?P xs))" for x
  proof -
    have "x \<in> set (sl_entries s xs)" using that by (auto simp: sl_entries_def dest: set_dropWhileD)
    moreover have "Key e \<notin> Key ` set (sl_entries s xs)" using g by (simp add: grown_def find_key_None_iff)
    ultimately have "Key x \<noteq> Key e" by (metis imageI)
    with entries_above [OF rep that] show ?thesis by simp
  qed
  then have "upsert e (sl_entries s (takeWhile ?P xs) @ sl_entries s (dropWhile ?P xs)) =
      sl_entries s (takeWhile ?P xs) @ e # sl_entries s (dropWhile ?P xs)"
    using entries_below by (intro upsert_split(1)) blast+
  then have "upsert e (sl_entries s xs) = sl_entries s (takeWhile ?P xs) @ e # sl_entries s (dropWhile ?P xs)"
    by (simp flip: entries_split)
  moreover have "a < length (nodes s)" if "a \<in> set (takeWhile ?P xs) \<union> set (dropWhile ?P xs)" for a
    using that sl_rep_lt [OF rep] by (auto dest: set_takeWhileD set_dropWhileD)
  ultimately show ?thesis
    using g by (simp add: s' grown_def with_new_def sl_entries_def)
qed

lemma grown_rep:
  assumes g: "grown s xs lvl e ns'"
    and s': "s' = s\<lparr>level := max lvl (level s), len := len s + 1, memSize := m, nodes := ns'\<rparr>"
  shows "sl_rep s' (with_new s xs (Key e))"
proof -
  have rep: "sl_rep s xs" using g by (simp add: grown_def)
  have "ksorted (sl_entries s' (with_new s xs (Key e)))"
    using grown_entries [OF g, of s'] ksorted_entries [OF rep] by (simp add: s')
  then have "sorted_wrt (\<lambda>a b. nkey ns' a < nkey ns' b) (with_new s xs (Key e))"
    by (simp add: s' sl_entries_def ksorted_def sorted_wrt_map nkey_def)
  moreover have "a < Suc (length (nodes s)) \<and>
      0 < length (forward (ns' ! a)) \<and> length (forward (ns' ! a)) \<le> Suc (max lvl (level s))"
    if "a \<in> set (with_new s xs (Key e))" for a
  proof (cases "a = length (nodes s)")
    case True then show ?thesis using g by (simp add: grown_def)
  next
    case False
    then have "a \<in> set xs" "a < length (nodes s)" using that sl_rep_lt [OF rep] by (auto simp: set_with_new)
    moreover from this have "length (forward (ns' ! a)) = length (forward (nodes s ! a))"
      using g by (simp add: grown_def)
    ultimately show ?thesis using sl_rep_height [OF rep, of a] by (simp add: max_def)
  qed
  moreover have "length (forward (ns' ! head s)) = maxLevel + 1" "head s < Suc (length (nodes s))"
    using g rep by (auto simp: grown_def sl_rep_def)
  ultimately show ?thesis
    using g rep grown_chain [OF g] distinct_with_new [OF rep, of "Key e"]
    by (simp add: s' sl_rep_def length_with_new grown_def)
qed

lemma grown_splice:
  assumes rep: "sl_rep s xs" and absent: "find_key (Key e) (sl_entries s xs) = None"
    and lvl: "lvl \<le> maxLevel" and upd: "length upd = maxLevel + 1"
    and u: "\<forall>j\<le>lvl. upd ! j = Some (pred_at (nodes s) (Key e) j (head s) xs)"
  shows "\<exists>ns'. splice_node (nodes s @ [newNode lvl e]) upd (length (nodes s)) 0 lvl = Some ns' \<and> grown s xs lvl e ns'"
proof -
  let ?n = "length (nodes s)" and ?ns = "nodes s @ [newNode lvl e]" and ?u = "\<lambda>j. pred_at (nodes s) (Key e) j (head s) xs"
  have f0: "fwd ?ns j a = fwd (nodes s) j a" if "a \<noteq> ?n" for j a
    using that by (auto simp: fwd_def nth_append)
  have "?u j \<noteq> ?n" for j using pred_at_lt [OF rep, of "Key e" j] by simp
  then obtain ns' where ns': "splice_node ?ns upd ?n 0 lvl = Some ns'" "length ns' = length ?ns"
     "\<forall>a. nentry (ns' ! a) = nentry (?ns ! a) \<and> length (forward (ns' ! a)) = length (forward (?ns ! a))"
     "\<forall>j a. fwd ns' j a = (if 0 \<le> j \<and> j \<le> lvl then
           if a = ?u j then Some (Some ?n) else if a = ?n then fwd ?ns j (?u j) else fwd ?ns j a
         else fwd ?ns j a)"
    using splice_spec [of lvl upd ?n ?ns 0 ?u] u upd lvl f0 fwd_pred_defined [OF rep]
    by (auto simp: newNode_def)
  then have "grown s xs lvl e ns'"
    using rep absent lvl f0 \<open>\<And>j. ?u j \<noteq> ?n\<close> by (auto simp: grown_def newNode_def nth_append)
  with ns'(1) show ?thesis by blast
qed

lemma insert_node_rep:
  assumes rep: "sl_rep s xs" and absent: "find_key key (sl_entries s xs) = None"
    and upd: "length upd = maxLevel + 1"
    and u: "\<forall>j\<le>level s. upd ! j = Some (pred_at (nodes s) key j (head s) xs)"
  shows "\<exists>s' xs'. insert_node draw s key value version upd = Some s' \<and> sl_rep s' xs' \<and>
     sl_entries s' xs' = upsert (live key value version) (sl_entries s xs) \<and>
     memSize s' = memSize s + word_of_nat (length key + length value + 24)"
proof -
  let ?lvl = "randomLevel draw" and ?e = "live key value version"
  have "\<exists>upd'. (if ?lvl > level s then fill_update upd (level s + 1) ?lvl (head s) else Some upd) = Some upd' \<and>
      length upd' = maxLevel + 1 \<and> (\<forall>j\<le>?lvl. upd' ! j = Some (pred_at (nodes s) key j (head s) xs))"
  proof (cases "?lvl > level s")
    case True
    obtain upd' where "fill_update upd (level s + 1) ?lvl (head s) = Some upd'" "length upd' = length upd"
      "\<forall>j<length upd. upd' ! j = (if level s + 1 \<le> j \<and> j \<le> ?lvl then Some (head s) else upd ! j)"
      using fill_update_spec [of ?lvl upd "level s + 1" "head s"] upd randomLevel_bound [of draw] by auto
    moreover have "upd' ! j = Some (pred_at (nodes s) key j (head s) xs)" if "j \<le> ?lvl" for j
    proof -
      have "j < length upd" using that upd randomLevel_bound [of draw] by linarith
      then show ?thesis
        using calculation that u pred_above_level [OF rep, of j key] by (cases "j \<le> level s") auto
    qed
    ultimately show ?thesis using True upd by simp
  qed (use upd u in simp)
  then obtain upd' where u': "(if ?lvl > level s then fill_update upd (level s + 1) ?lvl (head s) else Some upd) = Some upd'"
      "length upd' = maxLevel + 1" "\<forall>j\<le>?lvl. upd' ! j = Some (pred_at (nodes s) key j (head s) xs)" by blast
  obtain ns' where ns': "splice_node (nodes s @ [newNode ?lvl ?e]) upd' (length (nodes s)) 0 ?lvl = Some ns'"
      "grown s xs ?lvl ?e ns'"
    using grown_splice [of s xs ?e ?lvl upd'] rep absent u'(2,3) by auto
  let ?s = "s\<lparr>level := max ?lvl (level s), len := len s + 1,
      memSize := memSize s + word_of_nat (length key + length value + 24), nodes := ns'\<rparr>"
  have "insert_node draw s key value version upd = Some ?s"
    using u'(1) ns'(1) by (simp add: insert_node_def Let_def live_def)
  moreover have "sl_rep ?s (with_new s xs key)" using grown_rep [OF ns'(2) refl] by simp
  moreover have "sl_entries ?s (with_new s xs key) = upsert ?e (sl_entries s xs)"
    using grown_entries [OF ns'(2), of ?s] by simp
  ultimately show ?thesis by (intro exI [of _ ?s] exI [of _ "with_new s xs key"]) simp
qed

lemma Put_rep:
  assumes rep: "sl_rep s xs"
  shows "\<exists>s' xs'. sl_Put draw s key value version = Some s' \<and> sl_rep s' xs' \<and>
     sl_entries s' xs' = upsert (live key value version) (sl_entries s xs) \<and>
     memSize s' = (if find_key key (sl_entries s xs) = None
        then memSize s + word_of_nat (length key + length value + 24) else memSize s)"
proof -
  have "level s \<le> maxLevel" using rep by (simp add: sl_rep_def)
  then obtain upd where d: "descend (nodes s) key (level s) (head s) (replicate (maxLevel + 1) None) =
        Some (pred_at (nodes s) key 0 (head s) xs, upd)" "length upd = maxLevel + 1"
        "\<forall>j\<le>level s. upd ! j = Some (pred_at (nodes s) key j (head s) xs)"
    using descend_pred [OF rep, of "level s" "replicate (maxLevel + 1) None" key] pred_top [OF rep, of key] by auto
  obtain m where m: "next_if (nodes s) key (pred_at (nodes s) key 0 (head s) xs) = Some m"
    "case m of None \<Rightarrow> find_key key (sl_entries s xs) = None
     | Some n \<Rightarrow> n \<in> set xs \<and> nkey (nodes s) n = key \<and>
         find_key key (sl_entries s xs) = Some (nentry (nodes s ! n))"
    using next_if_find [OF rep] by blast
  show ?thesis
  proof (cases m)
    case None
    then show ?thesis
      using insert_node_rep [OF rep _ d(2,3), of draw "value" version] m d(1) by (simp add: sl_Put_def)
  next
    case (Some n)
    let ?f = "\<lambda>e. e\<lparr>Value := value, Version := version, Deleted := False\<rparr>"
    have "?f (nentry (nodes s ! n)) = live key value version"
      using m(2) Some by (simp add: live_def nkey_def)
    then show ?thesis
      using entry_at_rep [OF rep, of n ?f] m d(1) Some
      by (intro exI [of _ "entry_at s n ?f"] exI [of _ xs]) (simp add: sl_Put_def)
  qed
qed

lemma Delete_mark_rep:
  assumes rep: "sl_rep s xs" and e: "find_key key (sl_entries s xs) = Some e"
  shows "\<exists>s'. sl_Delete_mark s key = Some s' \<and> sl_rep s' xs \<and>
     sl_entries s' xs = upsert (e\<lparr>Deleted := True\<rparr>) (sl_entries s xs)"
proof -
  obtain n where "next_if (nodes s) key (pred_at (nodes s) key 0 (head s) xs) = Some (Some n)"
    "n \<in> set xs" "nentry (nodes s ! n) = e"
    using next_if_find [OF rep, of key] e by (auto split: option.splits)
  then show ?thesis
    using entry_at_rep [OF rep, of n "\<lambda>e. e\<lparr>Deleted := True\<rparr>"]
    by (simp add: sl_Delete_mark_def findNode_def seek_head [OF rep])
qed

lemma upsert_upsert: "Key x = Key y \<Longrightarrow> upsert x (upsert y es) = upsert x es"
  by (induction es) auto

lemma Delete_rep:
  assumes rep: "sl_rep s xs"
  shows "\<exists>s' xs'. sl_Delete draw s key version = Some s' \<and> sl_rep s' xs' \<and>
     sl_entries s' xs' = entomb key version (sl_entries s xs)"
proof -
  obtain m where m: "next_if (nodes s) key (pred_at (nodes s) key 0 (head s) xs) = Some m"
    "case m of None \<Rightarrow> find_key key (sl_entries s xs) = None
     | Some n \<Rightarrow> n \<in> set xs \<and> nkey (nodes s) n = key \<and>
         find_key key (sl_entries s xs) = Some (nentry (nodes s ! n))"
    using next_if_find [OF rep] by blast
  show ?thesis
  proof (cases m)
    case (Some n)
    then show ?thesis
      using entry_at_rep [OF rep, of n "\<lambda>e. e\<lparr>Deleted := True, Version := version\<rparr>"] m
      by (auto simp: sl_Delete_def sl_Delete_probe_def seek_head [OF rep] entomb_def tombstone_def)
  next
    case None
    obtain s1 ys where p: "sl_Put draw s key [] version = Some s1" "sl_rep s1 ys"
        "sl_entries s1 ys = upsert (live key [] version) (sl_entries s xs)"
      using Put_rep [OF rep] by blast
    then have "find_key key (sl_entries s1 ys) = Some (live key [] version)" by simp
    from Delete_mark_rep [OF p(2) this] show ?thesis
      using p m None by (auto simp: sl_Delete_def sl_Delete_probe_def seek_head [OF rep] entomb_def
          tombstone_def live_def upsert_upsert)
  qed
qed

subsection \<open>Traversals\<close>

lemma All_loop_chain:
  "(case cur of None \<Rightarrow> xs = [] | Some a \<Rightarrow> \<exists>ys. xs = a # ys \<and> chain (fwd ns 0) a ys) \<Longrightarrow>
   \<forall>a\<in>set xs. a < length ns \<Longrightarrow>
   sl_All_loop ns cur acc = Some (acc @ map (\<lambda>a. nentry (ns ! a)) xs)"
proof (induction xs arbitrary: cur acc)
  case Nil
  then show ?case by (subst sl_All_loop.simps) (auto split: option.splits)
next
  case (Cons x xs)
  then have cur: "cur = Some x" and ch: "chain (fwd ns 0) x xs" by (auto split: option.splits)
  then obtain nx where nx: "fwd ns 0 x = Some nx"
    "case nx of None \<Rightarrow> xs = [] | Some a \<Rightarrow> \<exists>ys. xs = a # ys \<and> chain (fwd ns 0) a ys"
    by (cases xs) auto
  have "x < length ns" using Cons.prems by simp
  then show ?case
    using Cons.IH [OF nx(2), of "acc @ [nentry (ns ! x)]"] Cons.prems nx(1)
    by (subst sl_All_loop.simps) (simp add: cur fetch_def)
qed

lemma Scan_loop_chain:
  "(case cur of None \<Rightarrow> xs = [] | Some a \<Rightarrow> \<exists>ys. xs = a # ys \<and> chain (fwd ns 0) a ys) \<Longrightarrow>
   \<forall>a\<in>set xs. a < length ns \<Longrightarrow>
   sl_Scan_loop ns fin limit cur acc = Some (acc @
      (let es = takeWhile (\<lambda>e. fin = [] \<or> Key e < fin) (map (\<lambda>a. nentry (ns ! a)) xs)
       in if limit > 0 then take (nat limit - length acc) es else es))"
proof (induction xs arbitrary: cur acc)
  case Nil
  then show ?case by (subst sl_Scan_loop.simps) (auto split: option.splits)
next
  case (Cons x xs)
  then have cur: "cur = Some x" and ch: "chain (fwd ns 0) x xs" by (auto split: option.splits)
  then obtain nx where nx: "fwd ns 0 x = Some nx"
    "case nx of None \<Rightarrow> xs = [] | Some a \<Rightarrow> \<exists>ys. xs = a # ys \<and> chain (fwd ns 0) a ys"
    by (cases xs) auto
  have x: "x < length ns" using Cons.prems by simp
  consider "fin \<noteq> [] \<and> Key (nentry (ns ! x)) \<ge> fin"
    | "fin = [] \<or> Key (nentry (ns ! x)) < fin" "limit > 0 \<and> int (length acc) \<ge> limit"
    | "fin = [] \<or> Key (nentry (ns ! x)) < fin" "\<not> (limit > 0 \<and> int (length acc) \<ge> limit)"
    by fastforce
  then show ?case
  proof cases
    case 3
    then have "limit > 0 \<Longrightarrow> nat limit - length acc = Suc (nat limit - Suc (length acc))" by auto
    then show ?thesis
      using Cons.IH [OF nx(2), of "acc @ [nentry (ns ! x)]"] Cons.prems nx(1) 3 x
      by (subst sl_Scan_loop.simps) (auto simp: cur fetch_def Let_def)
  qed (use x in \<open>subst sl_Scan_loop.simps; auto simp: cur fetch_def Let_def\<close>)+
qed

lemma All_rep: "sl_rep s xs \<Longrightarrow> sl_All s = Some (sl_entries s xs)"
proof -
  assume rep: "sl_rep s xs"
  have "chain (fwd (nodes s) 0) (head s) xs" using rep lane_0 [OF rep] by (auto simp: sl_rep_def)
  then obtain nx where "fwd (nodes s) 0 (head s) = Some nx"
    "case nx of None \<Rightarrow> xs = [] | Some a \<Rightarrow> \<exists>ys. xs = a # ys \<and> chain (fwd (nodes s) 0) a ys"
    by (cases xs) auto
  then show ?thesis
    using All_loop_chain [where cur = nx and xs = xs and ns = "nodes s" and acc = "[]"] sl_rep_lt [OF rep] by (simp add: sl_All_def sl_entries_def)
qed

lemma dropWhile_entries: "dropWhile (\<lambda>e. Key e < k) (sl_entries s xs) =
    sl_entries s (dropWhile (\<lambda>a. nkey (nodes s) a < k) xs)"
  by (simp add: sl_entries_def dropWhile_map comp_def nkey_fold)

lemma Scan_rep:
  assumes rep: "sl_rep s xs"
  shows "sl_Scan s start fin limit = Some (take_limit limit (range_scan start fin (sl_entries s xs)))"
proof -
  let ?ys = "dropWhile (\<lambda>a. nkey (nodes s) a < start) xs"
  have ch: "chain (fwd (nodes s) 0) (head s) (takeWhile (\<lambda>a. nkey (nodes s) a < start) xs @ ?ys)"
    using rep lane_0 [OF rep] by (auto simp: sl_rep_def)
  have "case (case ?ys of [] \<Rightarrow> None | b # _ \<Rightarrow> Some b) of None \<Rightarrow> ?ys = []
      | Some a \<Rightarrow> \<exists>ys. ?ys = a # ys \<and> chain (fwd (nodes s) 0) a ys"
    using ch by (cases ?ys) (auto dest!: chain_suffix simp del: dropWhile_eq_Nil_conv)
  moreover have "\<forall>a\<in>set ?ys. a < length (nodes s)" using sl_rep_lt [OF rep] by (auto dest: set_dropWhileD)
  ultimately show ?thesis
    using Scan_loop_chain [where xs = ?ys and cur = "case ?ys of [] \<Rightarrow> None | b # _ \<Rightarrow> Some b"
        and ns = "nodes s" and acc = "[]"]
    by (simp add: sl_Scan_def seek_head [OF rep] fwd_pred [OF rep] take_limit_def range_scan_def
        dropWhile_entries) (simp add: sl_entries_def)
qed

lemma New_rep: "sl_rep sl_New []"
  by (auto simp: sl_rep_def sl_New_def newNode_def fwd_def lane_def nth_replicate less_Suc_eq_le simp del: replicate_Suc)

lemma contents_rep: "sl_rep s xs \<Longrightarrow> contents s = sl_entries s xs"
  by (simp add: contents_def All_rep)

lemma Get_inv: "sl_inv s \<Longrightarrow> sl_Get s k = Some (lookup_result k (contents s))"
  by (auto simp: sl_inv_def contents_rep Get_rep lookup_result_def)

interpretation sl: memtable sl_inv contents sl_New sl_Put sl_Delete sl_Get sl_Scan sl_All sl_Len
proof unfold_locales
  show "sl_inv sl_New" "contents sl_New = []"
    using New_rep by (auto simp: sl_inv_def contents_rep sl_entries_def)
next
  fix s assume "sl_inv s"
  then obtain xs where rep: "sl_rep s xs" by (auto simp: sl_inv_def)
  show "ksorted (contents s)" by (simp add: contents_rep [OF rep] ksorted_entries [OF rep])
  show "sl_Get s k = Some (lookup_result k (contents s))" for k
    using \<open>sl_inv s\<close> by (rule Get_inv)
  show "sl_Scan s start fin limit = Some (take_limit limit (range_scan start fin (contents s)))" for start fin limit
    by (simp add: Scan_rep [OF rep] contents_rep [OF rep])
  show "sl_All s = Some (contents s)" by (simp add: All_rep [OF rep] contents_rep [OF rep])
  show "sl_Len s = length (contents s)"
    using rep by (simp add: sl_Len_def contents_rep [OF rep] sl_entries_def sl_rep_def)
  show "\<exists>s'. sl_Put r s k v ver = Some s' \<and> sl_inv s' \<and> contents s' = upsert (live k v ver) (contents s)" for r k v ver
    using Put_rep [OF rep, of r k v ver] contents_rep rep by (fastforce simp: sl_inv_def)
  show "\<exists>s'. sl_Delete r s k ver = Some s' \<and> sl_inv s' \<and> contents s' = entomb k ver (contents s)" for r k ver
    using Delete_rep [OF rep, of r k ver] contents_rep rep by (fastforce simp: sl_inv_def)
qed

lemma Put_memSize:
  assumes "sl_inv s" "sl_Put draw s k v ver = Some s'"
  shows "sl_MemSize s' = (if find_key k (contents s) = None
      then sl_MemSize s + word_of_nat (length k + length v + 24) else sl_MemSize s)"
proof -
  obtain xs where rep: "sl_rep s xs" using assms(1) by (auto simp: sl_inv_def)
  from Put_rep [OF rep, of draw k v ver] assms(2) show ?thesis
    by (auto simp: contents_rep [OF rep] sl_MemSize_def)
qed

subsection \<open>Properties\<close>

lemma randomLevel_loop_iff:
  "lvl \<le> maxLevel \<Longrightarrow> randomLevel_loop draw lvl = n \<longleftrightarrow>
     lvl \<le> n \<and> n \<le> maxLevel \<and> (\<forall>i. lvl \<le> i \<and> i < n \<longrightarrow> draw i < probability) \<and>
     (n < maxLevel \<longrightarrow> \<not> draw n < probability)"
proof (induction draw lvl rule: randomLevel_loop.induct)
  case (1 draw lvl)
  show ?case
  proof (cases "lvl < maxLevel \<and> draw lvl < probability")
    case True
    then have "randomLevel_loop draw lvl = randomLevel_loop draw (lvl + 1)" by (simp add: randomLevel_loop.simps [of draw lvl])
    moreover have "(\<forall>i. lvl \<le> i \<and> i < n \<longrightarrow> draw i < probability) \<longleftrightarrow>
        (\<forall>i. lvl + 1 \<le> i \<and> i < n \<longrightarrow> draw i < probability)"
      using True by (metis Suc_eq_plus1 Suc_leD Suc_leI le_neq_implies_less)
    moreover have "n \<noteq> lvl" if "n < maxLevel \<longrightarrow> \<not> draw n < probability" using True that by auto
    ultimately show ?thesis using "1.IH" [OF True] True by (metis Suc_eq_plus1 Suc_leD Suc_leI le_neq_implies_less)
  next
    case False
    then have "randomLevel_loop draw lvl = lvl" by (subst randomLevel_loop.simps) (rule if_not_P)
    then show ?thesis using 1 False by (auto simp: le_less)
  qed
qed

lemma Delete_mark_inv:
  assumes "sl_inv s" "find_key k (contents s) = Some e"
  shows "\<exists>s'. sl_Delete_mark s k = Some s' \<and> sl_inv s' \<and> contents s' = upsert (e\<lparr>Deleted := True\<rparr>) (contents s)"
proof -
  obtain xs where rep: "sl_rep s xs" using assms(1) by (auto simp: sl_inv_def)
  then show ?thesis
    using Delete_mark_rep [OF rep, of k e] assms(2) contents_rep by (auto simp: sl_inv_def)
qed

lemma Delete_probe_absent:
  assumes "sl_inv s" "find_key k (contents s) = None"
  shows "sl_Delete_probe s k ver = Some (False, s)"
proof -
  obtain xs where rep: "sl_rep s xs" using assms(1) by (auto simp: sl_inv_def)
  then have "next_if (nodes s) k (pred_at (nodes s) k 0 (head s) xs) = Some None"
    using next_if_find [OF rep, of k] assms(2) contents_rep [OF rep] by (auto split: option.splits)
  then show ?thesis by (simp add: sl_Delete_probe_def seek_head [OF rep])
qed

fun sl_apply :: "rng \<Rightarrow> skiplist \<Rightarrow> mem_op \<Rightarrow> skiplist option" where
  "sl_apply draw s (MPut k v ver) = sl_Put draw s k v ver"
| "sl_apply draw s (MDel k ver) = sl_Delete draw s k ver"

lemma sl_apply_ok:
  "sl_inv s \<Longrightarrow> \<exists>s'. sl_apply draw s op = Some s' \<and> sl_inv s' \<and> contents s' = apply_op op (contents s)"
  using sl.put_law [of s draw] sl.del_law [of s draw] by (cases op) auto

text \<open>C8. A memtable that has received any sequence of \<open>Put\<close> and \<open>Delete\<close>, with any random
  levels, has returned from all of them, is well formed, holds in key order exactly the entries that
  the same writes leave in a sorted list, and counts them.\<close>

theorem memtable_history:
  "\<exists>s. foldM (\<lambda>s (draw, op). sl_apply draw s op) sl_New xs = Some s \<and> sl_inv s \<and>
     sl_All s = Some (fold (\<lambda>(draw, op). apply_op op) xs []) \<and>
     sl_Len s = length (fold (\<lambda>(draw, op). apply_op op) xs [])"
proof -
  obtain s where "foldM (\<lambda>s (draw, op). sl_apply draw s op) sl_New xs = Some s" "sl_inv s"
      "contents s = fold (\<lambda>(draw, op). apply_op op) xs (contents sl_New)"
    using foldM_rel [where I = sl_inv and proj = contents and f = "\<lambda>s (draw, op). sl_apply draw s op"
        and g = "\<lambda>(draw, op). apply_op op" and xs = xs, OF _ sl.invar_new] sl_apply_ok by force
  then show ?thesis using sl.elems_law sl.size_law sl.content_new by auto
qed

text \<open>On a well-formed skip list \<open>Get\<close> returns the entry of the key (tombstones included)
  or \<open>false\<close>, and \<open>Scan\<close> the entries of the range in key order, cut at the limit.\<close>

theorem memtable_reads:
  assumes "sl_inv s"
  shows "sl_Get s k = Some (lookup_result k (contents s)) \<and>
    sl_Scan s start fin limit = Some (take_limit limit (range_scan start fin (contents s))) \<and> ksorted (contents s)"
  using assms sl.get_law sl.scan_law sl.content_sorted by blast

theorem memtable_reads_witness:
  "sl_Get sl_New [1] = Some (zeroEntry, False) \<and> sl_Scan sl_New [1] [] 0 = Some []"
  using memtable_reads [OF sl.invar_new, of "[1]" "[1]" "[]" 0]
  by (simp add: sl.content_new lookup_result_def take_limit_def range_scan_def)

text \<open>\<open>Delete\<close> returns and leaves a tombstone with the given version: a present entry is
  marked and keeps its value, an absent key gets an empty one; nothing else changes.\<close>

theorem memtable_delete:
  assumes "sl_inv s"
  shows "\<exists>s'. sl_Delete draw s k ver = Some s' \<and> sl_inv s' \<and> contents s' = entomb k ver (contents s) \<and>
    (\<forall>k'. sl_Get s' k' = (if k' = k then Some (tombstone k ver (contents s), True) else sl_Get s k'))"
  using sl.del_law [OF assms, of draw k ver] sl.get_after_del [OF assms] by blast

theorem memtable_delete_witness:
  "\<exists>s'. sl_Delete (\<lambda>_. 1) sl_New [5] 3 = Some s' \<and>
     sl_Get s' [5] = Some (\<lparr>Key = [5], Value = [], Version = 3, Deleted = True\<rparr>, True)"
  using memtable_delete [OF sl.invar_new, of "\<lambda>_. 1" "[5]" 3] by (auto simp: sl.content_new tombstone_def)

text \<open>\<open>randomLevel\<close> returns the number of consecutive draws below the probability, at most
  \<open>maxLevel\<close>, so \<open>update\<close> and \<open>forward\<close> are never indexed out of range.\<close>

theorem randomLevel_geometric:
  "randomLevel draw = lvl \<longleftrightarrow> lvl \<le> maxLevel \<and> (\<forall>i<lvl. draw i < probability) \<and>
     (lvl = maxLevel \<or> probability \<le> draw lvl)"
  using randomLevel_loop_iff [of 0 draw lvl] by (auto simp: randomLevel_def not_less le_less)

theorem randomLevel_geometric_witness: "randomLevel (\<lambda>i. if i < 3 then 0 else 1) = 3"
  using randomLevel_geometric [of "\<lambda>i. if i < 3 then 0 else 1" 3] by (simp add: maxLevel_def probability_def)

text \<open>\<open>MemSize\<close> grows only when a key is inserted: overwriting a key, with a value of any
  length, leaves it as it is, so overwrites never trigger a flush.\<close>

theorem overwrite_keeps_memSize:
  assumes "sl_inv s" "find_key k (contents s) \<noteq> None"
  shows "\<exists>s'. sl_Put draw s k v ver = Some s' \<and> sl_MemSize s' = sl_MemSize s \<and> sl_Get s' k = Some (live k v ver, True)"
  using sl.put_law [OF assms(1), of draw k v ver] sl.get_after_put [OF assms(1)] Put_memSize [OF assms(1)] assms(2)
  by fastforce

theorem overwrite_keeps_memSize_witness:
  "\<exists>s s'. sl_Put (\<lambda>_. 1) sl_New [1] [] 1 = Some s \<and> sl_Put (\<lambda>_. 1) s [1] (replicate 1000 7) 2 = Some s' \<and>
     sl_MemSize s' = sl_MemSize s"
proof -
  obtain s where s: "sl_Put (\<lambda>_. 1) sl_New [1] [] 1 = Some s" "sl_inv s" "contents s = upsert (live [1] [] 1) (contents sl_New)"
    using sl.put_law [OF sl.invar_new] by blast
  then show ?thesis using overwrite_keeps_memSize [of s "[1]" "\<lambda>_. 1" "replicate 1000 7" 2] by (auto simp: sl.content_new)
qed

text \<open>\<open>Delete\<close> of an absent key unlocks between inserting the tombstone and marking it. A
  \<open>Put\<close> of the same key in that window is lost: its value ends up marked as deleted, with its
  own, newer version.\<close>

theorem delete_window_loses_put:
  assumes "sl_inv s" "find_key k (contents s) = None"
  shows "\<exists>s1 s2 s3. sl_Delete_probe s k ver = Some (False, s) \<and> sl_Put d1 s k [] ver = Some s1 \<and>
    sl_Put d2 s1 k v ver2 = Some s2 \<and> sl_Delete_mark s2 k = Some s3 \<and>
    sl_Get s3 k = Some (\<lparr>Key = k, Value = v, Version = ver2, Deleted = True\<rparr>, True)"
proof -
  obtain s1 where s1: "sl_Put d1 s k [] ver = Some s1" "sl_inv s1" using sl.put_law [OF assms(1)] by blast
  obtain s2 where s2: "sl_Put d2 s1 k v ver2 = Some s2" "sl_inv s2" "contents s2 = upsert (live k v ver2) (contents s1)"
    using sl.put_law [OF s1(2)] by blast
  obtain s3 where s3: "sl_Delete_mark s2 k = Some s3" "sl_inv s3"
      "contents s3 = upsert ((live k v ver2)\<lparr>Deleted := True\<rparr>) (contents s2)"
    using Delete_mark_inv [OF s2(2), of k "live k v ver2"] s2(3) by auto
  then have "sl_Get s3 k = Some (\<lparr>Key = k, Value = v, Version = ver2, Deleted = True\<rparr>, True)"
    by (simp add: Get_inv lookup_result_def live_def)
  then show ?thesis using Delete_probe_absent [OF assms] s1 s2 s3 by blast
qed

theorem delete_window_loses_put_witness:
  "\<exists>s1 s2 s3. sl_Put (\<lambda>_. 1) sl_New [9] [] 4 = Some s1 \<and> sl_Put (\<lambda>_. 1) s1 [9] [8] 5 = Some s2 \<and>
     sl_Delete_mark s2 [9] = Some s3 \<and>
     sl_Get s3 [9] = Some (\<lparr>Key = [9], Value = [8], Version = 5, Deleted = True\<rparr>, True)"
  using delete_window_loses_put [OF sl.invar_new, of "[9]" 4 "\<lambda>_. 1" "\<lambda>_. 1" "[8]" 5] by (auto simp: sl.content_new)

end
