(* ===== verification/Files.thy ===== *)
theory Files
  imports Prelude
begin

text \<open>
  The part of Go's standard library that the write paths stand on: an \<open>os.File\<close> opened
  for appending and the \<open>bufio.Writer\<close> around it (\<open>wal.go\<close> and
  \<open>sstable.go\<close> both write through one of 1 MiB).

  A file holds the bytes the operating system has accepted (\<open>fdata\<close>) and how many of them
  a successful \<open>Sync\<close> has made durable (\<open>fsynced\<close>). The outcomes of its future system
  calls are \<open>fscript\<close>: the head decides the next call (\<open>None\<close> succeeds, \<open>Some n\<close>
  fails after \<open>n\<close> bytes), and calls after its end succeed, so every finite pattern of failures
  is a start state. A crash keeps some prefix that contains the durable bytes.

  \<open>byte_sink\<close> is the contract the two clients rely on; \<open>bufw\<close> interprets it.
\<close>

record osfile =
  fdata :: bytes
  fsynced :: nat
  fscript :: "nat option list"

definition pop :: "osfile \<Rightarrow> nat option \<times> osfile" where
  "pop f = (case fscript f of [] \<Rightarrow> (None, f) | r # rs \<Rightarrow> (r, f\<lparr>fscript := rs\<rparr>))"

definition os_Write :: "osfile \<Rightarrow> bytes \<Rightarrow> osfile \<times> nat \<times> goerror option" where
  "os_Write f p = (case pop f of
      (None, f') \<Rightarrow> (f'\<lparr>fdata := fdata f @ p\<rparr>, length p, None)
    | (Some n, f') \<Rightarrow> (f'\<lparr>fdata := fdata f @ take n p\<rparr>, min n (length p), Some (OSError 0)))"

definition os_Sync :: "osfile \<Rightarrow> osfile \<times> goerror option" where
  "os_Sync f = (case pop f of
      (None, f') \<Rightarrow> (f'\<lparr>fsynced := length (fdata f)\<rparr>, None)
    | (Some _, f') \<Rightarrow> (f', Some (OSError 1)))"

definition os_Close :: "osfile \<Rightarrow> osfile \<times> goerror option" where
  "os_Close f = (case pop f of (None, f') \<Rightarrow> (f', None) | (Some _, f') \<Rightarrow> (f', Some (OSError 2)))"

definition crash_images :: "osfile \<Rightarrow> bytes set" where
  "crash_images f = {take n (fdata f) | n. fsynced f \<le> n}"

record bufw =
  bfile :: osfile
  bbuf :: bytes
  berr :: "goerror option"

definition bufSize :: nat where
  "bufSize = 2 ^ 20"

definition NewWriterSize :: "osfile \<Rightarrow> bufw" where
  "NewWriterSize f = \<lparr>bfile = f, bbuf = [], berr = None\<rparr>"

definition bw_Flush :: "bufw \<Rightarrow> bufw \<times> goerror option" where
  "bw_Flush b =
     (if berr b \<noteq> None then (b, berr b)
      else if bbuf b = [] then (b, None)
      else (case os_Write (bfile b) (bbuf b) of
          (f, n, None) \<Rightarrow> (b\<lparr>bfile := f, bbuf := []\<rparr>, None)
        | (f, n, Some e) \<Rightarrow> (b\<lparr>bfile := f, bbuf := drop n (bbuf b), berr := Some e\<rparr>, Some e)))"

definition bw_direct :: "bufw \<Rightarrow> bytes \<Rightarrow> bufw \<times> nat \<times> goerror option" where
  "bw_direct b p = (case os_Write (bfile b) p of
      (f, n, e) \<Rightarrow> (b\<lparr>bfile := f, berr := e\<rparr>, n, e))"

text \<open>\<open>bufio.Writer.Write\<close>: fill and flush the buffer, write what is longer than the
  whole buffer directly, keep the rest.\<close>

definition bw_Write :: "bufw \<Rightarrow> bytes \<Rightarrow> bufw \<times> nat \<times> goerror option" where
  "bw_Write b p =
     (let avail = bufSize - length (bbuf b) in
      if berr b \<noteq> None then (b, 0, berr b)
      else if length p \<le> avail then (b\<lparr>bbuf := bbuf b @ p\<rparr>, length p, None)
      else if bbuf b = [] then bw_direct b p
      else (case bw_Flush (b\<lparr>bbuf := bbuf b @ take avail p\<rparr>) of
          (b1, Some e) \<Rightarrow> (b1, avail, Some e)
        | (b1, None) \<Rightarrow>
            if length p - avail \<le> bufSize then (b1\<lparr>bbuf := drop avail p\<rparr>, length p, None)
            else (case bw_direct b1 (drop avail p) of (b2, n, e) \<Rightarrow> (b2, avail + n, e))))"

definition bw_Sync :: "bufw \<Rightarrow> bufw \<times> goerror option" where
  "bw_Sync b = (case os_Sync (bfile b) of (f, e) \<Rightarrow> (b\<lparr>bfile := f\<rparr>, e))"

definition bw_Close :: "bufw \<Rightarrow> bufw \<times> goerror option" where
  "bw_Close b = (case os_Close (bfile b) of (f, e) \<Rightarrow> (b\<lparr>bfile := f\<rparr>, e))"

text \<open>What a writer without an error has accepted.\<close>

definition accepted :: "bufw \<Rightarrow> bytes" where
  "accepted b = fdata (bfile b) @ bbuf b"

definition stored :: "bufw \<Rightarrow> bytes" where
  "stored b = fdata (bfile b)"

definition durable :: "bufw \<Rightarrow> nat" where
  "durable b = fsynced (bfile b)"

definition bw_inv :: "bufw \<Rightarrow> bool" where
  "bw_inv b \<longleftrightarrow> fsynced (bfile b) \<le> length (fdata (bfile b)) \<and> length (bbuf b) \<le> bufSize"

definition extends :: "bytes \<Rightarrow> bytes \<Rightarrow> bool" where
  "extends xs ys \<longleftrightarrow> take (length xs) ys = xs"

lemma extends_refl [simp]: "extends xs xs"
  by (simp add: extends_def)

lemma extends_append [simp]: "extends xs (xs @ ys)"
  by (simp add: extends_def)

lemma extends_iff: "extends xs ys \<longleftrightarrow> (\<exists>zs. ys = xs @ zs)"
  by (metis append_take_drop_id extends_append extends_def)

lemma extends_trans: "extends xs ys \<Longrightarrow> extends ys zs \<Longrightarrow> extends xs zs"
  by (auto simp: extends_iff)

lemma extends_take: "extends (xs @ take n ys) (xs @ ys)"
  by (auto simp: extends_iff) (metis append_take_drop_id)

lemma extends_length: "extends xs ys \<Longrightarrow> length xs \<le> length ys"
  by (auto simp: extends_iff)

text \<open>The contract of a buffered append-only file.\<close>

locale byte_sink =
  fixes invar :: "'w \<Rightarrow> bool"
    and failed :: "'w \<Rightarrow> goerror option"
    and accepted :: "'w \<Rightarrow> bytes"
    and stored :: "'w \<Rightarrow> bytes"
    and durable :: "'w \<Rightarrow> nat"
    and wr :: "'w \<Rightarrow> bytes \<Rightarrow> 'w \<times> nat \<times> goerror option"
    and flush :: "'w \<Rightarrow> 'w \<times> goerror option"
    and sync :: "'w \<Rightarrow> 'w \<times> goerror option"
  assumes sticky_write: "failed w \<noteq> None \<Longrightarrow> wr w p = (w, 0, failed w)"
    and sticky_flush: "failed w \<noteq> None \<Longrightarrow> flush w = (w, failed w)"
    and write_ok: "invar w \<Longrightarrow> failed w = None \<Longrightarrow> wr w p = (w', n, None) \<Longrightarrow>
          invar w' \<and> failed w' = None \<and> n = length p \<and> accepted w' = accepted w @ p \<and> durable w' = durable w"
    and write_err: "invar w \<Longrightarrow> failed w = None \<Longrightarrow> wr w p = (w', n, Some e) \<Longrightarrow>
          invar w' \<and> failed w' = Some e \<and> extends (stored w') (accepted w @ p) \<and> durable w' = durable w"
    and flush_ok: "invar w \<Longrightarrow> failed w = None \<Longrightarrow> flush w = (w', None) \<Longrightarrow>
          invar w' \<and> failed w' = None \<and> accepted w' = accepted w \<and> stored w' = accepted w \<and> durable w' = durable w"
    and flush_err: "invar w \<Longrightarrow> failed w = None \<Longrightarrow> flush w = (w', Some e) \<Longrightarrow>
          invar w' \<and> failed w' = Some e \<and> extends (stored w') (accepted w) \<and> durable w' = durable w"
    and sync_ok: "invar w \<Longrightarrow> sync w = (w', None) \<Longrightarrow>
          invar w' \<and> failed w' = failed w \<and> accepted w' = accepted w \<and> stored w' = stored w \<and>
          durable w' = length (stored w)"
    and sync_err: "invar w \<Longrightarrow> sync w = (w', Some e) \<Longrightarrow>
          invar w' \<and> failed w' = failed w \<and> accepted w' = accepted w \<and> stored w' = stored w \<and>
          durable w' = durable w"
    and stored_accepted: "failed w = None \<Longrightarrow> extends (stored w) (accepted w)"
    and durable_stored: "invar w \<Longrightarrow> durable w \<le> length (stored w)"
begin

text \<open>\<open>tracks w t\<close>: the clients have asked for exactly the bytes \<open>t\<close>. Without an error they are
  all accepted; after an error, which is final, the file holds a prefix of them.\<close>

definition tracks :: "'w \<Rightarrow> bytes \<Rightarrow> bool" where
  "tracks w t \<longleftrightarrow> (if failed w = None then accepted w = t else extends (stored w) t)"

lemma tracks_stored: "tracks w t \<Longrightarrow> extends (stored w) t"
  using stored_accepted [of w] by (auto simp: tracks_def split: if_splits)

lemma tracks_more: "failed w \<noteq> None \<Longrightarrow> tracks w t \<Longrightarrow> tracks w (t @ p)"
  by (auto simp: tracks_def extends_iff)

lemma tracks_write:
  assumes "invar w" "tracks w t" "wr w p = (w', n, e)"
  shows "invar w' \<and> tracks w' (t @ p) \<and> durable w' = durable w \<and> (e = None \<longleftrightarrow> failed w' = None)"
proof (cases "failed w")
  case None
  then show ?thesis
    using assms write_ok [OF assms(1) None, of p w' n] write_err [OF assms(1) None, of p w' n]
    by (cases e) (auto simp: tracks_def)
next
  case (Some a)
  then have "w' = w" "e = Some a" using assms(3) sticky_write [of w p] by auto
  then show ?thesis
    using assms Some by (auto simp: tracks_def extends_iff)
qed

lemma tracks_flush:
  assumes "invar w" "tracks w t" "flush w = (w', e)"
  shows "invar w' \<and> tracks w' t \<and> durable w' = durable w \<and> (e = None \<longrightarrow> failed w' = None \<and> stored w' = t)"
proof (cases "failed w")
  case None
  then show ?thesis
    using assms flush_ok [OF assms(1) None, of w'] flush_err [OF assms(1) None, of w']
    by (cases e) (auto simp: tracks_def)
next
  case (Some a)
  then have "w' = w" "e = Some a" using assms(3) sticky_flush [of w] by auto
  then show ?thesis using assms by simp
qed

lemma tracks_sync:
  assumes "invar w" "tracks w t" "sync w = (w', e)"
  shows "invar w' \<and> tracks w' t \<and> stored w' = stored w \<and> failed w' = failed w \<and>
     durable w' = (if e = None then length (stored w) else durable w)"
  using assms sync_ok [OF assms(1), of w'] sync_err [OF assms(1), of w']
  by (cases e) (auto simp: tracks_def)

end

subsection \<open>The buffered writer meets the contract\<close>

lemma pop_simps [simp]:
  "fdata (snd (pop f)) = fdata f" "fsynced (snd (pop f)) = fsynced f"
  by (auto simp: pop_def split: list.splits)

lemma os_Write_cases:
  "os_Write f p = (f', n, e) \<Longrightarrow> fdata f' = fdata f @ take n p \<and> n \<le> length p \<and> fsynced f' = fsynced f \<and>
     (e = None \<longrightarrow> n = length p)"
  using pop_simps [of f] by (cases "pop f") (auto simp: os_Write_def min_def split: option.splits)

lemma os_Sync_cases:
  "os_Sync f = (f', e) \<Longrightarrow> fdata f' = fdata f \<and> fsynced f' = (if e = None then length (fdata f) else fsynced f)"
  using pop_simps [of f] by (cases "pop f") (auto simp: os_Sync_def split: option.splits)

lemmas bw_defs = bw_inv_def accepted_def stored_def durable_def

lemma extends_stored: "extends (stored b) (accepted b)"
  by (simp add: bw_defs)

lemma bw_Flush_cases:
  assumes "bw_Flush b = (b', e)" "berr b = None"
  shows "fsynced (bfile b') = fsynced (bfile b) \<and> berr b' = e \<and> accepted b' = accepted b \<and>
     length (bbuf b') \<le> length (bbuf b) \<and> length (stored b) \<le> length (stored b') \<and> (e = None \<longrightarrow> bbuf b' = [])"
  using assms os_Write_cases [of "bfile b" "bbuf b"]
  by (auto simp: bw_Flush_def bw_defs split: if_splits prod.splits option.splits)

lemma bw_direct_cases:
  assumes "bw_direct b p = (b', n, e)" "bbuf b = []"
  shows "fsynced (bfile b') = fsynced (bfile b) \<and> berr b' = e \<and> stored b' = stored b @ take n p \<and>
     bbuf b' = [] \<and> n \<le> length p \<and> (e = None \<longrightarrow> n = length p)"
  using assms os_Write_cases [of "bfile b" p]
  by (auto simp: bw_direct_def bw_defs split: prod.splits)

text \<open>The effect of one \<open>Write\<close>: the file grows by a prefix of what was accepted followed by the
  new bytes; without an error everything is accepted.\<close>

lemma bw_Write_cases:
  assumes w: "bw_Write b p = (b', n, e)" and inv: "bw_inv b" and ok: "berr b = None"
  shows "bw_inv b' \<and> berr b' = e \<and> durable b' = durable b \<and> extends (stored b') (accepted b @ p) \<and>
     (e = None \<longrightarrow> n = length p \<and> accepted b' = accepted b @ p)"
proof -
  let ?a = "bufSize - length (bbuf b)"
  consider "length p \<le> ?a" | "\<not> length p \<le> ?a" "bbuf b = []" | "\<not> length p \<le> ?a" "bbuf b \<noteq> []"
    by blast
  then show ?thesis
  proof cases
    case 1
    then show ?thesis using w ok inv by (auto simp: bw_Write_def bw_defs extends_iff)
  next
    case 2
    then have "bw_direct b p = (b', n, e)" using w ok by (simp add: bw_Write_def)
    from bw_direct_cases [OF this 2(2)] show ?thesis
      using inv 2(2) by (auto simp: bw_defs extends_iff) (metis append_take_drop_id)
  next
    case 3
    let ?b = "b\<lparr>bbuf := bbuf b @ take ?a p\<rparr>"
    obtain b1 e1 where f: "bw_Flush ?b = (b1, e1)" by force
    from bw_Flush_cases [OF f] ok have f': "durable b1 = durable b" "berr b1 = e1" "accepted b1 = accepted ?b"
        "length (bbuf b1) \<le> length (bbuf ?b)" "e1 = None \<longrightarrow> bbuf b1 = []" "length (stored b) \<le> length (stored b1)"
      by (simp_all add: bw_defs)
    have split: "accepted ?b @ drop ?a p = accepted b @ p" by (simp add: bw_defs)
    have inv1: "bw_inv b1"
      using f' inv 3 by (auto simp: bw_defs)
    show ?thesis
    proof (cases e1)
      case (Some e')
      then have "b' = b1" "e = Some e'" using w ok 3 f by (auto simp: bw_Write_def Let_def)
      moreover have "extends (stored b1) (accepted b @ p)"
        using extends_stored [of b1] extends_append [of "accepted ?b" "drop ?a p"] extends_trans
        by (metis f'(3) split)
      ultimately show ?thesis using f' inv1 Some by simp
    next
      case None
      then have e1: "stored b1 = accepted ?b" "bbuf b1 = []" using f' by (auto simp: bw_defs)
      show ?thesis
      proof (cases "length p - ?a \<le> bufSize")
        case True
        then show ?thesis
          using w ok 3 f None e1 f' inv1 split by (auto simp: bw_Write_def Let_def bw_defs extends_iff)
            (metis append_take_drop_id)
      next
        case False
        then obtain n2 where d: "bw_direct b1 (drop ?a p) = (b', n2, e)" "n = ?a + n2"
          using w ok 3 f None by (auto simp: bw_Write_def Let_def split: prod.splits)
        note d' = bw_direct_cases [OF d(1) e1(2)]
        have "extends (stored b') (accepted ?b @ drop ?a p)"
          using d' e1(1) by (simp add: extends_take)
        then show ?thesis
          using d' d(2) e1 f' inv1 split 3 by (auto simp: bw_defs)
      qed
    qed
  qed
qed

lemma bw_Write_sticky: "berr b \<noteq> None \<Longrightarrow> bw_Write b p = (b, 0, berr b)"
  by (simp add: bw_Write_def)

lemma bw_Sync_cases:
  "bw_Sync b = (b', e) \<Longrightarrow> bbuf b' = bbuf b \<and> berr b' = berr b \<and> stored b' = stored b \<and> accepted b' = accepted b \<and>
     durable b' = (if e = None then length (stored b) else durable b)"
  using os_Sync_cases [of "bfile b"] by (auto simp: bw_Sync_def bw_defs split: prod.splits)

interpretation bw: byte_sink bw_inv berr accepted stored durable bw_Write bw_Flush bw_Sync
proof unfold_locales
  fix w :: bufw and p assume "berr w \<noteq> None"
  then show "bw_Write w p = (w, 0, berr w)" by (rule bw_Write_sticky)
next
  fix w :: bufw assume "berr w \<noteq> None"
  then show "bw_Flush w = (w, berr w)" by (simp add: bw_Flush_def)
next
  fix w w' :: bufw and p n assume "bw_inv w" "berr w = None" "bw_Write w p = (w', n, None)"
  with bw_Write_cases [of w p w' n None]
  show "bw_inv w' \<and> berr w' = None \<and> n = length p \<and> accepted w' = accepted w @ p \<and> durable w' = durable w" by simp
next
  fix w w' :: bufw and p n e assume "bw_inv w" "berr w = None" "bw_Write w p = (w', n, Some e)"
  with bw_Write_cases [of w p w' n "Some e"]
  show "bw_inv w' \<and> berr w' = Some e \<and> extends (stored w') (accepted w @ p) \<and> durable w' = durable w" by simp
next
  fix w w' :: bufw assume *: "bw_inv w" "berr w = None" "bw_Flush w = (w', None)"
  with bw_Flush_cases [of w w' None]
  show "bw_inv w' \<and> berr w' = None \<and> accepted w' = accepted w \<and> stored w' = accepted w \<and> durable w' = durable w"
    by (auto simp: bw_defs)
next
  fix w w' :: bufw and e assume *: "bw_inv w" "berr w = None" "bw_Flush w = (w', Some e)"
  with bw_Flush_cases [of w w' "Some e"] extends_stored [of w']
  show "bw_inv w' \<and> berr w' = Some e \<and> extends (stored w') (accepted w) \<and> durable w' = durable w"
    by (auto simp: bw_inv_def durable_def stored_def)
next
  fix w w' :: bufw assume "bw_inv w" "bw_Sync w = (w', None)"
  with bw_Sync_cases [of w w' None] show "bw_inv w' \<and> berr w' = berr w \<and> accepted w' = accepted w \<and>
      stored w' = stored w \<and> durable w' = length (stored w)"
    by (auto simp: bw_inv_def durable_def stored_def)
next
  fix w w' :: bufw and e assume "bw_inv w" "bw_Sync w = (w', Some e)"
  with bw_Sync_cases [of w w' "Some e"] show "bw_inv w' \<and> berr w' = berr w \<and> accepted w' = accepted w \<and>
      stored w' = stored w \<and> durable w' = durable w"
    by (auto simp: bw_inv_def durable_def stored_def)
next
  show "extends (stored w) (accepted w)" if "berr w = None" for w :: bufw by (rule extends_stored)
  show "durable w \<le> length (stored w)" if "bw_inv w" for w using that by (simp add: bw_defs)
qed

text \<open>Closing the file changes no byte of it.\<close>

lemma bw_Close_fields: "bw_Close b = (b', e) \<Longrightarrow>
    berr b' = berr b \<and> accepted b' = accepted b \<and> stored b' = stored b \<and> durable b' = durable b \<and> (bw_inv b' \<longleftrightarrow> bw_inv b)"
  by (auto simp: bw_Close_def os_Close_def pop_def accepted_def stored_def durable_def bw_inv_def
      split: prod.splits list.splits option.splits)

text \<open>A writer without an error whose file has no failing call ahead.\<close>

definition calm :: "bufw \<Rightarrow> bool" where
  "calm b \<longleftrightarrow> berr b = None \<and> fscript (bfile b) = []"

lemma os_calm:
  "fscript f = [] \<Longrightarrow> os_Write f p = (f\<lparr>fdata := fdata f @ p\<rparr>, length p, None)"
  "fscript f = [] \<Longrightarrow> os_Sync f = (f\<lparr>fsynced := length (fdata f)\<rparr>, None)"
  "fscript f = [] \<Longrightarrow> os_Close f = (f, None)"
  by (simp_all add: os_Write_def os_Sync_def os_Close_def pop_def)

lemma calm_Flush: "calm b \<Longrightarrow> \<exists>b'. bw_Flush b = (b', None) \<and> calm b'"
  by (auto simp: bw_Flush_def calm_def os_calm)

lemma calm_direct: "calm b \<Longrightarrow> \<exists>b'. bw_direct b p = (b', length p, None) \<and> calm b'"
  by (auto simp: bw_direct_def calm_def os_calm)

lemma calm_Sync: "calm b \<Longrightarrow> \<exists>b'. bw_Sync b = (b', None) \<and> calm b'"
  by (auto simp: bw_Sync_def calm_def os_calm)

lemma calm_Close: "calm b \<Longrightarrow> \<exists>b'. bw_Close b = (b', None) \<and> calm b'"
  by (auto simp: bw_Close_def calm_def os_calm)

lemma calm_Write:
  assumes "calm b"
  shows "\<exists>b' n. bw_Write b p = (b', n, None) \<and> calm b'"
proof -
  let ?a = "bufSize - length (bbuf b)"
  have "calm (b\<lparr>bbuf := bbuf b @ take ?a p\<rparr>)" using assms by (simp add: calm_def)
  then obtain b1 where b1: "bw_Flush (b\<lparr>bbuf := bbuf b @ take ?a p\<rparr>) = (b1, None)" "calm b1"
    using calm_Flush by blast
  then have "calm (b1\<lparr>bbuf := drop ?a p\<rparr>)" by (simp add: calm_def)
  then show ?thesis
    using assms b1 calm_direct [OF assms, of p] calm_direct [OF b1(2), of "drop ?a p"]
    by (auto simp: bw_Write_def calm_def Let_def)
qed

end
