(* ===== verification/Wal.thy ===== *)
theory Wal
  imports Files "HOL-Library.Sublist"
begin

text \<open>
  \<open>internal/storage/wal/wal.go\<close>: the write-ahead log. The record format and its checksum, the
  replay \<open>ReadAll\<close>, and the group commit as a state machine: requests queue in
  \<open>pending\<close>, the commit loop takes them as a batch, writes them through the buffered writer,
  flushes, syncs and answers every request. Locking makes taking a batch atomic; committing a batch
  touches only the writer, which no other step uses.

  \<open>results\<close> is the history of the answers sent on the requests' channels, \<open>batch\<close> the batch the
  loop has taken and not yet answered, \<open>running\<close> whether the loop still runs.
\<close>

text \<open>\<open>hash/crc32.ChecksumIEEE\<close>: reflected polynomial \<open>0xEDB88320\<close>.\<close>

definition crc_bit :: "u32 \<Rightarrow> u32" where
  "crc_bit c = (if c AND 1 = 1 then drop_bit 1 c XOR 0xEDB88320 else drop_bit 1 c)"

definition crc_byte :: "u32 \<Rightarrow> byte \<Rightarrow> u32" where
  "crc_byte c b = (crc_bit ^^ 8) (c XOR ucast b)"

definition ChecksumIEEE :: "bytes \<Rightarrow> u32" where
  "ChecksumIEEE data = NOT (foldl crc_byte (NOT 0) data)"

definition recordHeaderSize :: nat where
  "recordHeaderSize = 8"

record commitRequest =
  reqId :: nat
  data :: bytes

record wal =
  bw :: bufw
  closed :: bool
  pending :: "commitRequest list"
  batch :: "commitRequest list"
  running :: bool
  results :: "(commitRequest \<times> goerror option) list"

text \<open>\<open>Open\<close> on a directory whose \<open>wal.log\<close> holds \<open>old\<close> (nothing, when it is new).\<close>

definition wal_Open :: "bytes \<Rightarrow> nat option list \<Rightarrow> wal" where
  "wal_Open old script =
     \<lparr>bw = NewWriterSize \<lparr>fdata = old, fsynced = length old, fscript = script\<rparr>, closed = False,
      pending = [], batch = [], running = True, results = []\<rparr>"

text \<open>\<open>Append\<close> up to the point where it blocks on its result channel. Sending on the closed
  \<open>syncCh\<close> panics.\<close>

definition wal_Append :: "wal \<Rightarrow> commitRequest \<Rightarrow> wal option" where
  "wal_Append w req = (if closed w then None else Some (w\<lparr>pending := pending w @ [req]\<rparr>))"

definition record_header :: "bytes \<Rightarrow> bytes" where
  "record_header d = PutUint32 (word_of_nat (length d)) @ PutUint32 (ChecksumIEEE d)"

definition writeRecord :: "bufw \<Rightarrow> bytes \<Rightarrow> bufw \<times> goerror option" where
  "writeRecord b d =
     (case bw_Write b (record_header d) of
        (b1, n, Some e) \<Rightarrow> (b1, Some e)
      | (b1, n, None) \<Rightarrow> (case bw_Write b1 d of (b2, m, e) \<Rightarrow> (b2, e)))"

fun write_batch :: "bufw \<Rightarrow> commitRequest list \<Rightarrow> goerror option \<Rightarrow> bufw \<times> goerror option" where
  "write_batch b [] writeErr = (b, writeErr)"
| "write_batch b (req # reqs) writeErr =
     (if writeErr = None then (case writeRecord b (data req) of (b', e) \<Rightarrow> write_batch b' reqs e)
      else write_batch b reqs writeErr)"

definition flush_and_sync :: "bufw \<Rightarrow> bufw \<times> goerror option" where
  "flush_and_sync b = (case bw_Flush b of (b1, Some e) \<Rightarrow> (b1, Some e) | (b1, None) \<Rightarrow> bw_Sync b1)"

text \<open>One turn of \<open>groupCommitLoop\<close>: take the batch under the lock, then commit it.\<close>

definition loop_take :: "wal \<Rightarrow> wal" where
  "loop_take w = (if closed w then w\<lparr>running := False\<rparr> else w\<lparr>batch := pending w, pending := []\<rparr>)"

definition loop_commit :: "wal \<Rightarrow> wal" where
  "loop_commit w =
     (if batch w = [] then w
      else (case write_batch (bw w) (batch w) None of (b1, writeErr) \<Rightarrow>
            (case (if writeErr = None then flush_and_sync b1 else (b1, None)) of (b2, syncErr) \<Rightarrow>
               w\<lparr>bw := b2, batch := [],
                 results := results w @
                   map (\<lambda>req. (req, if writeErr \<noteq> None then writeErr else syncErr)) (batch w)\<rparr>)))"

text \<open>\<open>Close\<close>: closing the channel twice panics; after the loop has ended it flushes,
  syncs and closes the file.\<close>

definition wal_Close_begin :: "wal \<Rightarrow> wal option" where
  "wal_Close_begin w = (if closed w then None else Some (w\<lparr>closed := True\<rparr>))"

definition wal_Close_finish :: "wal \<Rightarrow> wal \<times> goerror option" where
  "wal_Close_finish w =
     (case flush_and_sync (bw w) of
        (b, Some e) \<Rightarrow> (w\<lparr>bw := b\<rparr>, Some e)
      | (b, None) \<Rightarrow> (case bw_Close b of (b', e) \<Rightarrow> (w\<lparr>bw := b'\<rparr>, e)))"

text \<open>\<open>Append\<close> to its return, when no other goroutine appends meanwhile: the request is queued, the
  loop takes and commits it, and its answer is returned.\<close>

definition wal_Append_wait :: "wal \<Rightarrow> bytes \<Rightarrow> (wal \<times> goerror option) option" where
  "wal_Append_wait w d = do {
     w1 \<leftarrow> wal_Append w \<lparr>reqId = length (results w), data = d\<rparr>;
     let w2 = loop_commit (loop_take w1);
     (if length (results w2) \<le> length (results w) then None else Some (w2, snd (last (results w2))))
   }"

text \<open>\<open>ReadAll\<close> on the bytes of \<open>wal.log\<close>; a missing file has no records.\<close>

function ReadAll_loop :: "bytes \<Rightarrow> bytes list \<Rightarrow> bytes list \<times> goerror option" where
  "ReadAll_loop f records =
     (case ReadFull f recordHeaderSize of
        Inl e \<Rightarrow> (records, None)
      | Inr (header, rest) \<Rightarrow>
          (case ReadFull rest (unat (Uint32 (take 4 header))) of
             Inl e \<Rightarrow> (records, None)
           | Inr (d, rest') \<Rightarrow>
               if ChecksumIEEE d \<noteq> Uint32 (drop 4 header) then (records, Some ErrChecksumMismatch)
               else ReadAll_loop rest' (records @ [d])))"
  by pat_completeness auto
termination
  by (relation "measure (\<lambda>(f, records). length f)")
    (auto simp: recordHeaderSize_def dest!: ReadFull_Inr)

definition ReadAll :: "bytes option \<Rightarrow> bytes list \<times> goerror option" where
  "ReadAll file = (case file of None \<Rightarrow> ([], None) | Some f \<Rightarrow> ReadAll_loop f [])"

text \<open>The group commit as a transition system.\<close>

inductive wal_step :: "wal \<Rightarrow> wal \<Rightarrow> bool" where
  append: "length (data req) < 2 ^ 32 \<Longrightarrow> wal_Append w req = Some w' \<Longrightarrow> wal_step w w'"
| take: "running w \<Longrightarrow> batch w = [] \<Longrightarrow> wal_step w (loop_take w)"
| commit: "running w \<Longrightarrow> batch w \<noteq> [] \<Longrightarrow> wal_step w (loop_commit w)"
| close_begin: "wal_Close_begin w = Some w' \<Longrightarrow> wal_step w w'"
| close_finish: "closed w \<Longrightarrow> \<not> running w \<Longrightarrow> wal_step w (fst (wal_Close_finish w))"

inductive wal_reach :: "wal \<Rightarrow> wal \<Rightarrow> bool" where
  here: "wal_reach w w"
| extend: "wal_reach w w' \<Longrightarrow> wal_step w' w'' \<Longrightarrow> wal_reach w w''"

text \<open>The encoding of a record, the data of the requests answered without an error, and the bytes
  a crash may leave in \<open>wal.log\<close>.\<close>

definition encode_record :: "bytes \<Rightarrow> bytes" where
  "encode_record d = record_header d @ d"

definition log_bytes :: "bytes list \<Rightarrow> bytes" where
  "log_bytes ds = concat (map encode_record ds)"

definition acked :: "wal \<Rightarrow> bytes list" where
  "acked w = map (data \<circ> fst) (filter (\<lambda>r. snd r = None) (results w))"

definition wal_crash :: "wal \<Rightarrow> bytes set" where
  "wal_crash w = crash_images (bfile (bw w))"

subsection \<open>Replay\<close>

declare ReadAll_loop.simps [simp del]

lemma length_record_header [simp]: "length (record_header d) = 8"
  by (simp add: record_header_def)

lemma length_encode_record: "length (encode_record d) = 8 + length d"
  by (simp add: encode_record_def)

lemma ReadAll_record:
  assumes "length d < 2 ^ 32"
  shows "ReadAll_loop (encode_record d @ f) acc = ReadAll_loop f (acc @ [d])"
proof -
  have "ReadFull (encode_record d @ f) recordHeaderSize = Inr (record_header d, d @ f)"
    by (simp add: encode_record_def recordHeaderSize_def)
  moreover have "unat (Uint32 (take 4 (record_header d))) = length d"
    using assms by (simp add: record_header_def unat_word_of_nat_32)
  moreover have "Uint32 (drop 4 (record_header d)) = ChecksumIEEE d"
    by (simp add: record_header_def)
  ultimately show ?thesis
    by (subst ReadAll_loop.simps) simp
qed

lemma ReadAll_torn:
  assumes "n < length (encode_record d)" "length d < 2 ^ 32"
  shows "ReadAll_loop (take n (encode_record d)) acc = (acc, None)"
proof (cases "n < 8")
  case True
  then show ?thesis
    using assms ReadFull_short [of "take n (encode_record d)" 8]
    by (subst ReadAll_loop.simps) (auto simp: recordHeaderSize_def)
next
  case False
  then have "take n (encode_record d) = record_header d @ take (n - 8) d"
    by (simp add: encode_record_def record_header_def)
  then have "ReadFull (take n (encode_record d)) recordHeaderSize = Inr (record_header d, take (n - 8) d)"
    by (simp add: recordHeaderSize_def)
  moreover have "unat (Uint32 (take 4 (record_header d))) = length d"
    using assms by (simp add: record_header_def unat_word_of_nat_32)
  moreover have "n - 8 < length d" using False assms by (simp add: length_encode_record)
  then obtain e where "ReadFull (take (n - 8) d) (length d) = Inl e"
    using ReadFull_short [of "take (n - 8) d" "length d"] by auto
  ultimately show ?thesis by (subst ReadAll_loop.simps) simp
qed

text \<open>Replaying any prefix of a log gives the records that are complete in it, without an error.\<close>

lemma ReadAll_prefix:
  assumes "\<forall>d\<in>set ds. length d < 2 ^ 32"
  shows "\<exists>j. ReadAll_loop (take n (log_bytes ds)) acc = (acc @ take j ds, None) \<and>
    length (log_bytes (take j ds)) \<le> n \<and> (\<forall>i\<le>length ds. length (log_bytes (take i ds)) \<le> n \<longrightarrow> i \<le> j)"
  using assms
proof (induction ds arbitrary: n acc)
  case Nil
  then show ?case by (intro exI [of _ 0], subst ReadAll_loop.simps)
      (simp add: log_bytes_def ReadFull_def recordHeaderSize_def)
next
  case (Cons d ds)
  have split: "log_bytes (d # ds) = encode_record d @ log_bytes ds" by (simp add: log_bytes_def)
  show ?case
  proof (cases "n < length (encode_record d)")
    case True
    have "i = 0" if "length (log_bytes (take i (d # ds))) \<le> n" for i
      using that True by (cases i) (auto simp: log_bytes_def)
    then show ?thesis
      using True Cons.prems ReadAll_torn [of n d acc] by (intro exI [of _ 0]) (auto simp: split, simp add: log_bytes_def)
  next
    case False
    obtain j where j: "ReadAll_loop (take (n - length (encode_record d)) (log_bytes ds)) (acc @ [d]) =
        ((acc @ [d]) @ take j ds, None)"
      "length (log_bytes (take j ds)) \<le> n - length (encode_record d)" "\<forall>i\<le>length ds. length (log_bytes (take i ds)) \<le> n - length (encode_record d) \<longrightarrow> i \<le> j"
      using Cons.IH [of "n - length (encode_record d)" "acc @ [d]"] Cons.prems by auto
    have "i \<le> Suc j" if "i \<le> length (d # ds)" "length (log_bytes (take i (d # ds))) \<le> n" for i
      using that j(3) by (cases i) (auto simp: log_bytes_def)
    moreover have "length (log_bytes (take (Suc j) (d # ds))) \<le> n" using j(2) False by (simp add: log_bytes_def)
    ultimately show ?thesis
      using j(1) False Cons.prems
      by (intro exI [of _ "Suc j"]) (auto simp: split ReadAll_record)
  qed
qed

subsection \<open>Group commit\<close>

lemma log_bytes_simps [simp]:
  "log_bytes [] = []" "log_bytes (d # ds) = encode_record d @ log_bytes ds"
  "log_bytes (ds @ es) = log_bytes ds @ log_bytes es"
  by (simp_all add: log_bytes_def)

lemma writeRecord_tracks:
  assumes "bw_inv b" "bw.tracks b t" "writeRecord b d = (b', e)"
  shows "bw_inv b' \<and> bw.tracks b' (t @ encode_record d) \<and> durable b' = durable b \<and> (e \<noteq> None \<longrightarrow> berr b' \<noteq> None)"
proof -
  obtain b1 n1 e1 where w1: "bw_Write b (record_header d) = (b1, n1, e1)" by (cases "bw_Write b (record_header d)")
  note t1 = bw.tracks_write [OF assms(1,2) w1]
  show ?thesis
  proof (cases e1)
    case (Some x)
    then show ?thesis
      using assms(3) w1 t1 bw.tracks_more [of b1 "t @ record_header d" d]
      by (auto simp: writeRecord_def encode_record_def)
  next
    case None
    obtain b2 n2 e2 where w2: "bw_Write b1 d = (b2, n2, e2)" by (cases "bw_Write b1 d")
    then show ?thesis
      using assms(3) w1 None t1 bw.tracks_write [OF _ _ w2, of "t @ record_header d"]
      by (auto simp: writeRecord_def encode_record_def)
  qed
qed

lemma write_batch_tracks:
  "bw_inv b \<Longrightarrow> bw.tracks b t \<Longrightarrow> (we \<noteq> None \<longrightarrow> berr b \<noteq> None) \<Longrightarrow> write_batch b reqs we = (b', e) \<Longrightarrow>
   bw_inv b' \<and> bw.tracks b' (t @ log_bytes (map data reqs)) \<and> durable b' = durable b"
proof (induction reqs arbitrary: b t we)
  case (Cons r reqs)
  show ?case
  proof (cases we)
    case None
    obtain b1 e1 where w: "writeRecord b (data r) = (b1, e1)" by force
    note t1 = writeRecord_tracks [OF Cons.prems(1,2) w]
    then show ?thesis
      using Cons.IH [of b1 "t @ encode_record (data r)" e1] Cons.prems None w by simp
  next
    case (Some x)
    then have "bw.tracks b (t @ encode_record (data r))"
      using Cons.prems by (intro bw.tracks_more) auto
    then show ?thesis
      using Cons.IH [of b "t @ encode_record (data r)" we] Cons.prems Some by simp
  qed
qed simp

lemma flush_and_sync_tracks:
  assumes "bw_inv b" "bw.tracks b t" "flush_and_sync b = (b', e)"
  shows "bw_inv b' \<and> bw.tracks b' t \<and> durable b \<le> durable b' \<and> (e = None \<longrightarrow> durable b' = length t)"
proof -
  obtain b1 e1 where f: "bw_Flush b = (b1, e1)" by force
  note t1 = bw.tracks_flush [OF assms(1,2) f]
  obtain b2 e2 where s: "bw_Sync b1 = (b2, e2)" by force
  have "durable b1 \<le> length (stored b1)" using t1 by (intro bw.durable_stored) simp
  then show ?thesis
    using assms(3) f t1 s bw.tracks_sync [OF _ _ s, of t]
    by (cases e1) (auto simp: flush_and_sync_def split: if_splits)
qed

text \<open>The invariant of the state machine. The file tracks the log of the old records \<open>ds0\<close> followed
  by the records handed to the writer; the answers without an error belong to the first \<open>j\<close> of them,
  and those are durable.\<close>

definition wal_inv :: "bytes list \<Rightarrow> wal \<Rightarrow> bool" where
  "wal_inv ds0 w \<longleftrightarrow> (\<exists>ws j. bw_inv (bw w) \<and> bw.tracks (bw w) (log_bytes (ds0 @ ws)) \<and>
     (\<forall>d\<in>set ws. length d < 2 ^ 32) \<and> (\<forall>r\<in>set (pending w @ batch w). length (data r) < 2 ^ 32) \<and>
     subseq (acked w) (take j ws) \<and> j \<le> length ws \<and>
     length (log_bytes (ds0 @ take j ws)) \<le> durable (bw w))"

lemma wal_inv_Open: "wal_inv ds0 (wal_Open (log_bytes ds0) script)"
  unfolding wal_inv_def
  by (intro exI [of _ "[]"] exI [of _ 0])
    (simp add: wal_Open_def NewWriterSize_def bw_inv_def bw.tracks_def accepted_def durable_def acked_def)

lemma acked_append: "acked (w\<lparr>results := results w @ rs\<rparr>) = acked w @ map (data \<circ> fst) (filter (\<lambda>r. snd r = None) rs)"
  by (simp add: acked_def)

lemma wal_inv_commit:
  assumes inv: "wal_inv ds0 w" and ne: "batch w \<noteq> []"
  shows "wal_inv ds0 (loop_commit w)"
proof -
  obtain ws j where i: "bw_inv (bw w)" "bw.tracks (bw w) (log_bytes (ds0 @ ws))"
     "\<forall>d\<in>set ws. length d < 2 ^ 32" "\<forall>r\<in>set (pending w @ batch w). length (data r) < 2 ^ 32"
     "subseq (acked w) (take j ws)" "j \<le> length ws" "length (log_bytes (ds0 @ take j ws)) \<le> durable (bw w)"
    using inv unfolding wal_inv_def by blast
  let ?ws = "ws @ map data (batch w)"
  obtain b1 we where wb: "write_batch (bw w) (batch w) None = (b1, we)" by force
  from write_batch_tracks [OF i(1,2) _ wb] have t1: "bw_inv b1" "bw.tracks b1 (log_bytes (ds0 @ ?ws))" "durable b1 = durable (bw w)"
    by auto
  obtain b2 se where fs: "(if we = None then flush_and_sync b1 else (b1, None)) = (b2, se)" by force
  have t2: "bw_inv b2" "bw.tracks b2 (log_bytes (ds0 @ ?ws))" "durable (bw w) \<le> durable b2"
      "we = None \<Longrightarrow> se = None \<Longrightarrow> durable b2 = length (log_bytes (ds0 @ ?ws))"
    using fs t1 flush_and_sync_tracks [OF t1(1,2), of b2 se] by (auto split: if_splits)
  have w': "loop_commit w = w\<lparr>bw := b2, batch := [],
      results := results w @ map (\<lambda>req. (req, if we \<noteq> None then we else se)) (batch w)\<rparr>"
    using ne wb fs by (simp add: loop_commit_def)
  have small: "\<forall>d\<in>set ?ws. length d < 2 ^ 32" "\<forall>r\<in>set (pending w). length (data r) < 2 ^ 32" using i(3,4) by auto
  show ?thesis
  proof (cases "we = None \<and> se = None")
    case True
    then have "acked (loop_commit w) = acked w @ map data (batch w)" by (simp add: w' acked_def comp_def)
    moreover have "subseq (acked w @ map data (batch w)) ?ws"
      using subseq_order.trans [OF i(5) prefix_imp_subseq [OF take_is_prefix]]
      by (intro list_emb_append_mono) auto
    ultimately show ?thesis
      unfolding wal_inv_def using t2 True small
      by (intro exI [of _ ?ws] exI [of _ "length ?ws"]) (simp add: w')
  next
    case False
    then have "acked (loop_commit w) = acked w" by (auto simp: w' acked_def)
    then show ?thesis
      unfolding wal_inv_def using i t2(1-3) small
      by (intro exI [of _ ?ws] exI [of _ j]) (simp add: w')
  qed
qed

lemma wal_inv_step: "wal_step w w' \<Longrightarrow> wal_inv ds0 w \<Longrightarrow> wal_inv ds0 w'"
proof (induction rule: wal_step.induct)
  case (append req w w')
  then show ?case by (fastforce simp: wal_inv_def wal_Append_def acked_def split: if_splits)
next
  case (take w)
  then show ?case by (auto simp: wal_inv_def loop_take_def acked_def)
next
  case (commit w)
  then show ?case by (blast intro: wal_inv_commit)
next
  case (close_begin w w')
  then show ?case by (fastforce simp: wal_inv_def wal_Close_begin_def acked_def split: if_splits)
next
  case (close_finish w)
  then obtain ws j where i: "bw_inv (bw w)" "bw.tracks (bw w) (log_bytes (ds0 @ ws))"
     "\<forall>d\<in>set ws. length d < 2 ^ 32" "\<forall>r\<in>set (pending w @ batch w). length (data r) < 2 ^ 32"
     "subseq (acked w) (take j ws)" "j \<le> length ws" "length (log_bytes (ds0 @ take j ws)) \<le> durable (bw w)"
    unfolding wal_inv_def by blast
  obtain b e where f: "flush_and_sync (bw w) = (b, e)" by force
  obtain b' e' where c: "bw_Close b = (b', e')" by force
  have "bw (fst (wal_Close_finish w)) \<in> {b, b'}" using f c by (auto simp: wal_Close_finish_def split: option.splits)
  moreover have "pending (fst (wal_Close_finish w)) = pending w" "batch (fst (wal_Close_finish w)) = batch w"
      "acked (fst (wal_Close_finish w)) = acked w"
    by (auto simp: wal_Close_finish_def acked_def split: prod.splits option.splits)
  moreover have "bw.tracks b' t \<longleftrightarrow> bw.tracks b t" for t
    using bw_Close_fields [OF c] by (simp add: bw.tracks_def)
  ultimately show ?case
    unfolding wal_inv_def using i flush_and_sync_tracks [OF i(1,2) f] bw_Close_fields [OF c]
    by (intro exI [of _ ws] exI [of _ j]) auto
qed

lemma wal_inv_reach: "wal_reach w w' \<Longrightarrow> wal_inv ds0 w \<Longrightarrow> wal_inv ds0 w'"
  by (induction rule: wal_reach.induct) (auto intro: wal_inv_step)

lemma wal_inv_recover:
  assumes inv: "wal_inv ds0 w" and old: "\<forall>d\<in>set ds0. length d < 2 ^ 32" and c: "c \<in> wal_crash w"
  shows "\<exists>rs. ReadAll (Some c) = (ds0 @ rs, None) \<and> subseq (acked w) rs"
proof -
  obtain ws j where i: "bw_inv (bw w)" "bw.tracks (bw w) (log_bytes (ds0 @ ws))"
     "\<forall>d\<in>set ws. length d < 2 ^ 32" "subseq (acked w) (take j ws)" "j \<le> length ws"
     "length (log_bytes (ds0 @ take j ws)) \<le> durable (bw w)"
    using inv unfolding wal_inv_def by blast
  obtain n where n: "c = take n (stored (bw w))" "durable (bw w) \<le> n"
    using c by (auto simp: wal_crash_def crash_images_def stored_def durable_def)
  let ?n = "min n (length (stored (bw w)))"
  have "c = take ?n (log_bytes (ds0 @ ws))"
    using bw.tracks_stored [OF i(2)] n(1) by (metis extends_def min.commute take_take)
  moreover have "\<forall>d\<in>set (ds0 @ ws). length d < 2 ^ 32" using old i(3) by auto
  ultimately obtain k where k: "ReadAll_loop c [] = (take k (ds0 @ ws), None)"
      "\<forall>m\<le>length (ds0 @ ws). length (log_bytes (take m (ds0 @ ws))) \<le> ?n \<longrightarrow> m \<le> k"
    using ReadAll_prefix [of "ds0 @ ws" ?n "[]"] by auto
  have "durable (bw w) \<le> length (stored (bw w))" using i(1) by (rule bw.durable_stored)
  then have "length (log_bytes (take (length ds0 + j) (ds0 @ ws))) \<le> ?n" using i(6) n(2) by simp
  then have le: "length ds0 + j \<le> k" using k(2) i(5) by auto
  then have "take k (ds0 @ ws) = ds0 @ take (k - length ds0) ws" by simp
  moreover have "j \<le> k - length ds0" using le by simp
  then have "take j ws = take j (take (k - length ds0) ws)" by (simp add: min_absorb1)
  then have "prefix (take j ws) (take (k - length ds0) ws)" by (metis take_is_prefix)
  ultimately show ?thesis
    using k(1) subseq_order.trans [OF i(4) prefix_imp_subseq] by (auto simp: ReadAll_def)
qed

text \<open>What a crash at any moment between two states of the log leaves of the file: the writer only appends, so
  it is a beginning of the later contents that holds what was synced before.\<close>

definition crash_between :: "wal \<Rightarrow> wal \<Rightarrow> bytes set" where
  "crash_between w w' = {take n (fdata (bfile (bw w'))) |n. fsynced (bfile (bw w)) \<le> n}"

lemma crash_between_self: "crash_between w w = wal_crash w"
  by (simp add: crash_between_def wal_crash_def crash_images_def)

lemma crash_between_prefix:
  assumes "bw.tracks (bw w') t" "f \<in> crash_between w w'"
  shows "\<exists>n. f = take n t"
proof -
  obtain n where "f = take n (stored (bw w'))" using assms(2) by (auto simp: crash_between_def stored_def)
  moreover obtain rest where "t = stored (bw w') @ rest" using bw.tracks_stored [OF assms(1)] by (auto simp: extends_iff)
  ultimately show ?thesis by (intro exI [of _ "min n (length (stored (bw w')))"]) (simp add: min_def)
qed

subsection \<open>A single writer\<close>

definition wal_idle :: "wal \<Rightarrow> bool" where
  "wal_idle w \<longleftrightarrow> \<not> closed w \<and> pending w = [] \<and> batch w = []"

text \<open>Between two appends of a single writer that have all been answered without an error, the file
  is exactly the log of the records and all of it is durable.\<close>

definition wal_at :: "wal \<Rightarrow> bytes \<Rightarrow> bool" where
  "wal_at w f \<longleftrightarrow> bw_inv (bw w) \<and> berr (bw w) = None \<and> accepted (bw w) = f \<and> stored (bw w) = f \<and>
     durable (bw w) = length f \<and> wal_idle w"

definition wal_clean :: "wal \<Rightarrow> bytes list \<Rightarrow> bool" where
  "wal_clean w ds = wal_at w (log_bytes ds)"

lemma wal_at_idle: "wal_at w f \<Longrightarrow> wal_idle w"
  by (simp add: wal_at_def)

lemma wal_clean_idle: "wal_clean w ds \<Longrightarrow> wal_idle w"
  by (simp add: wal_clean_def wal_at_idle)

lemma wal_at_Open: "wal_at (wal_Open f script) f"
  by (simp add: wal_at_def wal_idle_def wal_Open_def NewWriterSize_def bw_inv_def accepted_def stored_def durable_def)

lemma wal_idle_Open: "wal_idle (wal_Open old script)"
  by (simp add: wal_idle_def wal_Open_def)

lemma wal_clean_Open: "wal_clean (wal_Open (log_bytes ds) script) ds"
  by (simp add: wal_clean_def wal_at_Open)

lemma writeRecord_ok:
  assumes "bw_inv b" "berr b = None" "writeRecord b d = (b', None)"
  shows "bw_inv b' \<and> berr b' = None \<and> accepted b' = accepted b @ encode_record d \<and> durable b' = durable b"
proof -
  obtain b1 n where b1: "bw_Write b (record_header d) = (b1, n, None)"
    using assms(3) by (auto simp: writeRecord_def split: prod.splits option.splits)
  then obtain m where b2: "bw_Write b1 d = (b', m, None)"
    using assms(3) by (auto simp: writeRecord_def split: prod.splits)
  note s1 = bw.write_ok [OF assms(1,2) b1]
  then show ?thesis using bw.write_ok [OF _ _ b2] by (auto simp: encode_record_def)
qed

lemma Append_wait_eq:
  assumes "wal_idle w" "wal_Append_wait w d = Some (w', err)"
  shows "\<exists>b1 we b2 se. writeRecord (bw w) d = (b1, we) \<and>
    (if we = None then flush_and_sync b1 else (b1, None)) = (b2, se) \<and>
    err = (if we \<noteq> None then we else se) \<and>
    w' = w\<lparr>bw := b2, results := results w @ [(\<lparr>reqId = length (results w), data = d\<rparr>, err)]\<rparr>"
proof -
  obtain b1 we where w1: "writeRecord (bw w) d = (b1, we)" by force
  obtain b2 se where w2: "(if we = None then flush_and_sync b1 else (b1, None)) = (b2, se)" by force
  show ?thesis
    using assms w1 w2
    by (auto simp: wal_idle_def wal_Append_wait_def wal_Append_def loop_take_def loop_commit_def Let_def)
qed

text \<open>Whatever the outcome of an append, the file tracks the log with its record behind.\<close>

lemma Append_wait_tracks:
  assumes "wal_idle w" "bw_inv (bw w)" "bw.tracks (bw w) t" "wal_Append_wait w d = Some (w', err)"
  shows "wal_idle w' \<and> bw_inv (bw w') \<and> bw.tracks (bw w') (t @ encode_record d)"
proof -
  obtain b1 we b2 se where s: "writeRecord (bw w) d = (b1, we)" "(if we = None then flush_and_sync b1 else (b1, None)) = (b2, se)"
      "w' = w\<lparr>bw := b2, results := results w @ [(\<lparr>reqId = length (results w), data = d\<rparr>, err)]\<rparr>"
    using Append_wait_eq [OF assms(1,4)] by blast
  note t1 = writeRecord_tracks [OF assms(2,3) s(1)]
  then have "bw_inv b2 \<and> bw.tracks b2 (t @ encode_record d)"
    using s(2) flush_and_sync_tracks [of b1 _ b2 se] by (auto split: if_splits)
  then show ?thesis using assms(1) s(3) by (simp add: wal_idle_def)
qed

lemma Append_wait_at:
  assumes "wal_at w f" "wal_Append_wait w d = Some (w', None)"
  shows "wal_at w' (f @ encode_record d) \<and> acked w' = acked w @ [d]"
proof -
  obtain b1 we b2 se where s: "writeRecord (bw w) d = (b1, we)"
    "(if we = None then flush_and_sync b1 else (b1, None)) = (b2, se)" "None = (if we \<noteq> None then we else se)"
    "w' = w\<lparr>bw := b2, results := results w @ [(\<lparr>reqId = length (results w), data = d\<rparr>, None)]\<rparr>"
    using Append_wait_eq [OF wal_at_idle [OF assms(1)] assms(2)] by blast
  then have n: "we = None" "se = None" by (auto split: if_splits)
  have w: "bw_inv (bw w)" "berr (bw w) = None" "accepted (bw w) = f"
    using assms(1) by (simp_all add: wal_at_def)
  from writeRecord_ok [OF w(1,2)] s(1) n have 1: "bw_inv b1" "berr b1 = None" "accepted b1 = f @ encode_record d"
    by (simp_all add: w(3))
  obtain b1' where fl: "bw_Flush b1 = (b1', None)" "bw_Sync b1' = (b2, None)"
    using s(2) n by (auto simp: flush_and_sync_def split: prod.splits option.splits)
  from bw.flush_ok [OF 1(1,2) fl(1)] have 2: "bw_inv b1'" "berr b1' = None" "accepted b1' = f @ encode_record d"
      "stored b1' = f @ encode_record d" using 1(3) by simp_all
  from bw.sync_ok [OF 2(1) fl(2)] 2 show ?thesis
    using assms(1) by (auto simp: wal_at_def wal_idle_def s(4) acked_def)
qed

lemma Append_wait_ok:
  "wal_clean w ds \<Longrightarrow> wal_Append_wait w d = Some (w', None) \<Longrightarrow> wal_clean w' (ds @ [d]) \<and> acked w' = acked w @ [d]"
  unfolding wal_clean_def using Append_wait_at [of w "log_bytes ds" d w'] by simp

lemma wal_clean_crash:
  assumes "wal_clean w ds" "\<forall>d\<in>set ds. length d < 2 ^ 32" "c \<in> wal_crash w"
  shows "c = log_bytes ds \<and> ReadAll (Some c) = (ds, None)"
proof -
  have c: "c = log_bytes ds"
    using assms(1,3) by (auto simp: wal_clean_def wal_at_def wal_crash_def crash_images_def stored_def durable_def)
  obtain j where j: "ReadAll_loop (take (length (log_bytes ds)) (log_bytes ds)) [] = ([] @ take j ds, None)"
      "\<forall>i\<le>length ds. length (log_bytes (take i ds)) \<le> length (log_bytes ds) \<longrightarrow> i \<le> j"
    using ReadAll_prefix [OF assms(2), of "length (log_bytes ds)" "[]"] by blast
  have "length ds \<le> j" using j(2) by simp
  then show ?thesis using j(1) c by (simp add: ReadAll_def)
qed

text \<open>An append of a single writer returns, and without failing system calls it succeeds.\<close>

lemma Append_wait_total:
  assumes "wal_idle w"
  shows "\<exists>w' err. wal_Append_wait w d = Some (w', err) \<and> wal_idle w'"
proof -
  obtain b1 we where w1: "writeRecord (bw w) d = (b1, we)" by force
  obtain b2 se where w2: "(if we = None then flush_and_sync b1 else (b1, None)) = (b2, se)" by force
  show ?thesis
    using assms w1 w2
    by (auto simp: wal_idle_def wal_Append_wait_def wal_Append_def loop_take_def loop_commit_def Let_def)
qed

lemma Append_wait_calm:
  assumes "wal_idle w" "calm (bw w)"
  shows "\<exists>w'. wal_Append_wait w d = Some (w', None) \<and> calm (bw w')"
proof -
  obtain w' err where a: "wal_Append_wait w d = Some (w', err)" using Append_wait_total [OF assms(1)] by blast
  obtain b1 n where b1: "bw_Write (bw w) (record_header d) = (b1, n, None)" "calm b1"
    using calm_Write [OF assms(2)] by blast
  obtain b2 m where b2: "bw_Write b1 d = (b2, m, None)" "calm b2" using calm_Write [OF b1(2)] by blast
  obtain b3 where b3: "bw_Flush b2 = (b3, None)" "calm b3" using calm_Flush [OF b2(2)] by blast
  obtain b4 where b4: "bw_Sync b3 = (b4, None)" "calm b4" using calm_Sync [OF b3(2)] by blast
  show ?thesis
    using a Append_wait_eq [OF assms(1) a] b1 b2 b3 b4 by (auto simp: writeRecord_def flush_and_sync_def)
qed

subsection \<open>Properties\<close>

text \<open>C5. Durability. Open the log on complete old records and run the group commit in any
  interleaving of appends, batches, failing system calls and \<open>Close\<close>. Whatever a crash leaves of
  the file, replaying it gives the old records, then a list of records that contains all records
  acknowledged without an error, in their order.\<close>

theorem wal_durable:
  assumes "\<forall>d\<in>set ds0. length d < 2 ^ 32" "wal_reach (wal_Open (log_bytes ds0) script) w" "c \<in> wal_crash w"
  shows "\<exists>rs. ReadAll (Some c) = (ds0 @ rs, None) \<and> subseq (acked w) rs"
  using wal_inv_recover [OF wal_inv_reach [OF assms(2) wal_inv_Open] assms(1,3)] .

lemma one_append:
  assumes "length d < 2 ^ 32"
  shows "\<exists>w. wal_reach (wal_Open [] []) w \<and> acked w = [d]"
proof -
  let ?r = "\<lparr>reqId = 0, data = d\<rparr>"
  let ?w = "(wal_Open [] [])\<lparr>pending := [?r]\<rparr>"
  have "wal_step (wal_Open [] []) ?w"
    using assms by (intro wal_step.append [of ?r]) (simp_all add: wal_Append_def wal_Open_def)
  moreover have "wal_step ?w (loop_take ?w)" by (rule wal_step.take) (simp_all add: wal_Open_def)
  moreover have "wal_step (loop_take ?w) (loop_commit (loop_take ?w))"
    by (rule wal_step.commit) (simp_all add: wal_Open_def loop_take_def)
  ultimately have "wal_reach (wal_Open [] []) (loop_commit (loop_take ?w))"
    by (meson wal_reach.intros)
  moreover obtain w' where a: "wal_Append_wait (wal_Open [] []) d = Some (w', None)"
    using Append_wait_calm [OF wal_idle_Open, of "[]" "[]"] by (auto simp: calm_def wal_Open_def NewWriterSize_def)
  then have "w' = loop_commit (loop_take ?w)"
    by (auto simp: wal_Append_wait_def wal_Append_def wal_Open_def Let_def split: if_splits)
  moreover have "acked w' = [d]"
    using Append_wait_ok [OF wal_clean_Open [of "[]", simplified] a] by (simp add: acked_def wal_Open_def)
  ultimately show ?thesis by blast
qed

lemma crash_keeps_file: "fdata (bfile (bw w)) \<in> wal_crash w"
  by (auto simp: wal_crash_def crash_images_def intro!: exI [of _ "fsynced (bfile (bw w)) + length (fdata (bfile (bw w)))"])

theorem wal_durable_witness:
  "\<exists>w rs. wal_reach (wal_Open [] []) w \<and> acked w = [[1, 2]] \<and> ReadAll (Some (fdata (bfile (bw w)))) = (rs, None) \<and>
     subseq [[1, 2]] rs"
proof -
  obtain w where "wal_reach (wal_Open [] []) w" "acked w = [[1, 2]]" using one_append [of "[1, 2]"] by auto
  then show ?thesis using wal_durable [of "[]" "[]" w, OF _ _ crash_keeps_file] by auto
qed

text \<open>C24. Torn tail. Replaying a log that was cut at any byte returns, without an error, exactly the
  records that are complete in what is left.\<close>

theorem replay_torn_log:
  assumes "\<forall>d\<in>set ds. length d < 2 ^ 32"
  shows "\<exists>j. ReadAll (Some (take n (log_bytes ds))) = (take j ds, None) \<and> length (log_bytes (take j ds)) \<le> n \<and>
    (\<forall>i\<le>length ds. length (log_bytes (take i ds)) \<le> n \<longrightarrow> i \<le> j)"
  using ReadAll_prefix [OF assms, of n "[]"] by (simp add: ReadAll_def)

theorem replay_torn_log_witness:
  "\<exists>j. ReadAll (Some (take 12 (log_bytes [[1], [2]]))) = (take j [[1], [2]], None) \<and> 1 \<le> j"
proof -
  obtain j where "ReadAll (Some (take 12 (log_bytes [[1], [2]]))) = (take j [[1], [2]], None)"
      "\<forall>i\<le>2. length (log_bytes (take i [[1], [2]])) \<le> 12 \<longrightarrow> i \<le> j"
    using replay_torn_log [of "[[1], [2]]" 12] by auto
  then show ?thesis by (auto simp: length_encode_record dest!: spec [of _ 1])
qed

lemma ReadAll_loop_log:
  "\<forall>d\<in>set ds. length d < 2 ^ 32 \<Longrightarrow> ReadAll_loop (log_bytes ds @ f) acc = ReadAll_loop f (acc @ ds)"
  by (induction ds arbitrary: acc) (auto simp: ReadAll_record)

text \<open>C25. Corruption. A record whose bytes no longer match its checksum ends the replay with
  \<open>ErrChecksumMismatch\<close>; the records before it are returned, nothing of it or after it is.\<close>

theorem replay_corrupt_record:
  assumes "\<forall>d\<in>set ds. length d < 2 ^ 32" "length d < 2 ^ 32" "length d' = length d" "ChecksumIEEE d' \<noteq> ChecksumIEEE d"
  shows "ReadAll (Some (log_bytes ds @ record_header d @ d' @ rest)) = (ds, Some ErrChecksumMismatch)"
proof -
  have "unat (Uint32 (take 4 (record_header d))) = length d'" "Uint32 (drop 4 (record_header d)) = ChecksumIEEE d"
    using assms(2,3) by (simp_all add: record_header_def unat_word_of_nat_32)
  then show ?thesis
    using assms(1,4) by (simp add: ReadAll_def ReadAll_loop_log recordHeaderSize_def ReadAll_loop.simps [of "record_header d @ _"])
qed

theorem replay_corrupt_record_witness:
  "ReadAll (Some (log_bytes [[7]] @ record_header [1] @ [2] @ [])) = ([[7]], Some ErrChecksumMismatch)"
proof (rule replay_corrupt_record)
  show "ChecksumIEEE [2] \<noteq> ChecksumIEEE [1]" by code_simp
qed simp_all

text \<open>C36. \<open>Open\<close> appends behind a torn tail without truncating it. A record acknowledged after
  such a restart is written, flushed and synced, and the next replay does not return it.\<close>

theorem torn_tail_hides_new_records:
  "\<exists>w. wal_Append_wait (wal_Open (log_bytes [[1]] @ take 3 (encode_record [2])) []) [9] = Some (w, None) \<and>
     durable (bw w) = length (stored (bw w)) \<and> ReadAll (Some (stored (bw w))) = ([[1]], Some ErrChecksumMismatch)"
proof -
  let ?f = "log_bytes [[1]] @ take 3 (encode_record [2])"
  obtain w where w: "wal_Append_wait (wal_Open ?f []) [9] = Some (w, None)"
    using Append_wait_calm [OF wal_idle_Open, of ?f "[]"] by (auto simp: calm_def wal_Open_def NewWriterSize_def)
  from Append_wait_at [OF wal_at_Open w] have "stored (bw w) = ?f @ encode_record [9]" "durable (bw w) = length (stored (bw w))"
    by (auto simp: wal_at_def)
  moreover have "ReadAll (Some (?f @ encode_record [9])) = ([[1]], Some ErrChecksumMismatch)" by code_simp
  ultimately show ?thesis using w by auto
qed

lemma write_batch_ok:
  "bw_inv b \<Longrightarrow> berr b = None \<Longrightarrow> write_batch b reqs None = (b', None) \<Longrightarrow>
   bw_inv b' \<and> berr b' = None \<and> accepted b' = accepted b @ log_bytes (map data reqs)"
proof (induction reqs arbitrary: b)
  case (Cons r reqs)
  have stop: "write_batch b1 rs (Some x) = (b1, Some x)" for b1 rs x by (induction rs) auto
  obtain b1 e where w: "writeRecord b (data r) = (b1, e)" by force
  then have "e = None" using Cons.prems(3) stop by (cases e) auto
  then show ?case using Cons writeRecord_ok [OF Cons.prems(1,2)] w by fastforce
qed simp

lemma write_batch_sticky: "berr b \<noteq> None \<Longrightarrow> reqs \<noteq> [] \<Longrightarrow> snd (write_batch b reqs None) \<noteq> None"
proof -
  have stop: "write_batch b1 rs (Some x) = (b1, Some x)" for b1 rs x by (induction rs) auto
  assume "berr b \<noteq> None" "reqs \<noteq> []"
  then obtain x r rs where "berr b = Some x" "reqs = r # rs" by (cases reqs) auto
  then show ?thesis using bw_Write_sticky [of b "record_header (data r)"] stop by (simp add: writeRecord_def)
qed

lemma write_batch_calm: "calm b \<Longrightarrow> \<exists>b'. write_batch b reqs None = (b', None) \<and> calm b'"
proof (induction reqs arbitrary: b)
  case (Cons r reqs)
  obtain b1 n where b1: "bw_Write b (record_header (data r)) = (b1, n, None)" "calm b1" using calm_Write [OF Cons.prems] by blast
  obtain b2 m where b2: "bw_Write b1 (data r) = (b2, m, None)" "calm b2" using calm_Write [OF b1(2)] by blast
  then show ?case using Cons.IH [OF b2(2)] b1 by (simp add: writeRecord_def)
qed simp

text \<open>C23. One turn of the commit loop on an open log answers every pending request, leaves none behind, and tells
  the truth. In any state that a log opened on complete records reaches between two batches: all requests get
  one outcome; if it is success, the file holds everything accepted before and then the records of exactly
  these requests, in order, and all of it is synced; after an earlier write error the outcome is an
  error; and if no system call fails, it is success.\<close>

theorem commit_answers_all:
  assumes "wal_reach (wal_Open (log_bytes ds0) script) w" "\<not> closed w" "pending w \<noteq> []"
  shows "\<exists>err. results (loop_commit (loop_take w)) = results w @ map (\<lambda>r. (r, err)) (pending w) \<and>
    pending (loop_commit (loop_take w)) = [] \<and> batch (loop_commit (loop_take w)) = [] \<and>
    (err = None \<longrightarrow> stored (bw (loop_commit (loop_take w))) = accepted (bw w) @ log_bytes (map data (pending w)) \<and>
       durable (bw (loop_commit (loop_take w))) = length (stored (bw (loop_commit (loop_take w))))) \<and>
    (berr (bw w) \<noteq> None \<longrightarrow> err \<noteq> None) \<and> (calm (bw w) \<longrightarrow> err = None)"
proof -
  have inv: "bw_inv (bw w)" using wal_inv_reach [OF assms(1) wal_inv_Open] by (auto simp: wal_inv_def)
  obtain b1 we where w1: "write_batch (bw w) (pending w) None = (b1, we)" by force
  obtain b2 se where w2: "(if we = None then flush_and_sync b1 else (b1, None)) = (b2, se)" by force
  let ?err = "if we \<noteq> None then we else se"
  have w': "loop_commit (loop_take w) = w\<lparr>bw := b2, batch := [], pending := [], results := results w @ map (\<lambda>r. (r, ?err)) (pending w)\<rparr>"
    using assms(2,3) w1 w2 by (simp add: loop_take_def loop_commit_def)
  have sticky: "berr (bw w) \<noteq> None \<Longrightarrow> we \<noteq> None" using write_batch_sticky [OF _ assms(3), of "bw w"] w1 by simp
  have "stored b2 = accepted (bw w) @ log_bytes (map data (pending w)) \<and> durable b2 = length (stored b2)" if "?err = None"
  proof -
    have n: "we = None" "se = None" using that by (auto split: if_splits)
    then have 1: "bw_inv b1" "berr b1 = None" "accepted b1 = accepted (bw w) @ log_bytes (map data (pending w))"
      using write_batch_ok [OF inv, of "pending w" b1] sticky w1 by blast+
    obtain b where f: "bw_Flush b1 = (b, None)" "bw_Sync b = (b2, None)"
      using w2 n by (auto simp: flush_and_sync_def split: prod.splits option.splits)
    then show ?thesis using bw.flush_ok [OF 1(1,2) f(1)] bw.sync_ok [OF _ f(2)] 1(3) by auto
  qed
  moreover have "?err = None" if "calm (bw w)"
  proof -
    have c: "we = None" "calm b1" using write_batch_calm [OF that, of "pending w"] w1 by auto
    obtain b where "bw_Flush b1 = (b, None)" "calm b" using calm_Flush [OF c(2)] by blast
    then show ?thesis using w2 c(1) calm_Sync [of b] by (auto simp: flush_and_sync_def)
  qed
  ultimately show ?thesis using sticky by (intro exI [of _ ?err]) (auto simp: w')
qed

theorem commit_answers_all_witness:
  "\<exists>w. wal_reach (wal_Open (log_bytes []) []) w \<and> pending w = [\<lparr>reqId = 0, data = [1]\<rparr>] \<and>
     results (loop_commit (loop_take w)) = [(\<lparr>reqId = 0, data = [1]\<rparr>, None)] \<and>
     stored (bw (loop_commit (loop_take w))) = log_bytes [[1]]"
proof -
  let ?r = "\<lparr>reqId = 0, data = [1]\<rparr>"
  let ?w = "(wal_Open (log_bytes []) [])\<lparr>pending := [?r]\<rparr>"
  have "wal_step (wal_Open (log_bytes []) []) ?w"
    by (intro wal_step.append [of ?r]) (simp_all add: wal_Append_def wal_Open_def)
  then have reach: "wal_reach (wal_Open (log_bytes []) []) ?w" by (meson wal_reach.intros)
  have "calm (bw ?w)" "accepted (bw ?w) = []" by (simp_all add: calm_def wal_Open_def NewWriterSize_def accepted_def)
  with commit_answers_all [OF reach] reach show ?thesis by (intro exI [of _ ?w]) (auto simp: wal_Open_def)
qed

text \<open>\<open>Close\<close> strands the requests it finds pending: once the log is closed and the loop holds
  no batch, no later step answers them, and their \<open>Append\<close> never returns.\<close>

theorem close_strands_pending:
  assumes "wal_reach w w'" "closed w" "batch w = []"
  shows "results w' = results w \<and> pending w' = pending w"
proof -
  have "closed w' \<and> batch w' = [] \<and> results w' = results w \<and> pending w' = pending w"
    using assms
  proof (induction rule: wal_reach.induct)
    case (extend w w' w'')
    then have "closed w'" "batch w' = []" "results w' = results w" "pending w' = pending w" by auto
    with extend.hyps(2) show ?case
      by (cases rule: wal_step.cases)
        (auto simp: wal_Append_def loop_take_def wal_Close_begin_def wal_Close_finish_def split: prod.splits option.splits)
  qed simp
  then show ?thesis by simp
qed

theorem close_strands_pending_witness:
  "\<exists>w. wal_Close_begin ((wal_Open [] [])\<lparr>pending := [\<lparr>reqId = 0, data = [1]\<rparr>]\<rparr>) = Some w \<and>
     results (loop_take w) = [] \<and> pending (loop_take w) = [\<lparr>reqId = 0, data = [1]\<rparr>]"
proof -
  let ?w = "(wal_Open [] [])\<lparr>pending := [\<lparr>reqId = 0, data = [1]\<rparr>], closed := True\<rparr>"
  have "wal_step ?w (loop_take ?w)" by (rule wal_step.take) (simp_all add: wal_Open_def)
  then have "wal_reach ?w (loop_take ?w)" by (meson wal_reach.intros)
  from close_strands_pending [OF this] show ?thesis by (auto simp: wal_Close_begin_def wal_Open_def)
qed

end
