(* ===== verification/Bloom.thy ===== *)
theory Bloom
  imports Prelude Complex_Main
begin

text \<open>
  \<open>internal/storage/bloom/bloom.go\<close>: the Bloom filter of an SSTable reader. The bit array is
  a list of 64-bit words and all hash arithmetic wraps as \<open>uint64\<close> does. A division by a zero
  \<open>m\<close> and an index outside \<open>bits\<close> panic (\<open>None\<close>). \<open>optimalM\<close> and
  \<open>optimalK\<close> compute in \<open>float64\<close>; the model computes them over the reals, without
  rounding, and everything below holds for any sizes with \<open>m > 0\<close>.

  \<open>membership_filter\<close> is the contract the reader relies on: a key that was added is reported.
\<close>

record bfilter =
  bits :: "u64 list"
  fk :: nat
  fm :: nat

definition optimalM :: "nat \<Rightarrow> real \<Rightarrow> nat" where
  "optimalM n p = nat \<lceil>- real n * ln p / (ln 2 * ln 2)\<rceil>"

definition optimalK :: "nat \<Rightarrow> nat \<Rightarrow> nat" where
  "optimalK m n = (let k = nat (round (real m / real n * ln 2)) in if k < 1 then 1 else k)"

definition bloom_New :: "nat \<Rightarrow> real \<Rightarrow> bfilter" where
  "bloom_New n p = (let m = optimalM n p in
     \<lparr>bits = replicate ((m + 63) div 64) 0, fk = optimalK m n, fm = m\<rparr>)"

definition fnv_step :: "u64 \<Rightarrow> byte \<Rightarrow> u64" where
  "fnv_step h b = (h XOR ucast b) * 1099511628211"

definition bloom_hash :: "bytes \<Rightarrow> u64 \<times> u64" where
  "bloom_hash d = (
     let h = foldl fnv_step 14695981039346656037 d;
         h2 = h XOR drop_bit 33 h;
         h2 = h2 * 0xff51afd7ed558ccd;
         h2 = h2 XOR drop_bit 33 h2
     in (h, h2))"

text \<open>\<open>pos := (h1 + uint64(i)*h2) \% uint64(f.m)\<close>\<close>

definition bloom_pos :: "bfilter \<Rightarrow> u64 \<Rightarrow> u64 \<Rightarrow> nat \<Rightarrow> nat" where
  "bloom_pos f h1 h2 i = unat (h1 + word_of_nat i * h2) mod fm f"

function Add_loop :: "bfilter \<Rightarrow> u64 \<Rightarrow> u64 \<Rightarrow> nat \<Rightarrow> bfilter option" where
  "Add_loop f h1 h2 i =
     (if i < fk f then
        if fm f = 0 then None
        else let pos = bloom_pos f h1 h2 i in
          if pos div 64 < length (bits f)
          then Add_loop (f\<lparr>bits := (bits f)[pos div 64 := bits f ! (pos div 64) OR push_bit (pos mod 64) 1]\<rparr>)
                 h1 h2 (i + 1)
          else None
      else Some f)"
  by pat_completeness auto
termination
  by (relation "measure (\<lambda>(f, h1, h2, i). fk f - i)") auto

definition bloom_Add :: "bfilter \<Rightarrow> bytes \<Rightarrow> bfilter option" where
  "bloom_Add f key = (case bloom_hash key of (h1, h2) \<Rightarrow> Add_loop f h1 h2 0)"

function Contains_loop :: "bfilter \<Rightarrow> u64 \<Rightarrow> u64 \<Rightarrow> nat \<Rightarrow> bool option" where
  "Contains_loop f h1 h2 i =
     (if i < fk f then
        if fm f = 0 then None
        else let pos = bloom_pos f h1 h2 i in
          if pos div 64 < length (bits f) then
            if bits f ! (pos div 64) AND push_bit (pos mod 64) 1 = 0 then Some False
            else Contains_loop f h1 h2 (i + 1)
          else None
      else Some True)"
  by pat_completeness auto
termination
  by (relation "measure (\<lambda>(f, h1, h2, i). fk f - i)") auto

definition bloom_Contains :: "bfilter \<Rightarrow> bytes \<Rightarrow> bool option" where
  "bloom_Contains f key = (case bloom_hash key of (h1, h2) \<Rightarrow> Contains_loop f h1 h2 0)"

text \<open>Well-formed filters, and whether a bit position is set.\<close>

definition bloom_inv :: "bfilter \<Rightarrow> bool" where
  "bloom_inv f \<longleftrightarrow> 0 < fm f \<and> length (bits f) = (fm f + 63) div 64"

definition bit_at :: "bfilter \<Rightarrow> nat \<Rightarrow> bool" where
  "bit_at f pos = bit (bits f ! (pos div 64)) (pos mod 64)"

definition positions :: "bfilter \<Rightarrow> bytes \<Rightarrow> nat set" where
  "positions f key = {bloom_pos f (fst (bloom_hash key)) (snd (bloom_hash key)) i | i. i < fk f}"

locale membership_filter =
  fixes invar :: "'f \<Rightarrow> bool"
    and add :: "'f \<Rightarrow> bytes \<Rightarrow> 'f option"
    and query :: "'f \<Rightarrow> bytes \<Rightarrow> bool option"
  assumes add_law: "invar f \<Longrightarrow> \<exists>f'. add f x = Some f' \<and> invar f' \<and> query f' x = Some True \<and>
        (\<forall>y. query f y = Some True \<longrightarrow> query f' y = Some True)"
    and query_law: "invar f \<Longrightarrow> \<exists>b. query f x = Some b"
begin

lemma add_all:
  "invar f \<Longrightarrow> \<exists>f'. foldM add f xs = Some f' \<and> invar f' \<and>
     (\<forall>y. y \<in> set xs \<or> query f y = Some True \<longrightarrow> query f' y = Some True)"
proof (induction xs arbitrary: f)
  case (Cons x xs)
  obtain f1 where f1: "add f x = Some f1" "invar f1" "query f1 x = Some True"
      "\<forall>y. query f y = Some True \<longrightarrow> query f1 y = Some True"
    using add_law [OF Cons.prems] by blast
  from Cons.IH [OF f1(2)] f1 show ?case by auto
qed auto

lemma query_False_absent:
  "invar f \<Longrightarrow> foldM add f xs = Some f' \<Longrightarrow> query f' y = Some False \<Longrightarrow> y \<notin> set xs"
  using add_all [of f xs] by auto

end

subsection \<open>The filter meets the contract\<close>

declare Add_loop.simps [simp del] Contains_loop.simps [simp del]

lemma pos_lt: "bloom_inv f \<Longrightarrow> bloom_pos f h1 h2 i < fm f"
  by (simp add: bloom_inv_def bloom_pos_def)

lemma pos_index: "bloom_inv f \<Longrightarrow> bloom_pos f h1 h2 i div 64 < length (bits f)"
  using pos_lt [of f h1 h2 i] by (simp add: bloom_inv_def)

lemma test_bit: "w AND push_bit n 1 = 0 \<longleftrightarrow> \<not> bit w n" if "n < 64" for w :: u64
proof
  assume "w AND push_bit n 1 = 0"
  then have "bit (w AND push_bit n 1) n = bit (0 :: u64) n" by simp
  then show "\<not> bit w n" using that by (simp add: bit_simps)
next
  assume "\<not> bit w n"
  then show "w AND push_bit n 1 = 0"
    by (intro bit_word_eqI) (auto simp: bit_simps)
qed

lemma test_bit_mod: "w AND 2 ^ (q mod 64) = 0 \<longleftrightarrow> \<not> bit w (q mod 64)" for w :: u64
  using test_bit [of "q mod 64" w] by simp

lemma Contains_loop_spec:
  "bloom_inv f \<Longrightarrow> Contains_loop f h1 h2 i = Some (\<forall>j. i \<le> j \<and> j < fk f \<longrightarrow> bit_at f (bloom_pos f h1 h2 j))"
proof (induction f h1 h2 i rule: Contains_loop.induct)
  case (1 f h1 h2 i)
  show ?case
  proof (cases "i < fk f")
    case True
    have "fm f \<noteq> 0" using "1.prems" by (simp add: bloom_inv_def)
    show ?thesis
    proof (cases "bit_at f (bloom_pos f h1 h2 i)")
      case bit: True
      then have "Contains_loop f h1 h2 i = Contains_loop f h1 h2 (i + 1)"
        using True "1.prems" \<open>fm f \<noteq> 0\<close> pos_index [of f h1 h2 i]
        by (subst Contains_loop.simps) (simp add: Let_def test_bit_mod bit_at_def)
      also have "\<dots> = Some (\<forall>j. i + 1 \<le> j \<and> j < fk f \<longrightarrow> bit_at f (bloom_pos f h1 h2 j))"
        using "1.IH" True "1.prems" bit \<open>fm f \<noteq> 0\<close> pos_index [of f h1 h2 i] by (simp add: test_bit_mod bit_at_def)
      also have "(\<forall>j. i + 1 \<le> j \<and> j < fk f \<longrightarrow> bit_at f (bloom_pos f h1 h2 j)) =
          (\<forall>j. i \<le> j \<and> j < fk f \<longrightarrow> bit_at f (bloom_pos f h1 h2 j))"
        using bit by (metis Suc_eq_plus1 Suc_leI le_neq_implies_less Suc_leD)
      finally show ?thesis .
    next
      case False
      then have "Contains_loop f h1 h2 i = Some False"
        using True "1.prems" \<open>fm f \<noteq> 0\<close> pos_index [of f h1 h2 i]
        by (subst Contains_loop.simps) (simp add: Let_def test_bit_mod bit_at_def)
      then show ?thesis using False True by auto
    qed
  next
    case False
    then show ?thesis by (subst Contains_loop.simps) auto
  qed
qed

lemma bit_at_set:
  assumes "pos div 64 < length (bits f)"
  shows "bit_at (f\<lparr>bits := (bits f)[pos div 64 := bits f ! (pos div 64) OR push_bit (pos mod 64) 1]\<rparr>) q \<longleftrightarrow>
    bit_at f q \<or> q = pos"
proof (cases "q div 64 = pos div 64")
  case True
  then have "q = pos \<longleftrightarrow> q mod 64 = pos mod 64" by (metis div_mult_mod_eq)
  then show ?thesis using assms True by (auto simp: bit_at_def bit_simps)
next
  case False
  then show ?thesis using assms by (auto simp: bit_at_def)
qed

lemma Add_loop_spec:
  "bloom_inv f \<Longrightarrow> \<exists>f'. Add_loop f h1 h2 i = Some f' \<and> bloom_inv f' \<and> fk f' = fk f \<and> fm f' = fm f \<and>
     (\<forall>q. bit_at f' q \<longleftrightarrow> bit_at f q \<or> (\<exists>j. i \<le> j \<and> j < fk f \<and> q = bloom_pos f h1 h2 j))"
proof (induction f h1 h2 i rule: Add_loop.induct)
  case (1 f h1 h2 i)
  show ?case
  proof (cases "i < fk f")
    case True
    let ?p = "bloom_pos f h1 h2 i"
    let ?f = "f\<lparr>bits := (bits f)[?p div 64 := bits f ! (?p div 64) OR push_bit (?p mod 64) 1]\<rparr>"
    have m: "fm f \<noteq> 0" and ix: "?p div 64 < length (bits f)"
      using "1.prems" pos_index [of f h1 h2 i] by (auto simp: bloom_inv_def)
    have "bloom_inv ?f" using "1.prems" by (simp add: bloom_inv_def)
    then obtain f' where f': "Add_loop ?f h1 h2 (i + 1) = Some f'" "bloom_inv f'" "fk f' = fk f" "fm f' = fm f"
      "\<forall>q. bit_at f' q \<longleftrightarrow> bit_at ?f q \<or> (\<exists>j. i + 1 \<le> j \<and> j < fk f \<and> q = bloom_pos ?f h1 h2 j)"
      using "1.IH" [OF True m refl ix] by auto
    have "bloom_pos ?f h1 h2 j = bloom_pos f h1 h2 j" for j by (simp add: bloom_pos_def)
    then have "bit_at f' q \<longleftrightarrow> bit_at f q \<or> (\<exists>j. i \<le> j \<and> j < fk f \<and> q = bloom_pos f h1 h2 j)" for q
      using f'(5) bit_at_set [OF ix] True
      by (metis Suc_eq_plus1 Suc_leI le_neq_implies_less Suc_leD order_refl)
    then show ?thesis
      using True m ix f'(1-4) by (auto simp: Add_loop.simps [of f] Let_def)
  next
    case False
    then show ?thesis using "1.prems" by (auto simp: Add_loop.simps [of f])
  qed
qed

lemma Contains_positions: "bloom_inv f \<Longrightarrow> bloom_Contains f x = Some (\<forall>q\<in>positions f x. bit_at f q)"
  by (auto simp: bloom_Contains_def Contains_loop_spec positions_def split: prod.splits)

lemma Add_positions:
  "bloom_inv f \<Longrightarrow> \<exists>f'. bloom_Add f x = Some f' \<and> bloom_inv f' \<and> fk f' = fk f \<and> fm f' = fm f \<and>
     (\<forall>q. bit_at f' q \<longleftrightarrow> bit_at f q \<or> q \<in> positions f x)"
  using Add_loop_spec [of f "fst (bloom_hash x)" "snd (bloom_hash x)" 0]
  by (auto simp: bloom_Add_def positions_def split: prod.splits)

lemma positions_cong: "fk f' = fk f \<Longrightarrow> fm f' = fm f \<Longrightarrow> positions f' x = positions f x"
  by (simp add: positions_def bloom_pos_def)

interpretation bloom: membership_filter bloom_inv bloom_Add bloom_Contains
proof unfold_locales
  fix f x assume f: "bloom_inv f"
  then obtain f' where f': "bloom_Add f x = Some f'" "bloom_inv f'" "fk f' = fk f" "fm f' = fm f"
      "\<forall>q. bit_at f' q \<longleftrightarrow> bit_at f q \<or> q \<in> positions f x"
    using Add_positions by blast
  then show "\<exists>f'. bloom_Add f x = Some f' \<and> bloom_inv f' \<and> bloom_Contains f' x = Some True \<and>
      (\<forall>y. bloom_Contains f y = Some True \<longrightarrow> bloom_Contains f' y = Some True)"
    using f positions_cong [OF f'(3,4)] by (auto simp: Contains_positions)
  show "\<exists>b. bloom_Contains f x = Some b" using f by (simp add: Contains_positions)
qed

lemma optimalM_pos: "1 \<le> n \<Longrightarrow> 0 < p \<Longrightarrow> p < 1 \<Longrightarrow> 0 < optimalM n p"
proof -
  assume *: "1 \<le> n" "0 < p" "p < 1"
  then have "ln p < 0" by simp
  then have "0 < - real n * ln p / (ln 2 * ln 2)"
    using *(1) by (intro divide_pos_pos) (auto simp: mult_neg_neg mult_pos_neg)
  then show ?thesis by (simp add: optimalM_def)
qed

lemma bloom_inv_New: "1 \<le> n \<Longrightarrow> 0 < p \<Longrightarrow> p < 1 \<Longrightarrow> bloom_inv (bloom_New n p)"
  by (simp add: bloom_New_def bloom_inv_def Let_def optimalM_pos)

subsection \<open>Properties\<close>

text \<open>C26. No false negatives: a filter made for at least one element with a probability strictly
  between 0 and 1 accepts any number of \<open>Add\<close> calls without a panic and afterwards reports every
  added key.\<close>

theorem bloom_no_false_negative:
  assumes "1 \<le> n" "0 < p" "p < 1"
  shows "\<exists>f. foldM bloom_Add (bloom_New n p) keys = Some f \<and> bloom_inv f \<and>
    (\<forall>k\<in>set keys. bloom_Contains f k = Some True)"
  using bloom.add_all [OF bloom_inv_New [OF assms], of keys] by blast

theorem bloom_no_false_negative_witness:
  "\<exists>f. foldM bloom_Add (bloom_New 1 (1 / 100)) [[1], [2, 3]] = Some f \<and> bloom_Contains f [2, 3] = Some True"
  using bloom_no_false_negative [of 1 "1 / 100" "[[1], [2, 3]]"] by auto

text \<open>\<open>Contains\<close> answers true exactly when all \<open>k\<close> probed bits are set, and \<open>Add\<close> sets
  exactly those bits: a key is reported falsely only when other keys set all of its bits.\<close>

theorem bloom_bits:
  assumes "bloom_inv f"
  shows "\<exists>f'. bloom_Add f x = Some f' \<and> bloom_inv f' \<and> (\<forall>q. bit_at f' q \<longleftrightarrow> bit_at f q \<or> q \<in> positions f x) \<and>
    (\<forall>y. bloom_Contains f' y = Some (positions f y \<subseteq> {q. bit_at f q} \<union> positions f x))"
proof -
  obtain f' where f': "bloom_Add f x = Some f'" "bloom_inv f'" "fk f' = fk f" "fm f' = fm f"
      "\<forall>q. bit_at f' q \<longleftrightarrow> bit_at f q \<or> q \<in> positions f x"
    using Add_positions [OF assms] by blast
  then show ?thesis using positions_cong [OF f'(3,4)] by (auto simp: Contains_positions [OF f'(2)])
qed

theorem bloom_bits_witness:
  "\<exists>f'. bloom_Add \<lparr>bits = [0], fk = 2, fm = 64\<rparr> [1] = Some f' \<and> bloom_inv f'"
  using bloom_bits [of "\<lparr>bits = [0], fk = 2, fm = 64\<rparr>" "[1]"] by (auto simp: bloom_inv_def)

end
