(* ===== verification/Sstable.thy ===== *)
theory Sstable
  imports Files Bloom Memtable
begin

text \<open>
  \<open>internal/storage/sstable/sstable.go\<close>: the immutable table files. The writer encodes the
  entries, then an index block and a footer; the reader loads the index, builds a Bloom filter
  over its keys, and looks keys up by binary search or scans from a start key. Reading past a
  slice's end panics (\<open>None\<close>), a failed read or seek is an error (\<open>Inl\<close>).
  The file is byte-exact, so the theory can also say what the reader does with bytes that are
  not entries.
\<close>

definition magic :: u64 where
  "magic = 0x4F434B5653535442"

definition footerSize :: nat where
  "footerSize = 24"

record indexEntry =
  iKey :: bytes
  iOffset :: i64

record writer =
  wbw :: bufw
  windex :: "indexEntry list"
  woffset :: i64
  wcount :: nat

definition NewWriter :: "nat option list \<Rightarrow> writer" where
  "NewWriter script = \<lparr>wbw = NewWriterSize \<lparr>fdata = [], fsynced = 0, fscript = script\<rparr>,
     windex = [], woffset = 0, wcount = 0\<rparr>"

definition encode_entry :: "entry \<Rightarrow> bytes" where
  "encode_entry e = PutUint32 (word_of_nat (length (Key e))) @ Key e @
     PutUint32 (word_of_nat (length (Value e))) @ Value e @ PutUint64 (Version e) @
     [if Deleted e then 1 else 0]"

definition sst_Write :: "writer \<Rightarrow> entry \<Rightarrow> writer \<times> goerror option" where
  "sst_Write w e =
     (case bw_Write (wbw w) (encode_entry e) of (b, n, err) \<Rightarrow>
        (w\<lparr>wbw := b, windex := windex w @ [\<lparr>iKey = Key e, iOffset = woffset w\<rparr>],
           woffset := woffset w + word_of_nat n, wcount := wcount w + 1\<rparr>, err))"

text \<open>The loop both callers run: stop at the first error.\<close>

fun sst_write_all :: "writer \<Rightarrow> entry list \<Rightarrow> writer \<times> goerror option" where
  "sst_write_all w [] = (w, None)"
| "sst_write_all w (e # es) =
     (case sst_Write w e of (w', Some err) \<Rightarrow> (w', Some err) | (w', None) \<Rightarrow> sst_write_all w' es)"

definition encode_index :: "indexEntry \<Rightarrow> bytes" where
  "encode_index ie = PutUint32 (word_of_nat (length (iKey ie))) @ iKey ie @ PutUint64 (iOffset ie)"

fun write_index :: "bufw \<Rightarrow> indexEntry list \<Rightarrow> bufw \<times> goerror option" where
  "write_index b [] = (b, None)"
| "write_index b (ie # ies) =
     (case bw_Write b (encode_index ie) of
        (b', n, Some e) \<Rightarrow> (b', Some e)
      | (b', n, None) \<Rightarrow> write_index b' ies)"

definition index_length :: "indexEntry list \<Rightarrow> nat" where
  "index_length ies = sum_list (map (\<lambda>ie. 4 + length (iKey ie) + 8) ies)"

definition footer_bytes :: "i64 \<Rightarrow> nat \<Rightarrow> nat \<Rightarrow> bytes" where
  "footer_bytes indexStart indexLen count = PutUint64 indexStart @ PutUint32 (word_of_nat indexLen) @
     PutUint32 (word_of_nat count) @ PutUint64 magic"

definition sst_Close :: "writer \<Rightarrow> writer \<times> goerror option" where
  "sst_Close w =
     (case write_index (wbw w) (windex w) of
        (b1, Some e) \<Rightarrow> (w\<lparr>wbw := b1\<rparr>, Some e)
      | (b1, None) \<Rightarrow>
          (case bw_Write b1 (footer_bytes (woffset w) (index_length (windex w)) (wcount w)) of
             (b2, n, Some e) \<Rightarrow> (w\<lparr>wbw := b2\<rparr>, Some e)
           | (b2, n, None) \<Rightarrow>
               (case bw_Flush b2 of
                  (b3, Some e) \<Rightarrow> (w\<lparr>wbw := b3\<rparr>, Some e)
                | (b3, None) \<Rightarrow>
                    (case bw_Sync b3 of
                       (b4, Some e) \<Rightarrow> (w\<lparr>wbw := b4\<rparr>, Some e)
                     | (b4, None) \<Rightarrow> (case bw_Close b4 of (b5, e) \<Rightarrow> (w\<lparr>wbw := b5\<rparr>, e))))))"

record reader =
  rfile :: bytes
  rindex :: "indexEntry list"
  rfilter :: bfilter
  rcount :: nat

text \<open>The loop of \<open>loadIndex\<close> over the index block.\<close>

function parse_index :: "bytes \<Rightarrow> indexEntry list option" where
  "parse_index buf =
     (if buf = [] then Some []
      else if length buf < 4 then None
      else let klen = unat (Uint32 buf) in
        if length buf < 4 + klen then None
        else if length buf < 4 + klen + 8 then None
        else Option.bind (parse_index (drop (4 + klen + 8) buf)) (\<lambda>ies.
          Some (\<lparr>iKey = take klen (drop 4 buf), iOffset = Uint64 (drop (4 + klen) buf)\<rparr> # ies)))"
  by pat_completeness auto
termination
  by (relation "measure length") auto

definition seek_start :: "bytes \<Rightarrow> i64 \<Rightarrow> bytes result" where
  "seek_start f off = (if sint off < 0 then Inl SeekError else Inr (drop (unat off) f))"

definition loadIndex :: "bytes \<Rightarrow> (indexEntry list \<times> nat) result option" where
  "loadIndex f =
     (if length f < footerSize then Some (Inl SeekError)
      else let footer = drop (length f - footerSize) f in
        if Uint64 (drop 16 footer) \<noteq> magic then Some (Inl InvalidMagic)
        else (case seek_start f (Uint64 footer) of
            Inl e \<Rightarrow> Some (Inl e)
          | Inr rest \<Rightarrow>
              (case ReadFull rest (unat (Uint32 (drop 8 footer))) of
                 Inl e \<Rightarrow> Some (Inl e)
               | Inr (buf, _) \<Rightarrow> Option.bind (parse_index buf) (\<lambda>ies.
                   Some (Inr (ies, unat (Uint32 (drop 12 footer))))))))"

definition buildBloom :: "nat \<Rightarrow> indexEntry list \<Rightarrow> bfilter option" where
  "buildBloom count ies = foldM bloom_Add (bloom_New (count + 1) (1 / 100)) (map iKey ies)"

text \<open>\<open>OpenReader\<close> on the content of the path, \<open>None\<close> when there is no such file.\<close>

definition OpenReader :: "bytes option \<Rightarrow> reader result option" where
  "OpenReader file =
     (case file of
        None \<Rightarrow> Some (Inl NotExist)
      | Some f \<Rightarrow> Option.bind (loadIndex f) (\<lambda>r. case r of
            Inl e \<Rightarrow> Some (Inl e)
          | Inr (ies, count) \<Rightarrow> Option.bind (buildBloom count ies) (\<lambda>bf.
              Some (Inr \<lparr>rfile = f, rindex = ies, rfilter = bf, rcount = count\<rparr>))))"

text \<open>\<open>readEntry\<close> from the bytes at the file position: the entry and what follows it.\<close>

definition readEntry :: "bytes \<Rightarrow> (entry \<times> bytes) result" where
  "readEntry rd =
     (case ReadFull rd 4 of Inl e \<Rightarrow> Inl e
      | Inr (hdr, rd1) \<Rightarrow>
     (case ReadFull rd1 (unat (Uint32 hdr)) of Inl e \<Rightarrow> Inl e
      | Inr (keyBytes, rd2) \<Rightarrow>
     (case ReadFull rd2 4 of Inl e \<Rightarrow> Inl e
      | Inr (hdr2, rd3) \<Rightarrow>
     (case ReadFull rd3 (unat (Uint32 hdr2)) of Inl e \<Rightarrow> Inl e
      | Inr (valBytes, rd4) \<Rightarrow>
     (case ReadFull rd4 9 of Inl e \<Rightarrow> Inl e
      | Inr (tail, rd5) \<Rightarrow>
          Inr (\<lparr>Key = keyBytes, Value = valBytes, Version = Uint64 tail, Deleted = (tail ! 8 = 1)\<rparr>, rd5))))))"

text \<open>The binary search of \<open>Get\<close>: \<open>Some None\<close> is \<open>idx == -1\<close>.\<close>

function index_search :: "indexEntry list \<Rightarrow> bytes \<Rightarrow> int \<Rightarrow> int \<Rightarrow> nat option option" where
  "index_search ies key lo hi =
     (if lo \<le> hi then
        let mid = (lo + hi) div 2 in
        if mid < 0 \<or> mid \<ge> int (length ies) then None
        else if iKey (ies ! nat mid) = key then Some (Some (nat mid))
        else if iKey (ies ! nat mid) < key then index_search ies key (mid + 1) hi
        else index_search ies key lo (mid - 1)
      else Some None)"
  by pat_completeness auto
termination
  by (relation "measure (\<lambda>(ies, key, lo, hi). nat (hi + 1 - lo))") auto

definition readAt :: "reader \<Rightarrow> i64 \<Rightarrow> (entry \<times> bool) result" where
  "readAt r offset =
     (case seek_start (rfile r) offset of
        Inl e \<Rightarrow> Inl e
      | Inr rd \<Rightarrow> (case readEntry rd of Inl e \<Rightarrow> Inl e | Inr (e, _) \<Rightarrow> Inr (e, True)))"

definition sst_Get :: "reader \<Rightarrow> bytes \<Rightarrow> (entry \<times> bool) result option" where
  "sst_Get r key = do {
     c \<leftarrow> bloom_Contains (rfilter r) key;
     (if \<not> c then Some (Inr (zeroEntry, False))
      else do {
        idx \<leftarrow> index_search (rindex r) key 0 (int (length (rindex r)) - 1);
        (case idx of
           None \<Rightarrow> Some (Inr (zeroEntry, False))
         | Some i \<Rightarrow> Some (readAt r (iOffset (rindex r ! i))))
      })
   }"

text \<open>The loop of \<open>Scan\<close>: read entries until the limit or an error.\<close>

function scan_read :: "bytes \<Rightarrow> int \<Rightarrow> entry list \<Rightarrow> entry list" where
  "scan_read rd limit results =
     (if limit > 0 \<and> int (length results) \<ge> limit then results
      else (case readEntry rd of
          Inl e \<Rightarrow> results
        | Inr (e, rd') \<Rightarrow> scan_read rd' limit (results @ [e])))"
  by pat_completeness auto
termination
  by (relation "measure (\<lambda>(rd, limit, results). length rd)")
    (auto simp: readEntry_def split: sum.splits dest!: ReadFull_Inr)

definition sst_Scan :: "reader \<Rightarrow> bytes \<Rightarrow> int \<Rightarrow> entry list result" where
  "sst_Scan r start limit =
     (case dropWhile (\<lambda>ie. iKey ie < start) (rindex r) of
        [] \<Rightarrow> Inr []
      | ie # _ \<Rightarrow> (case seek_start (rfile r) (iOffset ie) of
            Inl e \<Rightarrow> Inl e
          | Inr rd \<Rightarrow> Inr (scan_read rd limit [])))"

definition sst_Count :: "reader \<Rightarrow> nat" where
  "sst_Count r = rcount r"

text \<open>The file for a list of entries, and the lists a table can hold: sorted, with the sizes that
  the 32-bit and 64-bit length fields can express.\<close>

definition data_block :: "entry list \<Rightarrow> bytes" where
  "data_block es = concat (map encode_entry es)"

fun index_from :: "nat \<Rightarrow> entry list \<Rightarrow> indexEntry list" where
  "index_from off [] = []"
| "index_from off (e # es) =
     \<lparr>iKey = Key e, iOffset = word_of_nat off\<rparr> # index_from (off + length (encode_entry e)) es"

definition index_block :: "indexEntry list \<Rightarrow> bytes" where
  "index_block ies = concat (map encode_index ies)"

definition sst_bytes :: "entry list \<Rightarrow> bytes" where
  "sst_bytes es = data_block es @ index_block (index_from 0 es) @
     footer_bytes (word_of_nat (length (data_block es))) (index_length (index_from 0 es)) (length es)"

definition sst_fits :: "entry list \<Rightarrow> bool" where
  "sst_fits es \<longleftrightarrow> (\<forall>e\<in>set es. length (Key e) < 2 ^ 32 \<and> length (Value e) < 2 ^ 32) \<and>
     length (data_block es) < 2 ^ 63 \<and> index_length (index_from 0 es) < 2 ^ 32 \<and> length es < 2 ^ 32"

subsection \<open>Writing\<close>

lemma data_block_simps [simp]:
  "data_block [] = []" "data_block (e # es) = encode_entry e @ data_block es"
  "data_block (es @ fs) = data_block es @ data_block fs"
  by (simp_all add: data_block_def)

lemma index_block_simps [simp]:
  "index_block [] = []" "index_block (ie # ies) = encode_index ie @ index_block ies"
  by (simp_all add: index_block_def)

lemma length_index_block: "length (index_block ies) = index_length ies"
  by (induction ies) (auto simp: index_length_def encode_index_def)

lemma index_from_append:
  "index_from off (es @ fs) = index_from off es @ index_from (off + length (data_block es)) fs"
  by (induction es arbitrary: off) (auto simp: add.assoc)

lemma iKey_index_from [simp]: "map iKey (index_from off es) = map Key es"
  by (induction es arbitrary: off) auto

lemma index_from_keys: "iKey ` set (index_from off es) = Key ` set es"
  by (metis iKey_index_from list.set_map)

lemma length_index_from [simp]: "length (index_from off es) = length es"
  by (induction es arbitrary: off) auto

text \<open>A writer that has seen no error has accepted the data block of its entries and remembers
  their index.\<close>

definition writer_at :: "writer \<Rightarrow> entry list \<Rightarrow> bool" where
  "writer_at w es \<longleftrightarrow> bw_inv (wbw w) \<and> berr (wbw w) = None \<and> accepted (wbw w) = data_block es \<and>
     windex w = index_from 0 es \<and> woffset w = word_of_nat (length (data_block es)) \<and> wcount w = length es"

lemma NewWriter_at: "writer_at (NewWriter script) []"
  by (simp add: writer_at_def NewWriter_def NewWriterSize_def bw_inv_def accepted_def)

lemma sst_Write_at:
  assumes "writer_at w es" "sst_Write w e = (w', None)"
  shows "writer_at w' (es @ [e])"
proof -
  obtain b n err where b: "bw_Write (wbw w) (encode_entry e) = (b, n, err)" by (metis prod_cases3)
  then have "err = None" using assms(2) by (auto simp: sst_Write_def)
  with b assms bw.write_ok [of "wbw w" "encode_entry e" b n] show ?thesis
    by (auto simp: writer_at_def sst_Write_def index_from_append)
qed

lemma sst_write_all_at:
  "writer_at w es \<Longrightarrow> sst_write_all w fs = (w', None) \<Longrightarrow> writer_at w' (es @ fs)"
proof (induction fs arbitrary: w es)
  case (Cons f fs)
  then obtain w1 where "sst_Write w f = (w1, None)" "sst_write_all w1 fs = (w', None)"
    by (auto split: prod.splits option.splits)
  then show ?case using Cons.IH [of w1 "es @ [f]"] sst_Write_at [OF Cons.prems(1)] by simp
qed simp

lemma write_index_ok:
  "bw_inv b \<Longrightarrow> berr b = None \<Longrightarrow> write_index b ies = (b', None) \<Longrightarrow>
   bw_inv b' \<and> berr b' = None \<and> accepted b' = accepted b @ index_block ies"
proof (induction ies arbitrary: b)
  case (Cons ie ies)
  then obtain b1 n where w: "bw_Write b (encode_index ie) = (b1, n, None)" "write_index b1 ies = (b', None)"
    by (auto split: prod.splits option.splits)
  from bw.write_ok [OF Cons.prems(1,2) w(1)] Cons.IH [of b1] w(2) show ?case by auto
qed simp

lemma sst_Close_at:
  assumes "writer_at w es" "sst_Close w = (w', None)"
  shows "stored (wbw w') = sst_bytes es \<and> durable (wbw w') = length (sst_bytes es)"
proof -
  let ?f = "footer_bytes (woffset w) (index_length (windex w)) (wcount w)"
  obtain b1 b2 n b3 b4 b5 where
    w: "write_index (wbw w) (windex w) = (b1, None)" "bw_Write b1 ?f = (b2, n, None)"
       "bw_Flush b2 = (b3, None)" "bw_Sync b3 = (b4, None)" "bw_Close b4 = (b5, None)" "w' = w\<lparr>wbw := b5\<rparr>"
    using assms(2) by (auto simp: sst_Close_def split: prod.splits option.splits)
  have 1: "bw_inv b1" "berr b1 = None" "accepted b1 = data_block es @ index_block (index_from 0 es)"
    using write_index_ok [OF _ _ w(1)] assms(1) by (auto simp: writer_at_def)
  from bw.write_ok [OF 1(1,2) w(2)] have 2: "bw_inv b2" "berr b2 = None" "accepted b2 = accepted b1 @ ?f" by auto
  from bw.flush_ok [OF 2(1,2) w(3)] have 3: "bw_inv b3" "stored b3 = accepted b2" by auto
  from bw.sync_ok [OF 3(1) w(4)] have "stored b4 = accepted b2" "durable b4 = length (accepted b2)" using 3(2) by auto
  moreover have "accepted b2 = sst_bytes es"
    using 1(3) 2(3) assms(1) by (simp add: sst_bytes_def writer_at_def)
  ultimately show ?thesis using w(6) bw_Close_fields [OF w(5)] by simp
qed

text \<open>Without failing system calls the writer succeeds.\<close>

lemma NewWriter_calm: "calm (wbw (NewWriter []))"
  by (simp add: NewWriter_def NewWriterSize_def calm_def)

lemma sst_write_all_calm: "calm (wbw w) \<Longrightarrow> \<exists>w'. sst_write_all w es = (w', None) \<and> calm (wbw w')"
proof (induction es arbitrary: w)
  case (Cons e es)
  obtain b n where b: "bw_Write (wbw w) (encode_entry e) = (b, n, None)" "calm b"
    using calm_Write [OF Cons.prems] by blast
  obtain w1 where "sst_Write w e = (w1, None)" "wbw w1 = b" using b(1) by (simp add: sst_Write_def)
  then show ?case using Cons.IH [of w1] b(2) by auto
qed simp

lemma write_index_calm: "calm b \<Longrightarrow> \<exists>b'. write_index b ies = (b', None) \<and> calm b'"
proof (induction ies arbitrary: b)
  case (Cons ie ies)
  obtain b1 n where b: "bw_Write b (encode_index ie) = (b1, n, None)" "calm b1"
    using calm_Write [OF Cons.prems] by blast
  then show ?case using Cons.IH [of b1] by auto
qed simp

lemma sst_Close_calm:
  assumes "calm (wbw w)"
  shows "\<exists>w'. sst_Close w = (w', None)"
proof -
  obtain b1 where b1: "write_index (wbw w) (windex w) = (b1, None)" "calm b1"
    using write_index_calm [OF assms] by blast
  obtain b2 n where b2: "bw_Write b1 (footer_bytes (woffset w) (index_length (windex w)) (wcount w)) = (b2, n, None)" "calm b2"
    using calm_Write [OF b1(2)] by blast
  obtain b3 where b3: "bw_Flush b2 = (b3, None)" "calm b3" using calm_Flush [OF b2(2)] by blast
  obtain b4 where b4: "bw_Sync b3 = (b4, None)" "calm b4" using calm_Sync [OF b3(2)] by blast
  obtain b5 where "bw_Close b4 = (b5, None)" using calm_Close [OF b4(2)] by blast
  then show ?thesis using b1 b2 b3 b4 by (simp add: sst_Close_def)
qed

lemma write_table_calm:
  "\<exists>w w'. sst_write_all (NewWriter []) es = (w, None) \<and> sst_Close w = (w', None)"
  using sst_write_all_calm [OF NewWriter_calm] sst_Close_calm by metis

lemma write_table_bytes:
  assumes "sst_write_all (NewWriter script) es = (w, None)" "sst_Close w = (w', None)"
  shows "stored (wbw w') = sst_bytes es" "durable (wbw w') = length (sst_bytes es)"
  using sst_Close_at [OF _ assms(2), of es] sst_write_all_at [OF NewWriter_at assms(1)] by simp_all

subsection \<open>Reading an entry\<close>

declare parse_index.simps [simp del] index_search.simps [simp del] scan_read.simps [simp del]

lemma readEntry_encode:
  assumes "length (Key e) < 2 ^ 32" "length (Value e) < 2 ^ 32"
  shows "readEntry (encode_entry e @ rest) = Inr (e, rest)"
proof -
  have "ReadFull (PutUint64 (Version e) @ [if Deleted e then 1 else 0] @ rest) 9 =
      Inr (PutUint64 (Version e) @ [if Deleted e then 1 else 0], rest)"
    using ReadFull_append [of "PutUint64 (Version e) @ [if Deleted e then 1 else 0]" 9 rest] by simp
  moreover have "(PutUint64 (Version e) @ [if Deleted e then 1 else 0]) ! 8 = (if Deleted e then 1 else 0)"
    by (simp add: nth_append)
  ultimately show ?thesis
    using assms by (simp add: readEntry_def encode_entry_def unat_word_of_nat_32)
qed

lemma parse_index_block:
  "\<forall>ie\<in>set ies. length (iKey ie) < 2 ^ 32 \<Longrightarrow> parse_index (index_block ies) = Some ies"
proof (induction ies)
  case Nil
  then show ?case by (subst parse_index.simps) simp
next
  case (Cons ie ies)
  let ?buf = "index_block (ie # ies)"
  have "unat (Uint32 ?buf) = length (iKey ie)"
    using Cons.prems by (simp add: encode_index_def unat_word_of_nat_32)
  moreover have "?buf \<noteq> []" "4 + length (iKey ie) + 8 \<le> length ?buf"
    by (auto simp: encode_index_def PutUint32_def)
  moreover have "drop (4 + length (iKey ie) + 8) ?buf = index_block ies"
    "take (length (iKey ie)) (drop 4 ?buf) = iKey ie" "Uint64 (drop (4 + length (iKey ie)) ?buf) = iOffset ie"
    by (simp_all add: encode_index_def)
  ultimately show ?case
    using Cons by (subst parse_index.simps) (auto simp: Let_def)
qed

lemma footer_fields:
  "length (footer_bytes st il c) = footerSize" "Uint64 (footer_bytes st il c) = st"
  "Uint32 (drop 8 (footer_bytes st il c)) = word_of_nat il"
  "Uint32 (drop 12 (footer_bytes st il c)) = word_of_nat c" "Uint64 (drop 16 (footer_bytes st il c)) = magic"
  by (simp_all add: footer_bytes_def footerSize_def)

lemma loadIndex_bytes:
  assumes "sst_fits es"
  shows "loadIndex (sst_bytes es) = Some (Inr (index_from 0 es, length es))"
proof -
  let ?d = "data_block es" and ?i = "index_block (index_from 0 es)"
  let ?ft = "footer_bytes (word_of_nat (length ?d)) (index_length (index_from 0 es)) (length es)"
  have bytes: "sst_bytes es = (?d @ ?i) @ ?ft" by (simp add: sst_bytes_def)
  have ft: "drop (length (sst_bytes es) - footerSize) (sst_bytes es) = ?ft"
    by (simp add: bytes footer_fields)
  have d: "length ?d < 2 ^ 63" and l: "index_length (index_from 0 es) < 2 ^ 32" "length es < 2 ^ 32"
    using assms by (auto simp: sst_fits_def)
  have "unat (word_of_nat (length ?d) :: i64) = length ?d" using d by (intro unat_word_of_nat_64) simp
  then have seek: "seek_start (sst_bytes es) (word_of_nat (length ?d)) = Inr (?i @ ?ft)"
    using d by (simp add: seek_start_def sint_word_of_nat_64 bytes)
  have "\<forall>k\<in>iKey ` set (index_from 0 es). length k < 2 ^ 32"
    using assms by (simp add: index_from_keys sst_fits_def)
  then have "\<forall>ie\<in>set (index_from 0 es). length (iKey ie) < 2 ^ 32" by blast
  then have "parse_index ?i = Some (index_from 0 es)" by (rule parse_index_block)
  then show ?thesis
    using l by (simp add: loadIndex_def ft footer_fields seek length_index_block unat_word_of_nat_32)
      (simp add: bytes footer_fields)
qed

subsection \<open>Lookup\<close>

lemma index_search_range:
  assumes "\<And>i j. i < j \<Longrightarrow> j < length ies \<Longrightarrow> iKey (ies ! i) < iKey (ies ! j)"
    and "0 \<le> lo" "hi < int (length ies)"
    and "\<And>i. int i < lo \<Longrightarrow> iKey (ies ! i) < key"
    and "\<And>i. hi < int i \<Longrightarrow> i < length ies \<Longrightarrow> key < iKey (ies ! i)"
  shows "\<exists>r. index_search ies key lo hi = Some r \<and>
    (case r of None \<Rightarrow> \<forall>i<length ies. iKey (ies ! i) \<noteq> key | Some i \<Rightarrow> i < length ies \<and> iKey (ies ! i) = key)"
  using assms
proof (induction ies key lo hi rule: index_search.induct)
  case (1 ies key lo hi)
  let ?mid = "(lo + hi) div 2"
  show ?case
  proof (cases "lo \<le> hi")
    case True
    then have mid: "lo \<le> ?mid" "?mid \<le> hi" "0 \<le> ?mid" "?mid < int (length ies)"
      using "1.prems"(2,3) by auto
    then obtain m where m: "?mid = int m" "m < length ies" by (metis of_nat_less_iff zero_le_imp_eq_int)
    then have guard: "\<not> (?mid < 0 \<or> ?mid \<ge> int (length ies))" by simp
    note unf = index_search.simps [of ies key lo hi]
    show ?thesis
    proof (cases "iKey (ies ! m)" key rule: linorder_cases)
      case less
      have "iKey (ies ! i) < key" if "int i < ?mid + 1" for i
        using that less m "1.prems"(1) [of i m] by (cases "i = m") (auto intro: less_trans)
      then have "\<exists>r. index_search ies key (?mid + 1) hi = Some r \<and>
        (case r of None \<Rightarrow> \<forall>i<length ies. iKey (ies ! i) \<noteq> key | Some i \<Rightarrow> i < length ies \<and> iKey (ies ! i) = key)"
        using "1.prems" mid less m
        by (intro "1.IH"(1) [OF True refl guard]) (simp_all add: m order.strict_implies_not_eq)
      then show ?thesis using less m guard True by (simp add: unf Let_def)
    next
      case equal
      then show ?thesis using guard m True by (simp add: unf Let_def)
    next
      case greater
      have ne: "iKey (ies ! nat ?mid) \<noteq> key" "\<not> iKey (ies ! nat ?mid) < key" using greater m by auto
      have "key < iKey (ies ! i)" if "?mid - 1 < int i" "i < length ies" for i
        using that greater m "1.prems"(1) [of m i] by (cases "i = m") (auto intro: less_trans)
      then have "\<exists>r. index_search ies key lo (?mid - 1) = Some r \<and>
        (case r of None \<Rightarrow> \<forall>i<length ies. iKey (ies ! i) \<noteq> key | Some i \<Rightarrow> i < length ies \<and> iKey (ies ! i) = key)"
        using "1.prems" mid by (intro "1.IH"(2) [OF True refl guard ne]) auto
      then show ?thesis using ne m guard True by (simp add: unf Let_def)
    qed
  next
    case False
    have "iKey (ies ! i) \<noteq> key" if "i < length ies" for i
      using that False "1.prems"(4) [of i] "1.prems"(5) [of i] by (cases "int i < lo") auto
    then show ?thesis using False by (simp add: index_search.simps [of ies])
  qed
qed

lemma iKey_index_nth: "i < length es \<Longrightarrow> iKey (index_from off es ! i) = Key (es ! i)"
  by (metis iKey_index_from length_index_from nth_map)

lemma iOffset_index_nth: "i < length es \<Longrightarrow>
    iOffset (index_from off es ! i) = word_of_nat (off + length (data_block (take i es)))"
proof (induction es arbitrary: off i)
  case (Cons e es)
  then show ?case by (cases i) (auto simp: add.assoc)
qed simp

lemma index_search_bytes:
  assumes "ksorted es"
  shows "\<exists>r. index_search (index_from 0 es) key 0 (int (length es) - 1) = Some r \<and>
    (case r of None \<Rightarrow> find_key key es = None
     | Some i \<Rightarrow> i < length es \<and> Key (es ! i) = key \<and> find_key key es = Some (es ! i))"
proof -
  have "Key (es ! i) < Key (es ! j)" if "i < j" "j < length es" for i j
    using assms that by (auto simp: ksorted_def sorted_wrt_iff_nth_less)
  then obtain r where r: "index_search (index_from 0 es) key 0 (int (length es) - 1) = Some r"
    "case r of None \<Rightarrow> \<forall>i<length es. Key (es ! i) \<noteq> key | Some i \<Rightarrow> i < length es \<and> Key (es ! i) = key"
    using index_search_range [of "index_from 0 es" 0 "int (length es) - 1" key]
    by (auto simp: iKey_index_nth split: option.splits)
  then show ?thesis
    using assms by (auto simp: find_key_None_iff find_key_Some_iff in_set_conv_nth split: option.splits)
qed

lemma data_block_nth: "i < length es \<Longrightarrow>
    drop (length (data_block (take i es))) (data_block es @ r) = data_block (drop i es) @ r"
  by (metis append.assoc append_eq_conv_conj append_take_drop_id data_block_simps(3))

lemma seek_entry:
  assumes "sst_fits es" "i < length es"
  shows "seek_start (sst_bytes es) (iOffset (index_from 0 es ! i)) =
    Inr (data_block (drop i es) @ index_block (index_from 0 es) @
      footer_bytes (word_of_nat (length (data_block es))) (index_length (index_from 0 es)) (length es))"
proof -
  let ?n = "length (data_block (take i es))"
  have "?n \<le> length (data_block es)" by (metis append_take_drop_id data_block_simps(3) le_add1 length_append)
  then have n: "?n < 2 ^ 63" using assms(1) by (simp add: sst_fits_def)
  then have "unat (word_of_nat ?n :: i64) = ?n" by (intro unat_word_of_nat_64) simp
  with n show ?thesis
    by (simp add: seek_start_def iOffset_index_nth [OF assms(2)] sint_word_of_nat_64 sst_bytes_def
        data_block_nth [OF assms(2)] del: drop_append)
qed

lemma readAt_bytes:
  assumes "sst_fits es" "i < length es" "rfile r = sst_bytes es"
  shows "readAt r (iOffset (index_from 0 es ! i)) = Inr (es ! i, True)"
proof -
  have "data_block (drop i es) = encode_entry (es ! i) @ data_block (drop (Suc i) es)"
    using assms(2) by (metis Cons_nth_drop_Suc data_block_simps(2))
  moreover have "length (Key (es ! i)) < 2 ^ 32" "length (Value (es ! i)) < 2 ^ 32"
    using assms by (auto simp: sst_fits_def)
  ultimately show ?thesis
    using assms by (simp add: readAt_def seek_entry readEntry_encode)
qed

lemma buildBloom_ok:
  "\<exists>bf. buildBloom c ies = Some bf \<and> bloom_inv bf \<and> (\<forall>ie\<in>set ies. bloom_Contains bf (iKey ie) = Some True)"
  using bloom.add_all [OF bloom_inv_New, of "c + 1" "1 / 100" "map iKey ies"] by (auto simp: buildBloom_def)

lemma OpenReader_bytes:
  assumes "sst_fits es"
  shows "\<exists>r. OpenReader (Some (sst_bytes es)) = Some (Inr r) \<and> rfile r = sst_bytes es \<and>
    rindex r = index_from 0 es \<and> rcount r = length es \<and> bloom_inv (rfilter r) \<and>
    (\<forall>e\<in>set es. bloom_Contains (rfilter r) (Key e) = Some True)"
proof -
  obtain bf where bf: "buildBloom (length es) (index_from 0 es) = Some bf" "bloom_inv bf"
      "\<forall>ie\<in>set (index_from 0 es). bloom_Contains bf (iKey ie) = Some True"
    using buildBloom_ok by blast
  then have "\<forall>k\<in>iKey ` set (index_from 0 es). bloom_Contains bf k = Some True" by simp
  then have "\<forall>e\<in>set es. bloom_Contains bf (Key e) = Some True" by (simp add: index_from_keys)
  then show ?thesis
    using bf(1,2) by (simp add: OpenReader_def loadIndex_bytes [OF assms])
qed

lemma sst_Get_bytes:
  assumes "sst_fits es" "ksorted es" "OpenReader (Some (sst_bytes es)) = Some (Inr r)"
  shows "sst_Get r key = Some (Inr (lookup_result key es))"
proof -
  from OpenReader_bytes [OF assms(1)] assms(3) have r: "rfile r = sst_bytes es" "rindex r = index_from 0 es"
      "bloom_inv (rfilter r)" "\<forall>e\<in>set es. bloom_Contains (rfilter r) (Key e) = Some True" by auto
  obtain c where c: "bloom_Contains (rfilter r) key = Some c" using bloom.query_law [OF r(3)] by blast
  show ?thesis
  proof (cases c)
    case True
    obtain x where x: "index_search (index_from 0 es) key 0 (int (length es) - 1) = Some x"
      "case x of None \<Rightarrow> find_key key es = None
       | Some i \<Rightarrow> i < length es \<and> Key (es ! i) = key \<and> find_key key es = Some (es ! i)"
      using index_search_bytes [OF assms(2)] by blast
    then show ?thesis
      using c True r readAt_bytes [OF assms(1)]
      by (cases x) (auto simp: sst_Get_def lookup_result_def)
  next
    case False
    then have "find_key key es = None" using c r(4) by (auto simp: find_key_None_iff)
    then show ?thesis using c False by (simp add: sst_Get_def lookup_result_def)
  qed
qed

subsection \<open>Scan\<close>

text \<open>All entries that can be decoded one after the other.\<close>

function read_all :: "bytes \<Rightarrow> entry list" where
  "read_all rd = (case readEntry rd of Inl e \<Rightarrow> [] | Inr (e, rd') \<Rightarrow> e # read_all rd')"
  by pat_completeness auto
termination
  by (relation "measure length") (auto simp: readEntry_def split: sum.splits dest!: ReadFull_Inr)

declare read_all.simps [simp del]

lemma scan_read_acc: "scan_read rd limit acc = acc @
    (if limit > 0 then take (nat limit - length acc) (read_all rd) else read_all rd)"
proof (induction rd limit acc rule: scan_read.induct)
  case (1 rd limit acc)
  show ?case
  proof (cases "limit > 0 \<and> int (length acc) \<ge> limit")
    case True
    then have "nat limit \<le> length acc" by linarith
    with True show ?thesis by (subst scan_read.simps) simp
  next
    case False
    then have *: "limit > 0 \<Longrightarrow> nat limit - length acc = Suc (nat limit - Suc (length acc))" by auto
    show ?thesis
    proof (cases "readEntry rd")
      case (Inl e)
      then have "read_all rd = []" by (simp add: read_all.simps [of rd])
      with Inl show ?thesis using False by (subst scan_read.simps) simp
    next
      case (Inr p)
      then obtain e rd' where p: "readEntry rd = Inr (e, rd')" by (cases p) auto
      then have "read_all rd = e # read_all rd'" by (simp add: read_all.simps [of rd])
      moreover have "scan_read rd limit acc = scan_read rd' limit (acc @ [e])"
        using False p by (auto simp: scan_read.simps [of rd])
      ultimately show ?thesis using "1.IH" [OF False p refl] * by auto
    qed
  qed
qed

lemma scan_read_limit: "scan_read rd limit [] = take_limit limit (read_all rd)"
  by (simp add: scan_read_acc take_limit_def)

lemma read_all_data:
  "\<forall>e\<in>set es. length (Key e) < 2 ^ 32 \<and> length (Value e) < 2 ^ 32 \<Longrightarrow>
   read_all (data_block es @ rest) = es @ read_all rest"
proof (induction es)
  case (Cons e es)
  then show ?case by (subst read_all.simps) (simp add: readEntry_encode)
qed simp

text \<open>What a scan decodes after the data block: the index block and the footer, read as entries.\<close>

definition trailing :: "entry list \<Rightarrow> entry list" where
  "trailing es = read_all (index_block (index_from 0 es) @
     footer_bytes (word_of_nat (length (data_block es))) (index_length (index_from 0 es)) (length es))"

lemma dropWhile_index: "dropWhile (\<lambda>ie. iKey ie < start) (index_from 0 es) =
    drop (length (takeWhile (\<lambda>e. Key e < start) es)) (index_from 0 es)"
proof -
  have "length (takeWhile (\<lambda>ie. iKey ie < start) (index_from off es)) = length (takeWhile (\<lambda>e. Key e < start) es)" for off
    by (induction es arbitrary: off) auto
  then show ?thesis by (metis dropWhile_eq_drop)
qed

lemma sst_Scan_bytes:
  assumes "sst_fits es" "OpenReader (Some (sst_bytes es)) = Some (Inr r)"
  shows "sst_Scan r start limit = Inr (if dropWhile (\<lambda>e. Key e < start) es = [] then []
    else take_limit limit (dropWhile (\<lambda>e. Key e < start) es @ trailing es))"
proof -
  from OpenReader_bytes [OF assms(1)] assms(2) have r: "rfile r = sst_bytes es" "rindex r = index_from 0 es" by auto
  let ?i = "length (takeWhile (\<lambda>e. Key e < start) es)"
  have drop: "dropWhile (\<lambda>e. Key e < start) es = drop ?i es" by (rule dropWhile_eq_drop)
  have small: "\<forall>e\<in>set (drop ?i es). length (Key e) < 2 ^ 32 \<and> length (Value e) < 2 ^ 32"
    using assms(1) by (auto simp: sst_fits_def dest: in_set_dropD)
  show ?thesis
  proof (cases "?i < length es")
    case True
    then have "drop ?i (index_from 0 es) = index_from 0 es ! ?i # drop (Suc ?i) (index_from 0 es)"
      by (simp add: Cons_nth_drop_Suc)
    with True show ?thesis
      by (simp add: sst_Scan_def r dropWhile_index drop seek_entry [OF assms(1) True] scan_read_limit
          read_all_data [OF small] trailing_def)
  next
    case False
    then show ?thesis by (simp add: sst_Scan_def r dropWhile_index drop)
  qed
qed

subsection \<open>The contract with the engine and the compactor\<close>

text \<open>What a scan of a table returns before the limit is applied.\<close>

definition scanned :: "bytes \<Rightarrow> entry list \<Rightarrow> entry list" where
  "scanned start es = (case dropWhile (\<lambda>e. Key e < start) es of [] \<Rightarrow> [] | d # ds \<Rightarrow> (d # ds) @ trailing es)"

definition reads :: "reader \<Rightarrow> entry list \<Rightarrow> bool" where
  "reads r es \<longleftrightarrow> sst_fits es \<and> OpenReader (Some (sst_bytes es)) = Some (Inr r)"

locale table_format =
  fixes valid :: "entry list \<Rightarrow> bool"
    and encode :: "entry list \<Rightarrow> bytes"
    and openr :: "bytes option \<Rightarrow> 'r result option"
    and holds :: "'r \<Rightarrow> entry list \<Rightarrow> bool"
    and get :: "'r \<Rightarrow> bytes \<Rightarrow> (entry \<times> bool) result option"
    and scan :: "'r \<Rightarrow> bytes \<Rightarrow> int \<Rightarrow> entry list result"
    and visits :: "bytes \<Rightarrow> entry list \<Rightarrow> entry list"
  assumes open_law: "valid es \<Longrightarrow> \<exists>r. openr (Some (encode es)) = Some (Inr r) \<and> holds r es"
    and get_law: "holds r es \<Longrightarrow> ksorted es \<Longrightarrow> get r k = Some (Inr (lookup_result k es))"
    and scan_law: "holds r es \<Longrightarrow> scan r start limit = Inr (take_limit limit (visits start es))"
    and visits_law: "\<exists>junk. visits start es = dropWhile (\<lambda>e. Key e < start) es @ junk"
    and visits_Nil: "\<forall>e\<in>set es. Key e < start \<Longrightarrow> visits start es = []"
begin

text \<open>A scan whose limit the matching entries reach returns exactly them.\<close>

lemma scan_within:
  assumes "holds r es" "0 < limit" "nat limit \<le> length (dropWhile (\<lambda>e. Key e < start) es)"
  shows "scan r start limit = Inr (take_limit limit (dropWhile (\<lambda>e. Key e < start) es))"
  using visits_law [of start es] assms scan_law [OF assms(1)] by (auto simp: take_limit_def)

lemma get_opened:
  "valid es \<Longrightarrow> ksorted es \<Longrightarrow>
   \<exists>r. openr (Some (encode es)) = Some (Inr r) \<and> (\<forall>k. get r k = Some (Inr (lookup_result k es)))"
  using open_law get_law by blast

lemma scan_opened:
  "valid es \<Longrightarrow>
   \<exists>r. openr (Some (encode es)) = Some (Inr r) \<and> (\<forall>start limit. scan r start limit = Inr (take_limit limit (visits start es)))"
  using open_law scan_law by blast

end

interpretation sst: table_format sst_fits sst_bytes OpenReader reads sst_Get sst_Scan scanned
proof unfold_locales
  show "\<exists>r. OpenReader (Some (sst_bytes es)) = Some (Inr r) \<and> reads r es" if "sst_fits es" for es
    using OpenReader_bytes [OF that] that by (auto simp: reads_def)
  show "sst_Get r k = Some (Inr (lookup_result k es))" if "reads r es" "ksorted es" for r es k
    using that sst_Get_bytes by (auto simp: reads_def)
  show "sst_Scan r start limit = Inr (take_limit limit (scanned start es))" if "reads r es" for r es start limit
    using that sst_Scan_bytes [of es r start limit]
    by (cases "dropWhile (\<lambda>e. Key e < start) es")
      (simp_all add: reads_def scanned_def take_limit_def del: dropWhile_eq_Nil_conv)
  show "\<exists>junk. scanned start es = dropWhile (\<lambda>e. Key e < start) es @ junk" for start es
    by (auto simp: scanned_def split: list.split)
  show "scanned start es = []" if "\<forall>e\<in>set es. Key e < start" for start es
    using that by (simp add: scanned_def flip: dropWhile_eq_Nil_conv)
qed

subsection \<open>Properties\<close>

text \<open>C9. Round trip. A table written without an error from sorted entries (within the limits of the
  length fields) is complete and durable on disk when \<open>Close\<close> returns; opening it succeeds, its
  count is the number of entries, and \<open>Get\<close> returns for every key its entry or \<open>false\<close>.\<close>

theorem table_roundtrip:
  assumes "sst_write_all (NewWriter script) es = (w, None)" "sst_Close w = (w', None)" "sst_fits es" "ksorted es"
  shows "durable (wbw w') = length (stored (wbw w')) \<and>
    (\<exists>r. OpenReader (Some (stored (wbw w'))) = Some (Inr r) \<and> sst_Count r = length es \<and>
      (\<forall>k. sst_Get r k = Some (Inr (lookup_result k es))))"
  using write_table_bytes [OF assms(1,2)] OpenReader_bytes [OF assms(3)] sst_Get_bytes [OF assms(3,4)]
  by (auto simp: sst_Count_def)

theorem table_roundtrip_witness:
  "\<exists>w w' r. sst_write_all (NewWriter []) [live [1] [2] 3, live [4] [5] 6] = (w, None) \<and> sst_Close w = (w', None) \<and>
     OpenReader (Some (stored (wbw w'))) = Some (Inr r) \<and> sst_Get r [4] = Some (Inr (live [4] [5] 6, True))"
proof -
  let ?es = "[live [1] [2] 3, live [4] [5] 6]"
  obtain w w' where w: "sst_write_all (NewWriter []) ?es = (w, None)" "sst_Close w = (w', None)"
    using write_table_calm [of ?es] by auto
  have "sst_fits ?es" by (simp add: sst_fits_def data_block_def encode_entry_def index_length_def)
  moreover have "ksorted ?es" by simp
  ultimately show ?thesis
    using w table_roundtrip [OF w] by (auto simp: lookup_result_def)
qed

text \<open>\<open>Scan\<close> returns the entries from the start key on, in order, when there are at least
  \<open>limit\<close> of them, and nothing when no key is at or above the start key.\<close>

theorem scan_with_enough_entries:
  assumes "sst_fits es" "OpenReader (Some (sst_bytes es)) = Some (Inr r)"
    "0 < limit" "nat limit \<le> length (dropWhile (\<lambda>e. Key e < start) es)"
  shows "sst_Scan r start limit = Inr (take (nat limit) (dropWhile (\<lambda>e. Key e < start) es))"
  using sst.scan_within [of r es limit start] assms by (auto simp: reads_def take_limit_def)

theorem scan_with_enough_entries_witness:
  "\<exists>r. OpenReader (Some (sst_bytes [live [1] [2] 3, live [4] [5] 6])) = Some (Inr r) \<and>
     sst_Scan r [2] 1 = Inr [live [4] [5] 6]"
proof -
  let ?es = "[live [1] [2] 3, live [4] [5] 6]"
  have fits: "sst_fits ?es" by (simp add: sst_fits_def data_block_def encode_entry_def index_length_def)
  then obtain r where r: "OpenReader (Some (sst_bytes ?es)) = Some (Inr r)" using OpenReader_bytes by blast
  from scan_with_enough_entries [OF fits r, of 1 "[2]"] r show ?thesis by simp
qed

text \<open>The entries of a small table whose scan goes wrong.\<close>

definition demo_table :: "entry list" where
  "demo_table = [live [97] [1] 1, live [98, 98] [2] 5]"

lemma demo_table_fits: "sst_fits demo_table" "ksorted demo_table"
  by (simp_all add: demo_table_def sst_fits_def data_block_def encode_entry_def index_length_def)

lemma demo_table_trailing: "trailing demo_table = [live [97] [] 2]"
proof -
  let ?rest = "[98, 0, 0, 0, 0, 0, 0, 0, 19, 0, 0, 0, 0, 0, 0, 0, 39, 0, 0, 0, 27, 0, 0, 0, 2, 79, 67, 75, 86, 83, 83, 84, 66]"
  have "trailing demo_table = read_all ([0, 0, 0, 1, 97, 0, 0, 0, 0, 0, 0, 0, 0, 0, 0, 0, 2, 98] @ ?rest)"
    unfolding trailing_def by (rule arg_cong [of _ _ read_all]) code_simp
  also have "\<dots> = live [97] [] 2 # read_all ?rest"
  proof -
    have "readEntry ([0, 0, 0, 1, 97, 0, 0, 0, 0, 0, 0, 0, 0, 0, 0, 0, 2, 98] @ ?rest) = Inr (live [97] [] 2, ?rest)"
      by code_simp
    then show ?thesis by (subst read_all.simps) simp
  qed
  also have "read_all ?rest = []"
  proof -
    have "Uint32 [98, 0, 0, 0] = 1644167168" by code_simp
    then have "readEntry ?rest = Inl ErrUnexpectedEOF" by (simp add: readEntry_def ReadFull_def)
    then show ?thesis by (subst read_all.simps) simp
  qed
  finally show ?thesis .
qed

text \<open>\<open>Scan\<close> does not stop at the end of the data block: on a table with two entries an
  unlimited scan goes on to decode the index block and returns a third entry that was never
  written, with the first key, an empty value and the length of the second key as its version.\<close>

theorem scan_decodes_index_block:
  "\<exists>r. OpenReader (Some (sst_bytes demo_table)) = Some (Inr r) \<and> sst_Count r = 2 \<and>
     sst_Scan r [] 0 = Inr (demo_table @ [live [97] [] 2])"
proof -
  obtain r where r: "OpenReader (Some (sst_bytes demo_table)) = Some (Inr r)" "rcount r = length demo_table"
    using OpenReader_bytes [OF demo_table_fits(1)] by blast
  from sst_Scan_bytes [OF demo_table_fits(1) r(1), of "[]" 0] demo_table_trailing r show ?thesis
    by (auto simp: demo_table_def take_limit_def sst_Count_def)
qed

end
