(* ===== verification/Compaction.thy ===== *)
theory Compaction
  imports Sstable "HOL-Library.AList" "HOL-Library.Multiset"
begin

text \<open>
  \<open>internal/storage/compaction/compaction.go\<close>: the list of table files and the size-tiered
  compaction. The file system is a map from paths to contents. The two shapes of file names,
  \<open>\%d.sst\<close> of \<open>flush\<close> and \<open>compact-\%d.sst\<close> of \<open>merge\<close>, are the constructors of
  \<open>sst_path\<close>; the clock reading in a name is an argument of the operation that builds it.

  \<^item> \<open>io\<close> gives the outcome of \<open>os.Create\<close> and of the system calls on the new file.
    \<open>os.Remove\<close> succeeds (its error is ignored by the code).
  \<^item> \<open>sort.Slice\<close> may order elements that compare equal in any way; the sort by size is
    therefore an argument \<open>srt\<close> with the specification \<open>sorts_by_size\<close>. The sort by key
    in \<open>merge\<close> has no equal elements.
  \<^item> The size ratio is a \<open>float64\<close> quotient; below 1 PiB its comparison with 10 is the exact
    one, and a division by zero gives \<open>NaN\<close> or infinity, for which the comparison fails.

  \<open>compact\<close> takes its lock twice. Its part up to the merge is \<open>compact_plan\<close>, its second
  critical section \<open>compact_swap\<close>, and tables registered in between are kept.
\<close>

datatype sst_path = Flushed i64 | Compacted i64

type_synonym fs = "sst_path \<Rightarrow> bytes option"
type_synonym size_sort = "(sst_path \<times> nat) list \<Rightarrow> (sst_path \<times> nat) list"

record io =
  create_err :: "goerror option"
  wscript :: "nat option list"

record compactor =
  ctables :: "sst_path list"

definition minCompactTables :: nat where
  "minCompactTables = 4"

definition sizeTierFactor :: nat where
  "sizeTierFactor = 10"

definition comp_New :: compactor where
  "comp_New = \<lparr>ctables = []\<rparr>"

definition Register :: "compactor \<Rightarrow> sst_path \<Rightarrow> compactor" where
  "Register c path = c\<lparr>ctables := path # ctables c\<rparr>"

definition Tables :: "compactor \<Rightarrow> sst_path list" where
  "Tables c = ctables c"

definition stat_sizes :: "fs \<Rightarrow> sst_path list \<Rightarrow> (sst_path \<times> nat) list" where
  "stat_sizes fs tables = List.map_filter (\<lambda>t. case fs t of None \<Rightarrow> None | Some f \<Rightarrow> Some (t, length f)) tables"

definition within_factor :: "nat \<Rightarrow> nat \<Rightarrow> bool" where
  "within_factor smallest sz \<longleftrightarrow> smallest \<noteq> 0 \<and> sz \<le> sizeTierFactor * smallest"

definition selectTier :: "size_sort \<Rightarrow> fs \<Rightarrow> sst_path list \<Rightarrow> sst_path list" where
  "selectTier srt fs tables =
     (case srt (stat_sizes fs tables) of
        [] \<Rightarrow> []
      | (p, s) # sized \<Rightarrow> p # map fst (filter (\<lambda>(q, t). within_factor s t) sized))"

definition sorts_by_size :: "size_sort \<Rightarrow> bool" where
  "sorts_by_size srt \<longleftrightarrow> (\<forall>xs. mset (srt xs) = mset xs \<and> sorted (map snd (srt xs)))"

text \<open>The parts of \<open>merge\<close>: opening the tables, collecting the highest version of every key
  in the map \<open>seen\<close> (an association list, whose order the later sort makes irrelevant), and
  the sorted live entries.\<close>

fun open_all :: "fs \<Rightarrow> sst_path list \<Rightarrow> reader list result option" where
  "open_all fs [] = Some (Inr [])"
| "open_all fs (p # ps) = do {
     r \<leftarrow> OpenReader (fs p);
     (case r of
        Inl e \<Rightarrow> Some (Inl e)
      | Inr rd \<Rightarrow> do {
          rs \<leftarrow> open_all fs ps;
          Some (case rs of Inl e \<Rightarrow> Inl e | Inr rds \<Rightarrow> Inr (rd # rds))
        })
   }"

definition note_newer :: "entry \<Rightarrow> (bytes \<times> entry) list \<Rightarrow> (bytes \<times> entry) list" where
  "note_newer e seen =
     (case map_of seen (Key e) of
        None \<Rightarrow> AList.update (Key e) e seen
      | Some prev \<Rightarrow> if sint (Version e) > sint (Version prev) then AList.update (Key e) e seen else seen)"

fun merge_readers :: "(bytes \<times> entry) list \<Rightarrow> reader list \<Rightarrow> (bytes \<times> entry) list result" where
  "merge_readers seen [] = Inr seen"
| "merge_readers seen (r # rs) =
     (case sst_Scan r [] 0 of Inl e \<Rightarrow> Inl e | Inr entries \<Rightarrow> merge_readers (fold note_newer entries seen) rs)"

definition merged_live :: "(bytes \<times> entry) list \<Rightarrow> entry list" where
  "merged_live seen = filter (\<lambda>e. \<not> Deleted e) (sort_key Key (map snd seen))"

text \<open>\<open>os.Create\<close> truncates an existing file, also one that a reader has open.\<close>

definition truncated :: "sst_path \<Rightarrow> sst_path list \<Rightarrow> reader list \<Rightarrow> reader list" where
  "truncated path paths readers = map2 (\<lambda>p r. if p = path then r\<lparr>rfile := []\<rparr> else r) paths readers"

definition merge_tables :: "fs \<Rightarrow> io \<Rightarrow> i64 \<Rightarrow> sst_path list \<Rightarrow> (fs \<times> sst_path result) option" where
  "merge_tables fs io now paths = do {
     opened \<leftarrow> open_all fs paths;
     (case opened of
        Inl e \<Rightarrow> Some (fs, Inl e)
      | Inr readers \<Rightarrow>
          let outPath = Compacted now in
          (case create_err io of
             Some e \<Rightarrow> Some (fs, Inl e)
           | None \<Rightarrow>
               (case merge_readers [] (truncated outPath paths readers) of
                  Inl e \<Rightarrow> Some (fs(outPath := None), Inl e)
                | Inr seen \<Rightarrow>
                    (case sst_write_all (NewWriter (wscript io)) (merged_live seen) of
                       (w, Some e) \<Rightarrow> Some (fs(outPath := None), Inl e)
                     | (w, None) \<Rightarrow>
                         (case sst_Close w of (w', err) \<Rightarrow>
                            Some (fs(outPath \<mapsto> stored (wbw w')),
                              case err of None \<Rightarrow> Inr outPath | Some e \<Rightarrow> Inl e))))))
   }"

definition compact_plan ::
  "size_sort \<Rightarrow> fs \<Rightarrow> io \<Rightarrow> i64 \<Rightarrow> sst_path list \<Rightarrow> (fs \<times> (sst_path list \<times> sst_path) option result) option" where
  "compact_plan srt fs io now tables =
     (if length tables < minCompactTables then Some (fs, Inr None)
      else let tier = selectTier srt fs tables in
        if length tier < minCompactTables then Some (fs, Inr None)
        else do {
          (fs', merged) \<leftarrow> merge_tables fs io now tier;
          Some (fs', case merged of Inl e \<Rightarrow> Inl e | Inr p \<Rightarrow> Inr (Some (tier, p)))
        })"

definition compact_swap :: "compactor \<Rightarrow> sst_path list \<Rightarrow> sst_path \<Rightarrow> compactor" where
  "compact_swap c tier merged = c\<lparr>ctables := merged # filter (\<lambda>t. t \<notin> set tier) (ctables c)\<rparr>"

definition remove_files :: "fs \<Rightarrow> sst_path list \<Rightarrow> fs" where
  "remove_files fs tier = foldl (\<lambda>f t. f(t := None)) fs tier"

text \<open>One run of \<open>compact\<close> with nothing in between.\<close>

definition comp_compact :: "size_sort \<Rightarrow> compactor \<Rightarrow> fs \<Rightarrow> io \<Rightarrow> i64 \<Rightarrow> (compactor \<times> fs \<times> goerror option) option" where
  "comp_compact srt c fs io now = do {
     (fs', plan) \<leftarrow> compact_plan srt fs io now (Tables c);
     Some (case plan of
        Inl e \<Rightarrow> (c, fs', Some e)
      | Inr None \<Rightarrow> (c, fs', None)
      | Inr (Some (tier, merged)) \<Rightarrow> (compact_swap c tier merged, remove_files fs' tier, None))
   }"

text \<open>The loop that \<open>Start\<close> runs, on the cases its \<open>select\<close> takes: a tick (with the outcome of the
  system calls and the clock) compacts, and an error is only logged; \<open>None\<close> is the closed \<open>stop\<close>
  channel. \<open>Stop\<close> closes that channel, which panics the second time.\<close>

fun comp_loop :: "size_sort \<Rightarrow> compactor \<times> fs \<Rightarrow> (io \<times> i64) option list \<Rightarrow> (compactor \<times> fs) option" where
  "comp_loop srt (c, fs) [] = Some (c, fs)"
| "comp_loop srt (c, fs) (None # evs) = Some (c, fs)"
| "comp_loop srt (c, fs) (Some (io, now) # evs) = do {
     (c', fs', err) \<leftarrow> comp_compact srt c fs io now;
     comp_loop srt (c', fs') evs
   }"

definition comp_Stop :: "bool \<Rightarrow> bool option" where
  "comp_Stop stopped = (if stopped then None else Some True)"

lemma comp_loop_keeps:
  assumes "\<And>c fs io now c' fs' err. P c fs \<Longrightarrow> comp_compact srt c fs io now = Some (c', fs', err) \<Longrightarrow> P c' fs'"
    "comp_loop srt (c, fs) evs = Some (c', fs')" "P c fs"
  shows "P c' fs'"
  using assms(2,3)
proof (induction evs arbitrary: c fs)
  case (Cons ev evs)
  then show ?case using assms(1) by (cases ev) (auto split: Option.bind_splits)
qed simp

text \<open>What a list of tables shows to a reader: the entries of the first layer that has the key,
  unless it is a tombstone.\<close>

definition visible :: "entry list \<Rightarrow> bytes \<Rightarrow> entry option" where
  "visible es k = (case find_key k es of Some e \<Rightarrow> if Deleted e then None else Some e | None \<Rightarrow> None)"

definition holds_table :: "fs \<Rightarrow> sst_path \<Rightarrow> entry list \<Rightarrow> bool" where
  "holds_table fs p es \<longleftrightarrow> fs p = Some (sst_bytes es) \<and> sst_fits es \<and> ksorted es"

lemma holds_table_unique:
  assumes "holds_table fs p es" "holds_table fs p es'"
  shows "es = es'"
proof (rule ksorted_ext)
  fix k
  have "lookup_result k es = lookup_result k es'"
    using assms sst.get_opened [of es] sst.get_opened [of es'] by (fastforce simp: holds_table_def)
  then show "find_key k es = find_key k es'" by (auto simp: lookup_result_def split: option.splits)
qed (use assms in \<open>simp_all add: holds_table_def\<close>)

definition scanned_all :: "(sst_path \<Rightarrow> entry list) \<Rightarrow> sst_path list \<Rightarrow> entry list" where
  "scanned_all tab ps = concat (map (\<lambda>p. scanned [] (tab p)) ps)"

text \<open>The entry of a key that a merge should keep: the first one with the highest version.\<close>

definition newest :: "entry list \<Rightarrow> bytes \<Rightarrow> entry option" where
  "newest es k = find (\<lambda>e. Key e = k \<and> (\<forall>x\<in>set es. Key x = k \<longrightarrow> sint (Version x) \<le> sint (Version e))) es"

definition merged_entries :: "entry list \<Rightarrow> entry list" where
  "merged_entries es = merged_live (fold note_newer es [])"

subsection \<open>The tier\<close>

lemma mem_stat_sizes:
  "(t, n) \<in> set (stat_sizes fs tables) \<longleftrightarrow> t \<in> set tables \<and> (\<exists>f. fs t = Some f \<and> n = length f)"
  by (induction tables) (auto simp: stat_sizes_def map_filter_simps split: option.splits)

lemma set_srt: "sorts_by_size srt \<Longrightarrow> set (srt xs) = set xs"
  by (metis sorts_by_size_def set_mset_mset)

lemma selectTier_sound:
  assumes "sorts_by_size srt" "p \<in> set (selectTier srt fs tables)"
  shows "p \<in> set tables \<and> (\<exists>f. fs p = Some f)"
proof -
  have "\<exists>n. (p, n) \<in> set (srt (stat_sizes fs tables))"
    using assms(2) by (cases "srt (stat_sizes fs tables)") (auto simp: selectTier_def)
  then show ?thesis by (auto simp: set_srt [OF assms(1)] mem_stat_sizes)
qed

text \<open>The tier is the smallest existing table and every other one at most ten times as large.\<close>

lemma selectTier_smallest:
  assumes "sorts_by_size srt" "selectTier srt fs tables = p # ps" "q \<in> set tables" "fs q = Some g"
  shows "\<exists>f. fs p = Some f \<and> length f \<le> length g"
proof -
  let ?xs = "srt (stat_sizes fs tables)"
  obtain s sized where e: "?xs = (p, s) # sized"
    using assms(2) by (auto simp: selectTier_def split: list.splits)
  have sorted: "sorted (map snd ?xs)" using assms(1) by (simp add: sorts_by_size_def)
  have "(p, s) \<in> set ?xs" using e by simp
  then obtain f where "fs p = Some f" "s = length f" by (auto simp: set_srt [OF assms(1)] mem_stat_sizes)
  moreover have "(q, length g) \<in> set ?xs" using assms(3,4) by (simp add: set_srt [OF assms(1)] mem_stat_sizes)
  ultimately show ?thesis using sorted e by auto
qed

lemma distinct_stat_sizes: "distinct tables \<Longrightarrow> distinct (map fst (stat_sizes fs tables))"
proof (induction tables)
  case (Cons t ts)
  have "fst ` set (stat_sizes fs ts) \<subseteq> set ts" by (auto simp: mem_stat_sizes)
  with Cons show ?case by (auto simp: stat_sizes_def map_filter_simps split: option.splits)
qed (simp add: stat_sizes_def map_filter_simps)

lemma distinct_selectTier:
  assumes "sorts_by_size srt" "distinct tables"
  shows "distinct (selectTier srt fs tables)"
proof -
  have "mset (map fst (srt (stat_sizes fs tables))) = mset (map fst (stat_sizes fs tables))"
    using assms(1) by (simp add: sorts_by_size_def)
  then have "distinct (map fst (srt (stat_sizes fs tables)))"
    using distinct_stat_sizes [OF assms(2)] by (metis mset_eq_imp_distinct_iff)
  then show ?thesis
    by (auto simp: selectTier_def distinct_map_filter split: list.splits) (metis fst_conv image_eqI)
qed

subsection \<open>The newest entries\<close>

lemma note_newer_map_of:
  "map_of (note_newer e seen) k =
     (if k = Key e \<and> (\<forall>p. map_of seen k = Some p \<longrightarrow> sint (Version p) < sint (Version e)) then Some e
      else map_of seen k)"
  by (auto simp: note_newer_def update_conv' split: option.splits)

lemma fold_note_newer_None: "map_of (fold note_newer es []) k = None \<longleftrightarrow> k \<notin> Key ` set es"
  by (induction es rule: rev_induct) (auto simp: note_newer_map_of)

lemma fold_note_newer_Some:
  "map_of (fold note_newer es []) k = Some e \<Longrightarrow>
     Key e = k \<and> (\<forall>x\<in>set es. Key x = k \<longrightarrow> sint (Version x) \<le> sint (Version e)) \<and>
     (\<exists>ys zs. es = ys @ e # zs \<and> (\<forall>y\<in>set ys. Key y = k \<longrightarrow> sint (Version y) < sint (Version e)))"
proof (induction es arbitrary: e rule: rev_induct)
  case (snoc x xs)
  let ?m = "map_of (fold note_newer xs [])"
  show ?case
  proof (cases "k = Key x \<and> (\<forall>p. ?m k = Some p \<longrightarrow> sint (Version p) < sint (Version x))")
    case True
    then have e: "e = x" using snoc.prems by (simp add: note_newer_map_of)
    have "sint (Version y) < sint (Version x)" if "y \<in> set xs" "Key y = k" for y
    proof -
      obtain p where p: "?m k = Some p" using \<open>y \<in> set xs\<close> \<open>Key y = k\<close> fold_note_newer_None [of xs k] by fastforce
      then show ?thesis using snoc.IH [OF p] True that by fastforce
    qed
    then show ?thesis using e True by (auto intro: less_imp_le)
  next
    case False
    then have m: "?m k = Some e"
      using snoc.prems note_newer_map_of [of x "fold note_newer xs []" k] by (simp only: fold_append fold_simps comp_apply if_False)
    then obtain ys zs where ih: "xs = ys @ e # zs" "\<forall>y\<in>set ys. Key y = k \<longrightarrow> sint (Version y) < sint (Version e)"
        "Key e = k" "\<forall>y\<in>set xs. Key y = k \<longrightarrow> sint (Version y) \<le> sint (Version e)"
      using snoc.IH [of e] by blast
    have "Key x = k \<longrightarrow> sint (Version x) \<le> sint (Version e)" using False m by auto
    moreover have "xs @ [x] = ys @ e # (zs @ [x])" using ih(1) by simp
    ultimately show ?thesis using ih(2-4) by auto
  qed
qed simp

text \<open>Noting entry after entry, as the code does, keeps the newest one of every key.\<close>

lemma fold_note_newer: "map_of (fold note_newer es []) k = newest es k"
proof (cases "map_of (fold note_newer es []) k")
  case None
  then have "k \<notin> Key ` set es" by (simp add: fold_note_newer_None)
  then have "newest es k = None" by (auto simp: newest_def find_None_iff)
  then show ?thesis using None by simp
next
  case (Some e)
  let ?P = "\<lambda>e. Key e = k \<and> (\<forall>x\<in>set es. Key x = k \<longrightarrow> sint (Version x) \<le> sint (Version e))"
  obtain ys zs where s: "Key e = k" "\<forall>x\<in>set es. Key x = k \<longrightarrow> sint (Version x) \<le> sint (Version e)" "es = ys @ e # zs"
      "\<forall>y\<in>set ys. Key y = k \<longrightarrow> sint (Version y) < sint (Version e)"
    using fold_note_newer_Some [OF Some] by blast
  have "e \<in> set es" using s(3) by simp
  then have "\<not> ?P y" if "y \<in> set ys" for y using that s(1,4) by fastforce
  then have "find ?P (ys @ e # zs) = Some e" using s(1,2) by (induction ys) auto
  then show ?thesis using Some s(3) by (simp add: newest_def)
qed

lemma distinct_note_newer: "distinct (map fst seen) \<Longrightarrow> distinct (map fst (note_newer x seen))"
  by (simp add: note_newer_def distinct_update split: option.split)

lemma keys_note_newer:
  assumes "distinct (map fst seen)" "\<forall>(k, e)\<in>set seen. Key e = k"
  shows "\<forall>(k, e)\<in>set (note_newer x seen). Key e = k"
proof -
  have "Key e = k" if "(k, e) \<in> set (note_newer x seen)" for k e
  proof -
    have "map_of (note_newer x seen) k = Some e" using that distinct_note_newer [OF assms(1)] by simp
    then show ?thesis using assms(2) by (auto simp: note_newer_map_of split: if_splits dest!: map_of_SomeD)
  qed
  then show ?thesis by auto
qed

lemma fold_note_newer_keys:
  "distinct (map fst (fold note_newer es [])) \<and> (\<forall>(k, e)\<in>set (fold note_newer es []). Key e = k)"
proof (induction es rule: rev_induct)
  case (snoc x xs)
  then show ?case using distinct_note_newer [of _ x] keys_note_newer [of _ x] by (simp del: split_paired_All) blast
qed simp

lemma newest_SomeD:
  "newest es k = Some e \<Longrightarrow>
     e \<in> set es \<and> Key e = k \<and> (\<forall>x\<in>set es. Key x = k \<longrightarrow> sint (Version x) \<le> sint (Version e))"
  by (auto simp: newest_def find_Some_iff)

lemma newest_None_iff: "newest es k = None \<longleftrightarrow> k \<notin> Key ` set es"
  using fold_note_newer_None [of es k] by (simp add: fold_note_newer)

lemma merged_entries_sorted: "ksorted (merged_entries es)"
proof -
  let ?seen = "fold note_newer es []"
  let ?es = "sort_key Key (map snd ?seen)"
  have "map Key (map snd ?seen) = map fst ?seen"
    using fold_note_newer_keys [of es] by auto
  then have "distinct (map Key (map snd ?seen))" using fold_note_newer_keys [of es] by (simp only:)
  moreover have "mset (map Key ?es) = mset (map Key (map snd ?seen))" by (metis mset_map mset_sort)
  ultimately have "distinct (map Key ?es)" by (metis mset_eq_imp_distinct_iff)
  then have "sorted_wrt (<) (map Key ?es)" by (simp add: strict_sorted_iff)
  then have "ksorted ?es" by (simp add: ksorted_def sorted_wrt_map)
  then show ?thesis by (simp add: merged_entries_def merged_live_def ksorted_def sorted_wrt_filter)
qed

lemma set_merged_entries: "e \<in> set (merged_entries es) \<longleftrightarrow> newest es (Key e) = Some e \<and> \<not> Deleted e"
proof -
  have "e \<in> snd ` set (fold note_newer es []) \<longleftrightarrow> (Key e, e) \<in> set (fold note_newer es [])"
    using fold_note_newer_keys [of es] by force
  then show ?thesis
    using fold_note_newer_keys [of es] by (auto simp: merged_entries_def merged_live_def simp flip: fold_note_newer)
qed

lemma merged_entries_subset: "e \<in> set (merged_entries es) \<Longrightarrow> e \<in> set es"
  using newest_SomeD set_merged_entries by blast

lemma find_merged_entries: "find_key k (merged_entries es) =
    (case newest es k of Some e \<Rightarrow> if Deleted e then None else Some e | None \<Rightarrow> None)"
proof (cases "find_key k (merged_entries es)")
  case None
  then have "\<not> (newest es k = Some e \<and> \<not> Deleted e)" for e
    using set_merged_entries [of e es] newest_SomeD [of es k e] by (auto simp: find_key_None_iff)
  then show ?thesis using None by (auto split: option.splits)
next
  case (Some e)
  then show ?thesis
    using merged_entries_sorted set_merged_entries [of e es] by (auto simp: find_key_Some_iff)
qed

subsection \<open>Merging\<close>

lemma not_less_Nil: "\<not> (k :: bytes) < []"
  by simp

lemma scanned_Nil: "scanned [] es = (if es = [] then [] else es @ trailing es)"
  by (cases es) (simp_all add: scanned_def)

lemma open_all_ok:
  "\<forall>p\<in>set ps. holds_table fs p (tab p) \<Longrightarrow>
   \<exists>rs. open_all fs ps = Some (Inr rs) \<and> list_all2 (\<lambda>r p. reads r (tab p)) rs ps"
proof (induction ps)
  case (Cons p ps)
  obtain r where "OpenReader (fs p) = Some (Inr r)" "reads r (tab p)"
    using Cons.prems sst.open_law [of "tab p"] by (auto simp: holds_table_def)
  then show ?case using Cons by auto
qed simp

lemma merge_readers_ok:
  "list_all2 (\<lambda>r p. reads r (tab p)) rs ps \<Longrightarrow>
   merge_readers seen rs = Inr (fold note_newer (scanned_all tab ps) seen)"
proof (induction arbitrary: seen rule: list_all2_induct)
  case (Cons r rs p ps)
  then show ?case by (simp add: sst.scan_law take_limit_def scanned_all_def)
qed (simp add: scanned_all_def)

lemma truncated_fresh:
  assumes "path \<notin> set ps" "length rs = length ps"
  shows "truncated path ps rs = rs"
proof -
  have "map2 (\<lambda>p r. if p = path then r\<lparr>rfile := []\<rparr> else r) ps rs = map snd (zip ps rs)"
    using assms(1) by (intro map_cong) (auto dest: set_zip_leftD)
  then show ?thesis using assms(2) by (simp add: truncated_def)
qed

lemma merge_tables_cases:
  assumes "\<forall>p\<in>set ps. holds_table fs p (tab p)" "Compacted now \<notin> set ps"
  shows "merge_tables fs io now ps =
    (case create_err io of
       Some e \<Rightarrow> Some (fs, Inl e)
     | None \<Rightarrow> (case sst_write_all (NewWriter (wscript io)) (merged_entries (scanned_all tab ps)) of
           (w, Some e) \<Rightarrow> Some (fs(Compacted now := None), Inl e)
         | (w, None) \<Rightarrow> (case sst_Close w of (w', err) \<Rightarrow>
             Some (fs(Compacted now \<mapsto> stored (wbw w')),
               case err of None \<Rightarrow> Inr (Compacted now) | Some e \<Rightarrow> Inl e))))"
proof -
  obtain rs where rs: "open_all fs ps = Some (Inr rs)" "list_all2 (\<lambda>r p. reads r (tab p)) rs ps"
    using open_all_ok [OF assms(1)] by blast
  then have "truncated (Compacted now) ps rs = rs" using truncated_fresh [OF assms(2)] list_all2_lengthD by blast
  then show ?thesis
    using rs(1) by (cases "create_err io")
      (simp_all add: merge_tables_def merge_readers_ok [OF rs(2)] Let_def merged_entries_def)
qed

lemma merge_tables_ok:
  assumes "\<forall>p\<in>set ps. holds_table fs p (tab p)" "Compacted now \<notin> set ps" "merge_tables fs io now ps = Some (fs', Inr out)"
  shows "out = Compacted now \<and> fs' = fs(out \<mapsto> sst_bytes (merged_entries (scanned_all tab ps)))"
  using assms(3) write_table_bytes(1)
  by (auto simp: merge_tables_cases [OF assms(1,2)] split: option.splits prod.splits)

lemma merge_tables_calm:
  assumes "\<forall>p\<in>set ps. holds_table fs p (tab p)" "Compacted now \<notin> set ps" "create_err io = None" "wscript io = []"
  shows "\<exists>fs'. merge_tables fs io now ps = Some (fs', Inr (Compacted now))"
  using write_table_calm [of "merged_entries (scanned_all tab ps)"] assms(3,4)
  by (auto simp: merge_tables_cases [OF assms(1,2)])

lemma merge_tables_frame:
  "merge_tables fs io now ps = Some (fs', r) \<Longrightarrow> p \<noteq> Compacted now \<Longrightarrow> fs' p = fs p"
  by (auto simp: merge_tables_def Let_def split: Option.bind_splits sum.splits option.splits prod.splits)

subsection \<open>Compaction and what readers see\<close>

definition fresher :: "(sst_path \<Rightarrow> entry list) \<Rightarrow> sst_path list \<Rightarrow> bool" where
  "fresher tab ps = sorted_wrt (\<lambda>p q. \<forall>e\<in>set (tab p). \<forall>e'\<in>set (tab q).
     Key e = Key e' \<longrightarrow> sint (Version e') < sint (Version e)) ps"

text \<open>A table is quiet when what a scan decodes behind its data block never outranks an entry.\<close>

definition quiet :: "entry list \<Rightarrow> bool" where
  "quiet es \<longleftrightarrow> es = [] \<or>
     (\<forall>x\<in>set (trailing es). \<exists>e\<in>set es. Key e = Key x \<and> sint (Version x) < sint (Version e))"

lemma quiet_scanned:
  assumes "quiet es" "x \<in> set (scanned [] es)"
  shows "x \<in> set es \<or> (\<exists>e\<in>set es. Key e = Key x \<and> sint (Version x) < sint (Version e))"
  using assms by (auto simp: quiet_def scanned_Nil split: if_splits)

lemma find_key_concat_filter:
  assumes "\<forall>p\<in>set ps. \<not> P p \<longrightarrow> k \<notin> Key ` set (tab p)"
  shows "find_key k (concat (map tab (filter P ps))) = find_key k (concat (map tab ps))"
  using assms
proof (induction ps)
  case (Cons p ps)
  then show ?case by (cases "P p") (simp_all add: find_key_append flip: find_key_None_iff split: option.split)
qed simp

lemma fresher_first:
  assumes "fresher tab ps" "find_key k (concat (map tab ps)) = Some e" "p \<in> set ps" "x \<in> set (tab p)" "Key x = k"
    and "\<forall>p\<in>set ps. ksorted (tab p)"
  shows "x = e \<or> sint (Version x) < sint (Version e)"
  using assms
proof (induction ps)
  case (Cons q ps)
  show ?case
  proof (cases "find_key k (tab q)")
    case None
    then have "p \<noteq> q" using Cons.prems(4,5) by (auto simp: find_key_None_iff)
    then show ?thesis
      using Cons None by (auto simp: find_key_append fresher_def)
  next
    case (Some a)
    then have a: "a = e" "e \<in> set (tab q)" "Key e = k"
      using Cons.prems(2) by (auto simp: find_key_append dest: find_key_SomeD)
    show ?thesis
    proof (cases "p = q")
      case True
      then have "find_key k (tab q) = Some x" using Cons.prems by (simp add: find_key_Some_iff)
      then show ?thesis using Some a by simp
    next
      case False
      then show ?thesis using Cons.prems a by (auto simp: fresher_def)
    qed
  qed
qed simp

text \<open>On quiet tables ordered by version, the newest entry of a set of tables is the one their
  first layer shows.\<close>

lemma newest_scanned:
  assumes "fresher tab ps" "\<forall>p\<in>set ps. ksorted (tab p) \<and> quiet (tab p)" "set ts = set ps"
  shows "newest (scanned_all tab ts) k = find_key k (concat (map tab ps))"
proof -
  let ?xs = "scanned_all tab ts"
  have real: "x \<in> set ?xs \<Longrightarrow> \<exists>p\<in>set ps. \<exists>e\<in>set (tab p). Key e = Key x \<and> (x = e \<or> sint (Version x) < sint (Version e))" for x
    using quiet_scanned assms(2,3) by (fastforce simp: scanned_all_def)
  have all: "p \<in> set ps \<Longrightarrow> e \<in> set (tab p) \<Longrightarrow> e \<in> set ?xs" for p e
    using assms(3) by (auto simp: scanned_all_def scanned_Nil intro!: bexI [of _ p])
  show ?thesis
  proof (cases "find_key k (concat (map tab ps))")
    case None
    then have "k \<notin> Key ` set ?xs" using real by (auto simp: find_key_None_iff image_iff) metis
    then show ?thesis using None newest_None_iff [of ?xs k] by simp
  next
    case (Some e)
    then obtain p where p: "p \<in> set ps" "e \<in> set (tab p)" "Key e = k" by (force dest: find_key_SomeD)
    then have "e \<in> set ?xs" using all by blast
    then obtain n where n: "newest ?xs k = Some n" using newest_None_iff [of ?xs k] p(3) by fastforce
    note nn = newest_SomeD [OF n]
    then obtain q e' where e': "q \<in> set ps" "e' \<in> set (tab q)" "Key e' = k" "n = e' \<or> sint (Version n) < sint (Version e')"
      using real [of n] by auto
    have "e' = e \<or> sint (Version e') < sint (Version e)"
      using fresher_first [OF assms(1) Some e'(1-3)] assms(2) by blast
    moreover have "sint (Version e) \<le> sint (Version n)" using nn \<open>e \<in> set ?xs\<close> p(3) by blast
    ultimately have "n = e" using e'(4) by auto
    then show ?thesis using n Some by simp
  qed
qed

lemma remove_files_apply: "remove_files fs ts p = (if p \<in> set ts then None else fs p)"
  unfolding remove_files_def by (induction ts arbitrary: fs) auto

text \<open>The outcome of a run of \<open>compact\<close> that merges.\<close>

definition merged_tab :: "(sst_path \<Rightarrow> entry list) \<Rightarrow> sst_path list \<Rightarrow> i64 \<Rightarrow> sst_path \<Rightarrow> entry list" where
  "merged_tab tab tier now = tab(Compacted now := merged_entries (scanned_all tab tier))"

lemma swap_visible:
  assumes tabs: "fresher tab ps" "\<forall>p\<in>set ps. ksorted (tab p)" "\<forall>t\<in>set tier. quiet (tab t)"
    and tier: "set tier \<subseteq> set ps" "Compacted now \<notin> set ps"
    and apart: "\<forall>t\<in>set tier. \<forall>q\<in>set ps - set tier. Key ` set (tab t) \<inter> Key ` set (tab q) = {}"
  shows "visible (concat (map (merged_tab tab tier now) (Compacted now # filter (\<lambda>t. t \<notin> set tier) ps))) k =
    visible (concat (map tab ps)) k"
proof -
  let ?kept = "filter (\<lambda>t. t \<notin> set tier) ps" and ?old = "filter (\<lambda>t. t \<in> set tier) ps"
  have "fresher tab ?old" using tabs(1) by (simp add: fresher_def sorted_wrt_filter)
  moreover have "set tier = set ?old" using tier(1) by auto
  ultimately have new: "newest (scanned_all tab tier) k = find_key k (concat (map tab ?old))"
    using tabs by (intro newest_scanned) auto
  have "map (merged_tab tab tier now) ?kept = map tab ?kept"
    using tier(2) by (auto simp: merged_tab_def)
  moreover have "merged_tab tab tier now (Compacted now) = merged_entries (scanned_all tab tier)"
    by (simp add: merged_tab_def)
  ultimately have cat: "concat (map (merged_tab tab tier now) (Compacted now # ?kept)) =
      merged_entries (scanned_all tab tier) @ concat (map tab ?kept)" by (simp only: list.map concat.simps)
  show ?thesis
  proof (cases "\<exists>t\<in>set tier. k \<in> Key ` set (tab t)")
    case True
    then have "find_key k (concat (map tab ?kept)) = None" using apart by (auto simp: find_key_None_iff)
    moreover have "find_key k (concat (map tab ?old)) = find_key k (concat (map tab ps))"
      using True apart by (intro find_key_concat_filter) blast
    ultimately show ?thesis
      using new by (auto simp only: cat visible_def find_key_append find_merged_entries split: option.split if_splits)
  next
    case False
    then have "find_key k (concat (map tab ?old)) = None" by (auto simp: find_key_None_iff)
    moreover have "find_key k (concat (map tab ?kept)) = find_key k (concat (map tab ps))"
      using False by (intro find_key_concat_filter) blast
    ultimately show ?thesis
      using new by (simp only: cat visible_def find_key_append find_merged_entries option.case)
  qed
qed

text \<open>The tables the compactor lists are well-formed files, newest first.\<close>

definition tables_ok :: "fs \<Rightarrow> compactor \<Rightarrow> (sst_path \<Rightarrow> entry list) \<Rightarrow> bool" where
  "tables_ok fs c tab \<longleftrightarrow> (\<forall>p\<in>set (ctables c). holds_table fs p (tab p)) \<and> fresher tab (ctables c)"

text \<open>The side conditions under which a compaction is harmless: the tables it merges are quiet, it
  merges all tables that share a key with one of them, and the result is a valid table.\<close>

definition tier_ok :: "(sst_path \<Rightarrow> entry list) \<Rightarrow> sst_path list \<Rightarrow> sst_path list \<Rightarrow> bool" where
  "tier_ok tab tables tier \<longleftrightarrow> (\<forall>t\<in>set tier. quiet (tab t)) \<and>
     (\<forall>t\<in>set tier. \<forall>q\<in>set tables - set tier. Key ` set (tab t) \<inter> Key ` set (tab q) = {}) \<and>
     sst_fits (merged_entries (scanned_all tab tier))"

lemma fresher_cong:
  assumes "\<And>p. p \<in> set ps \<Longrightarrow> tab p = tab' p"
  shows "fresher tab ps \<longleftrightarrow> fresher tab' ps"
  using assms unfolding fresher_def by (intro iffI; elim sorted_wrt_mono_rel [rotated]) auto

lemma tier_ok_cong:
  assumes "\<And>p. p \<in> set tables \<Longrightarrow> tab p = tab' p" "set tier \<subseteq> set tables"
  shows "tier_ok tab tables tier \<longleftrightarrow> tier_ok tab' tables tier"
proof -
  have tier: "tab t = tab' t" if "t \<in> set tier" for t using assms that by blast
  have "scanned_all tab tier = scanned_all tab' tier" by (simp add: scanned_all_def tier cong: map_cong)
  then show ?thesis using assms(1) tier by (simp add: tier_ok_def)
qed

lemma compact_plan_idle:
  "length tables < minCompactTables \<or> length (selectTier srt fs tables) < minCompactTables \<Longrightarrow>
   compact_plan srt fs io now tables = Some (fs, Inr None)"
  by (auto simp: compact_plan_def Let_def)

lemma compact_plan_merge:
  "\<not> (length tables < minCompactTables \<or> length (selectTier srt fs tables) < minCompactTables) \<Longrightarrow>
   merge_tables fs io now (selectTier srt fs tables) = Some (fs', merged) \<Longrightarrow>
   compact_plan srt fs io now tables =
     Some (fs', case merged of Inl e \<Rightarrow> Inl e | Inr p \<Rightarrow> Inr (Some (selectTier srt fs tables, p)))"
  by (simp add: compact_plan_def Let_def)

lemma merge_tables_total:
  assumes "\<forall>p\<in>set ps. holds_table fs p (tab p)"
  shows "\<exists>r. merge_tables fs io now ps = Some r"
proof -
  obtain rs where "open_all fs ps = Some (Inr rs)" using open_all_ok [OF assms] by blast
  then show ?thesis by (simp add: merge_tables_def Let_def split: option.split sum.split prod.split)
qed

lemma compact_returns:
  assumes "sorts_by_size srt" "\<forall>p\<in>set (ctables c). holds_table fs p (tab p)"
  shows "\<exists>r. comp_compact srt c fs io now = Some r"
proof (cases "length (ctables c) < minCompactTables \<or> length (selectTier srt fs (ctables c)) < minCompactTables")
  case True
  then show ?thesis by (simp add: comp_compact_def Tables_def compact_plan_idle)
next
  case False
  have "\<forall>p\<in>set (selectTier srt fs (ctables c)). holds_table fs p (tab p)"
    using assms(2) selectTier_sound [OF assms(1)] by blast
  then obtain fs1 m where "merge_tables fs io now (selectTier srt fs (ctables c)) = Some (fs1, m)"
    using merge_tables_total by (metis prod.exhaust)
  from compact_plan_merge [OF False this] show ?thesis by (cases m) (simp_all add: comp_compact_def Tables_def)
qed

text \<open>Without failing system calls and with enough tables in the tier, a compaction merges.\<close>

lemma compact_merges:
  assumes "sorts_by_size srt" "\<forall>p\<in>set (ctables c). holds_table fs p (tab p)" "create_err io = None" "wscript io = []"
    "minCompactTables \<le> length (ctables c)" "selectTier srt fs (ctables c) = tier" "minCompactTables \<le> length tier"
    "Compacted now \<notin> set (ctables c)"
  shows "comp_compact srt c fs io now = Some (compact_swap c tier (Compacted now),
     remove_files (fs(Compacted now \<mapsto> sst_bytes (merged_entries (scanned_all tab tier)))) tier, None)"
proof -
  have tabs: "\<forall>p\<in>set tier. holds_table fs p (tab p)" and new: "Compacted now \<notin> set tier"
    using assms(2,6,8) selectTier_sound [OF assms(1)] by blast+
  obtain fs1 where m: "merge_tables fs io now tier = Some (fs1, Inr (Compacted now))"
    using merge_tables_calm [OF tabs new assms(3,4)] by blast
  have "compact_plan srt fs io now (ctables c) = Some (fs1, Inr (Some (tier, Compacted now)))"
    using compact_plan_merge [of "ctables c" srt fs io now fs1 "Inr (Compacted now)"] m assms(5-7) by simp
  then show ?thesis using merge_tables_ok [OF tabs new m] by (simp add: comp_compact_def Tables_def)
qed

lemma compact_cases:
  assumes srt: "sorts_by_size srt" and ok: "\<forall>p\<in>set (ctables c). holds_table fs p (tab p)"
    and run: "comp_compact srt c fs io now = Some (c', fs', err)" and new: "Compacted now \<notin> set (ctables c)"
  defines "tier \<equiv> selectTier srt fs (ctables c)"
  shows "(err = None \<and> c' = c \<and> fs' = fs) \<or> (err \<noteq> None \<and> c' = c \<and> (\<forall>p. p \<noteq> Compacted now \<longrightarrow> fs' p = fs p)) \<or>
    (err = None \<and> minCompactTables \<le> length tier \<and> c' = compact_swap c tier (Compacted now) \<and>
     fs' = remove_files (fs(Compacted now \<mapsto> sst_bytes (merged_entries (scanned_all tab tier)))) tier)"
proof (cases "length (ctables c) < minCompactTables \<or> length tier < minCompactTables")
  case True
  then have "compact_plan srt fs io now (ctables c) = Some (fs, Inr None)"
    unfolding tier_def by (rule compact_plan_idle)
  then show ?thesis using run by (simp add: comp_compact_def Tables_def)
next
  case False
  have tabs: "\<forall>p\<in>set tier. holds_table fs p (tab p)" and out: "Compacted now \<notin> set tier"
    using selectTier_sound [OF srt] ok new by (auto simp: tier_def)
  then obtain fs1 r where m: "merge_tables fs io now tier = Some (fs1, r)"
    using merge_tables_total by (metis prod.exhaust)
  note plan = compact_plan_merge [OF False [unfolded tier_def] m [unfolded tier_def]]
  show ?thesis
  proof (cases r)
    case (Inl e)
    then show ?thesis
      using run merge_tables_frame [OF m] by (auto simp: comp_compact_def Tables_def plan)
  next
    case (Inr out)
    then show ?thesis
      using run False merge_tables_ok [OF tabs out, of io fs1] m
      by (simp add: comp_compact_def Tables_def plan tier_def)
  qed
qed

lemma swap_tables_ok:
  assumes ok: "tables_ok fs c tab" and tier: "tier_ok tab (ctables c) tier" "Compacted now \<notin> set (ctables c)" "set tier \<subseteq> set (ctables c)"
  shows "tables_ok (remove_files (fs(Compacted now \<mapsto> sst_bytes (merged_entries (scanned_all tab tier)))) tier)
     (compact_swap c tier (Compacted now)) (merged_tab tab tier now)"
proof -
  let ?kept = "filter (\<lambda>t. t \<notin> set tier) (ctables c)"
  have same: "q \<in> set ?kept \<Longrightarrow> merged_tab tab tier now q = tab q \<and> q \<noteq> Compacted now" for q
    using tier(2) by (auto simp: merged_tab_def)
  have sub: "k \<in> Key ` set (merged_entries (scanned_all tab tier)) \<Longrightarrow> \<exists>t\<in>set tier. k \<in> Key ` set (tab t)" for k
  proof -
    assume "k \<in> Key ` set (merged_entries (scanned_all tab tier))"
    then obtain e where e: "Key e = k" "e \<in> set (scanned_all tab tier)"
      using merged_entries_subset by blast
    then obtain t where t: "t \<in> set tier" "e \<in> set (scanned [] (tab t))" by (auto simp: scanned_all_def)
    then have "quiet (tab t)" using tier(1) by (simp add: tier_ok_def)
    from quiet_scanned [OF this t(2)] e(1) t(1) show ?thesis by (metis image_eqI)
  qed
  have "fresher tab ?kept" using ok by (simp add: tables_ok_def fresher_def sorted_wrt_filter)
  then have kept: "fresher (merged_tab tab tier now) ?kept"
    unfolding fresher_def by (rule sorted_wrt_mono_rel [rotated]) (simp add: same)
  have "Key e \<noteq> Key e'" if "e \<in> set (merged_entries (scanned_all tab tier))" "q \<in> set ?kept" "e' \<in> set (tab q)" for e e' q
  proof
    assume eq: "Key e = Key e'"
    obtain t where "t \<in> set tier" "Key e \<in> Key ` set (tab t)" using sub [of "Key e"] \<open>e \<in> _\<close> by blast
    moreover have "Key e \<in> Key ` set (tab q)" "q \<in> set (ctables c) - set tier" using that eq by auto
    ultimately show False using tier(1) unfolding tier_ok_def by blast
  qed
  then have "fresher (merged_tab tab tier now) (Compacted now # ?kept)"
    using kept same by (simp add: fresher_def) (auto simp: merged_tab_def)
  moreover have "Compacted now \<notin> set tier" using tier(2,3) by blast
  ultimately show ?thesis
    using ok tier same
    by (auto simp: tables_ok_def compact_swap_def remove_files_apply holds_table_def tier_ok_def
        merged_entries_sorted) (auto simp: merged_tab_def merged_entries_sorted)
qed

lemma swap_subset:
  assumes "fresher tab ps" "\<forall>p\<in>set ps. ksorted (tab p)" "\<forall>t\<in>set tier. quiet (tab t)"
    "set tier \<subseteq> set ps" "Compacted now \<notin> set ps"
  shows "set (concat (map (merged_tab tab tier now) (Compacted now # filter (\<lambda>t. t \<notin> set tier) ps))) \<subseteq>
    set (concat (map tab ps))"
proof -
  let ?old = "filter (\<lambda>t. t \<in> set tier) ps"
  have "newest (scanned_all tab tier) k = find_key k (concat (map tab ?old))" for k
    using assms by (intro newest_scanned) (auto simp: fresher_def sorted_wrt_filter)
  then have "e \<in> set (concat (map tab ps))" if "e \<in> set (merged_entries (scanned_all tab tier))" for e
    using that by (force simp: set_merged_entries dest: find_key_SomeD)
  then show ?thesis using assms(5) by (auto simp: merged_tab_def split: if_splits)
qed

text \<open>The second critical section of a compaction whose tier is harmless when it is reached.\<close>

lemma swap_ok:
  assumes "tables_ok fs c tab" "tier_ok tab (ctables c) tier" "Compacted now \<notin> set (ctables c)" "set tier \<subseteq> set (ctables c)"
    "fs (Compacted now) = Some (sst_bytes (merged_entries (scanned_all tab tier)))"
  defines "c' \<equiv> compact_swap c tier (Compacted now)" and "tab' \<equiv> merged_tab tab tier now"
  shows "tables_ok (remove_files fs tier) c' tab'" "set (concat (map tab' (ctables c'))) \<subseteq> set (concat (map tab (ctables c)))"
    "visible (concat (map tab' (ctables c'))) k = visible (concat (map tab (ctables c))) k"
proof -
  have ok: "\<forall>p\<in>set (ctables c). ksorted (tab p)" "fresher tab (ctables c)"
    using assms(1) by (auto simp: tables_ok_def holds_table_def)
  have "fs = fs(Compacted now \<mapsto> sst_bytes (merged_entries (scanned_all tab tier)))" using assms(5) by (simp add: fun_upd_idem)
  then show "tables_ok (remove_files fs tier) c' tab'"
    unfolding c'_def tab'_def using swap_tables_ok [OF assms(1-4)] by simp
  show "set (concat (map tab' (ctables c'))) \<subseteq> set (concat (map tab (ctables c)))"
    using swap_subset [OF ok(2,1) _ assms(4,3)] assms(2) by (simp add: c'_def tab'_def tier_ok_def compact_swap_def)
  show "visible (concat (map tab' (ctables c'))) k = visible (concat (map tab (ctables c))) k"
    using swap_visible [OF ok(2,1) _ assms(4,3), of k] assms(2) by (simp add: c'_def tab'_def tier_ok_def compact_swap_def)
qed

lemma compact_ok:
  assumes "sorts_by_size srt" "tables_ok fs c tab" "comp_compact srt c fs io now = Some (c', fs', err)"
    "Compacted now \<notin> set (ctables c)" "tier_ok tab (ctables c) (selectTier srt fs (ctables c))"
  shows "\<exists>tab'. tables_ok fs' c' tab' \<and> (\<forall>k. visible (concat (map tab' (ctables c'))) k = visible (concat (map tab (ctables c))) k)"
proof -
  let ?tier = "selectTier srt fs (ctables c)" and ?fs = "fs(Compacted now \<mapsto> sst_bytes (merged_entries (scanned_all tab (selectTier srt fs (ctables c)))))"
  have sub: "set ?tier \<subseteq> set (ctables c)" using selectTier_sound [OF assms(1)] by blast
  have ok: "\<forall>p\<in>set (ctables c). holds_table fs p (tab p)" "fresher tab (ctables c)"
    using assms(2) by (auto simp: tables_ok_def)
  consider "c' = c" "\<forall>p. p \<noteq> Compacted now \<longrightarrow> fs' p = fs p"
    | "c' = compact_swap c ?tier (Compacted now)" "fs' = remove_files ?fs ?tier"
    using compact_cases [OF assms(1) ok(1) assms(3,4)] by blast
  then show ?thesis
  proof cases
    case 1
    have "p \<in> set (ctables c) \<Longrightarrow> fs' p = fs p" for p using 1(2) assms(4) by metis
    then have "tables_ok fs' c' tab" using ok 1(1) by (simp add: tables_ok_def holds_table_def)
    then show ?thesis using 1 by blast
  next
    case 2
    have "tables_ok ?fs c tab" using assms(2,4) by (auto simp: tables_ok_def holds_table_def)
    from swap_ok [OF this assms(5,4) sub] 2 show ?thesis by auto
  qed
qed

text \<open>The first part of a compaction: it changes the output file only, and leaves the merge of the tier there.\<close>

lemma compact_plan_ok:
  assumes "sorts_by_size srt" "\<forall>p\<in>set tables. holds_table fs p (tab p)" "Compacted now \<notin> set tables"
    "compact_plan srt fs io now tables = Some (fs', res)"
  shows "p \<noteq> Compacted now \<Longrightarrow> fs' p = fs p"
    "res = Inr (Some (tier, out)) \<Longrightarrow> set tier \<subseteq> set tables \<and> out = Compacted now \<and>
       fs' out = Some (sst_bytes (merged_entries (scanned_all tab tier)))"
proof -
  let ?tier = "selectTier srt fs tables"
  have sub: "set ?tier \<subseteq> set tables" using selectTier_sound [OF assms(1)] by blast
  consider "fs' = fs" "res = Inr None"
    | m where "merge_tables fs io now ?tier = Some (fs', m)" "res = (case m of Inl e \<Rightarrow> Inl e | Inr q \<Rightarrow> Inr (Some (?tier, q)))"
    using assms(4) by (auto simp: compact_plan_def Let_def split: if_splits Option.bind_splits)
  then have "(p \<noteq> Compacted now \<longrightarrow> fs' p = fs p) \<and> (res = Inr (Some (tier, out)) \<longrightarrow> set tier \<subseteq> set tables \<and> out = Compacted now \<and>
       fs' out = Some (sst_bytes (merged_entries (scanned_all tab tier))))"
  proof cases
    case 2
    have "\<forall>p\<in>set ?tier. holds_table fs p (tab p)" "Compacted now \<notin> set ?tier" using assms(2,3) sub by blast+
    from merge_tables_ok [OF this, of io fs'] show ?thesis
      using 2 sub merge_tables_frame [OF 2(1), of p] by (auto split: sum.splits)
  qed simp
  then show "p \<noteq> Compacted now \<Longrightarrow> fs' p = fs p"
    "res = Inr (Some (tier, out)) \<Longrightarrow> set tier \<subseteq> set tables \<and> out = Compacted now \<and>
       fs' out = Some (sst_bytes (merged_entries (scanned_all tab tier)))" by blast+
qed

subsection \<open>Properties\<close>

text \<open>C10. \<open>merge\<close> of well-formed tables into a new file, when it returns a path, has written a complete table
  there and changed no other file. The table is sorted; an entry is in it exactly when it is live and is,
  of all entries that scanning the tables one after the other yields for its key, the first one with the
  highest version. So a key whose highest version is a tombstone is not in it, and every other key is.\<close>

theorem merge_keeps_newest_live:
  assumes "\<forall>p\<in>set ps. holds_table fs p (tab p)" "Compacted now \<notin> set ps" "merge_tables fs io now ps = Some (fs', Inr out)"
  shows "\<exists>es. fs' = fs(out \<mapsto> sst_bytes es) \<and> ksorted es \<and>
    (\<forall>e. e \<in> set es \<longleftrightarrow> newest (scanned_all tab ps) (Key e) = Some e \<and> \<not> Deleted e) \<and>
    (\<forall>k. k \<in> Key ` set (scanned_all tab ps) \<longrightarrow>
       k \<in> Key ` set es \<or> (\<exists>e. newest (scanned_all tab ps) k = Some e \<and> Deleted e))"
proof -
  let ?es = "merged_entries (scanned_all tab ps)"
  have "fs' = fs(out \<mapsto> sst_bytes ?es)" using merge_tables_ok [OF assms] by simp
  moreover have "k \<in> Key ` set ?es \<or> (\<exists>e. newest (scanned_all tab ps) k = Some e \<and> Deleted e)"
    if "k \<in> Key ` set (scanned_all tab ps)" for k
  proof -
    have "newest (scanned_all tab ps) k \<noteq> None" using that by (simp add: newest_None_iff)
    then obtain e where e: "newest (scanned_all tab ps) k = Some e" by blast
    then have "Key e = k" using newest_SomeD by blast
    then show ?thesis using e set_merged_entries [of e "scanned_all tab ps"] by (cases "Deleted e") auto
  qed
  ultimately show ?thesis using merged_entries_sorted set_merged_entries by blast
qed

text \<open>Every table of the selected tier exists and is at most ten times as large as any existing
  table.\<close>

theorem tier_within_factor:
  assumes "sorts_by_size srt" "p \<in> set (selectTier srt fs tables)" "q \<in> set tables" "fs q = Some g"
  shows "p \<in> set tables \<and> (\<exists>f. fs p = Some f \<and> length f \<le> sizeTierFactor * length g)"
proof -
  obtain b ps where b: "selectTier srt fs tables = b # ps" using assms(2) by (cases "selectTier srt fs tables") auto
  then obtain fb where fb: "fs b = Some fb" "length fb \<le> length g" using selectTier_smallest [OF assms(1) b assms(3,4)] by blast
  obtain s sized where xs: "srt (stat_sizes fs tables) = (b, s) # sized"
    using b by (auto simp: selectTier_def split: list.splits)
  have "(b, s) \<in> set (srt (stat_sizes fs tables))" using xs by simp
  then have s: "s = length fb" using fb(1) by (simp add: set_srt [OF assms(1)] mem_stat_sizes)
  have "p = b \<or> (\<exists>n. (p, n) \<in> set (srt (stat_sizes fs tables)) \<and> within_factor s n)"
    using assms(2) xs by (auto simp: selectTier_def)
  then consider "p = b" | n where "(p, n) \<in> set (srt (stat_sizes fs tables))" "within_factor s n" by blast
  then have "\<exists>f. fs p = Some f \<and> length f \<le> sizeTierFactor * length fb"
  proof cases
    case 2
    then show ?thesis using s by (auto simp: within_factor_def set_srt [OF assms(1)] mem_stat_sizes)
  qed (use fb in \<open>simp add: sizeTierFactor_def\<close>)
  moreover have "sizeTierFactor * length fb \<le> sizeTierFactor * length g" using fb(2) by simp
  ultimately show ?thesis using selectTier_sound [OF assms(1,2)] by (meson le_trans)
qed

text \<open>C11. A compaction changes no read when the tables are ordered by version and the merged tier is
  harmless: it returns, the tables stay well formed and ordered, and every key shows what it showed
  before, whether the compaction merged, had nothing to do or failed.\<close>

theorem compact_preserves_reads:
  assumes "sorts_by_size srt" "tables_ok fs c tab" "Compacted now \<notin> set (ctables c)"
    "tier_ok tab (ctables c) (selectTier srt fs (ctables c))"
  shows "\<exists>c' fs' err tab'. comp_compact srt c fs io now = Some (c', fs', err) \<and> tables_ok fs' c' tab' \<and>
    (\<forall>k. visible (concat (map tab' (ctables c'))) k = visible (concat (map tab (ctables c))) k)"
proof -
  obtain c' fs' err where "comp_compact srt c fs io now = Some (c', fs', err)"
    using compact_returns [OF assms(1)] assms(2) by (metis tables_ok_def prod.exhaust)
  then show ?thesis using compact_ok [OF assms(1,2) _ assms(3,4)] by blast
qed

text \<open>A directory with four one-entry tables, and one that has an older, larger table below them.\<close>

definition gone :: "bytes \<Rightarrow> i64 \<Rightarrow> entry" where
  "gone k ver = \<lparr>Key = k, Value = [], Version = ver, Deleted = True\<rparr>"

definition demo_tab :: "entry list \<Rightarrow> sst_path \<Rightarrow> entry list" where
  "demo_tab es p = (if p = Flushed 1 then [live [1] (replicate 600 0) 1]
     else if p = Flushed 2 then es
     else if p = Flushed 3 then [live [3] [] 7] else if p = Flushed 4 then [live [4] [] 8]
     else if p = Flushed 5 then [live [5] [] 9] else [])"

definition demo_paths :: "sst_path list" where
  "demo_paths = [Flushed 5, Flushed 4, Flushed 3, Flushed 2]"

definition demo_fs :: "entry list \<Rightarrow> sst_path list \<Rightarrow> fs" where
  "demo_fs es ps p = (if p \<in> set ps then Some (sst_bytes (demo_tab es p)) else None)"

definition no_io_error :: io where
  "no_io_error = \<lparr>create_err = None, wscript = []\<rparr>"

lemma sort_by_size: "sorts_by_size (sort_key snd)"
  by (simp add: sorts_by_size_def)

lemmas demo_defs = demo_tab_def demo_paths_def demo_fs_def

lemma length_sst_bytes: "length (sst_bytes es) = length (data_block es) + index_length (index_from 0 es) + 24"
  by (simp add: sst_bytes_def length_index_block footer_fields footerSize_def)

lemma one_entry_fits: "length (Key e) < 2 ^ 20 \<Longrightarrow> length (Value e) < 2 ^ 20 \<Longrightarrow> sst_fits [e]"
  by (simp add: sst_fits_def encode_entry_def index_length_def)

lemma trailing_one:
  "trailing [live [2] [] 6] = [live [2] [] 0]" "trailing [live [3] [] 7] = [live [3] [] 0]"
  "trailing [live [4] [] 8] = [live [4] [] 0]" "trailing [live [5] [] 9] = [live [5] [] 0]"
  "trailing [gone [1] 2] = [live [1] [] 0]"
  by code_simp+

lemma quiet_demo: "es = [live [2] [] 6] \<or> es = [gone [1] 2] \<Longrightarrow> p \<in> set demo_paths \<Longrightarrow> quiet (demo_tab es p)"
  by (auto simp: demo_defs quiet_def trailing_one) (simp_all add: gone_def)

lemma demo_holds:
  assumes "sst_fits es" "ksorted es" "set ps \<subseteq> insert (Flushed 1) (set demo_paths)"
  shows "\<forall>p\<in>set ps. holds_table (demo_fs es ps) p (demo_tab es p)"
  using assms by (auto simp: holds_table_def demo_defs intro!: one_entry_fits)

lemma demo_sizes:
  "length (sst_bytes [live [1] (replicate 600 0) 1]) = 655" "length (sst_bytes [live [3] [] 7]) = 55"
  "length (sst_bytes [live [4] [] 8]) = 55" "length (sst_bytes [live [5] [] 9]) = 55"
  "length (sst_bytes [live [2] [] 6]) = 55" "length (sst_bytes [gone [1] 2]) = 55" "length (sst_bytes demo_table) = 90"
  by (simp_all add: length_sst_bytes encode_entry_def index_length_def gone_def demo_table_def)

lemma demo_tier:
  assumes "length (sst_bytes es) = 55 \<or> length (sst_bytes es) = 90"
  shows "selectTier (sort_key snd) (demo_fs es (demo_paths @ [Flushed 1])) (demo_paths @ [Flushed 1]) = demo_paths"
    and "selectTier (sort_key snd) (demo_fs es demo_paths) demo_paths = demo_paths"
  using assms by (auto simp: selectTier_def stat_sizes_def map_filter_simps demo_defs demo_sizes within_factor_def sizeTierFactor_def)

theorem compact_preserves_reads_witness:
  "\<exists>c' fs' err tab'. comp_compact (sort_key snd) \<lparr>ctables = demo_paths\<rparr> (demo_fs [live [2] [] 6] demo_paths) no_io_error 10 = Some (c', fs', err) \<and>
     visible (concat (map tab' (ctables c'))) [2] = Some (live [2] [] 6)"
proof -
  let ?es = "[live [2] [] 6]"
  let ?c = "\<lparr>ctables = demo_paths\<rparr>" and ?fs = "demo_fs ?es demo_paths" and ?tab = "demo_tab ?es"
  have fits: "sst_fits ?es" "ksorted ?es" by (simp_all add: one_entry_fits)
  have ok: "tables_ok ?fs ?c ?tab"
    using demo_holds [OF fits, of demo_paths] by (auto simp: tables_ok_def fresher_def demo_defs)
  have "merged_entries (scanned_all ?tab demo_paths) = [live [2] [] 6, live [3] [] 7, live [4] [] 8, live [5] [] 9]"
    by (simp add: scanned_all_def demo_defs scanned_Nil trailing_one) code_simp
  then have "tier_ok ?tab demo_paths demo_paths"
    using quiet_demo [of ?es] by (simp add: tier_ok_def sst_fits_def encode_entry_def index_length_def)
  then have "tier_ok ?tab (ctables ?c) (selectTier (sort_key snd) ?fs (ctables ?c))"
    using demo_tier(2) [of ?es] by (simp add: demo_sizes)
  moreover have "Compacted 10 \<notin> set (ctables ?c)" by (simp add: demo_paths_def)
  ultimately obtain c' fs' err tab' where r: "comp_compact (sort_key snd) ?c ?fs no_io_error 10 = Some (c', fs', err)"
      "\<forall>k. visible (concat (map tab' (ctables c'))) k = visible (concat (map ?tab (ctables ?c))) k"
    using compact_preserves_reads [OF sort_by_size ok, of 10 no_io_error] by blast
  have "visible (concat (map ?tab (ctables ?c))) [2] = Some (live [2] [] 6)" by (simp add: demo_defs visible_def)
  then have "visible (concat (map tab' (ctables c'))) [2] = Some (live [2] [] 6)" by (simp only: r(2))
  with r(1) show ?thesis by (intro exI conjI)
qed

theorem tier_within_factor_witness:
  "\<exists>f. demo_fs [gone [1] 2] demo_paths (Flushed 3) = Some f \<and>
     length f \<le> sizeTierFactor * length (sst_bytes [live [4] [] 8])"
  using tier_within_factor [OF sort_by_size, of "Flushed 3" "demo_fs [gone [1] 2] demo_paths" demo_paths "Flushed 4"
      "sst_bytes [live [4] [] 8]"] demo_tier(2) [of "[gone [1] 2]"]
  by (simp add: demo_sizes) (simp add: demo_defs)

theorem merge_keeps_newest_live_witness:
  "\<exists>fs' es. merge_tables (demo_fs [live [2] [] 6] demo_paths) no_io_error 10 demo_paths = Some (fs', Inr (Compacted 10)) \<and>
     fs' (Compacted 10) = Some (sst_bytes es) \<and> live [3] [] 7 \<in> set es"
proof -
  let ?tab = "demo_tab [live [2] [] 6]"
  have holds: "\<forall>p\<in>set demo_paths. holds_table (demo_fs [live [2] [] 6] demo_paths) p (?tab p)"
    by (intro demo_holds) (auto simp: one_entry_fits)
  have new: "Compacted 10 \<notin> set demo_paths" by (simp add: demo_paths_def)
  obtain fs' where m: "merge_tables (demo_fs [live [2] [] 6] demo_paths) no_io_error 10 demo_paths = Some (fs', Inr (Compacted 10))"
    using merge_tables_calm [OF holds new, of no_io_error] by (auto simp: no_io_error_def)
  have "newest (scanned_all ?tab demo_paths) [3] = Some (live [3] [] 7)"
    by (simp add: scanned_all_def demo_defs scanned_Nil trailing_one) code_simp
  then show ?thesis using merge_keeps_newest_live [OF holds new m] m by fastforce
qed

text \<open>C33. Compaction drops tombstones although it merges only a tier. With four small tables, one of
  them holding the tombstone of a key, and an older larger table holding its value, a compaction
  without any I/O error makes the deleted key readable again.\<close>

theorem compaction_revives_deleted_key:
  "\<exists>fs c tab c' fs' tab'. tables_ok fs c tab \<and> comp_compact (sort_key snd) c fs no_io_error 10 = Some (c', fs', None) \<and>
     tables_ok fs' c' tab' \<and> visible (concat (map tab (ctables c))) [1] = None \<and>
     visible (concat (map tab' (ctables c'))) [1] = Some (live [1] (replicate 600 0) 1)"
proof -
  let ?es = "[gone [1] 2]"
  let ?ps = "demo_paths @ [Flushed 1]"
  let ?c = "\<lparr>ctables = ?ps\<rparr>" and ?fs = "demo_fs ?es ?ps" and ?tab = "demo_tab ?es"
  let ?c' = "compact_swap ?c demo_paths (Compacted 10)"
  let ?fs' = "remove_files (?fs(Compacted 10 \<mapsto> sst_bytes (merged_entries (scanned_all ?tab demo_paths)))) demo_paths"
  let ?tab' = "merged_tab ?tab demo_paths 10"
  have fits: "sst_fits ?es" "ksorted ?es" by (simp_all add: one_entry_fits gone_def)
  have holds: "\<forall>p\<in>set ?ps. holds_table ?fs p (?tab p)" by (rule demo_holds [OF fits]) auto
  have ok: "tables_ok ?fs ?c ?tab" using holds by (auto simp: tables_ok_def fresher_def demo_defs gone_def)
  have run: "comp_compact (sort_key snd) ?c ?fs no_io_error 10 = Some (?c', ?fs', None)"
    using holds demo_tier(1) [of ?es]
    by (intro compact_merges [OF sort_by_size]) (auto simp: no_io_error_def minCompactTables_def demo_paths_def demo_sizes)
  have m: "merged_entries (scanned_all ?tab demo_paths) = [live [3] [] 7, live [4] [] 8, live [5] [] 9]"
    by (simp add: scanned_all_def demo_defs scanned_Nil trailing_one) code_simp
  have c': "ctables ?c' = [Compacted 10, Flushed 1]" by (simp add: compact_swap_def demo_paths_def)
  have tab': "?tab' (Compacted 10) = [live [3] [] 7, live [4] [] 8, live [5] [] 9]" "?tab' (Flushed 1) = [live [1] (replicate 600 0) 1]"
    by (simp_all add: merged_tab_def m demo_tab_def)
  have "holds_table ?fs' (Compacted 10) (?tab' (Compacted 10))"
    by (simp add: holds_table_def remove_files_apply demo_paths_def [symmetric] tab' m)
      (simp add: demo_paths_def sst_fits_def encode_entry_def index_length_def)
  moreover have "holds_table ?fs' (Flushed 1) (?tab' (Flushed 1))"
    using holds by (simp add: holds_table_def remove_files_apply tab' demo_tab_def) (simp add: demo_paths_def)
  ultimately have ok': "tables_ok ?fs' ?c' ?tab'" by (simp add: tables_ok_def c' fresher_def tab')
  have v: "visible (concat (map ?tab (ctables ?c))) [1] = None" by (simp add: demo_defs visible_def gone_def)
  have v': "visible (concat (map ?tab' (ctables ?c'))) [1] = Some (live [1] (replicate 600 0) 1)"
    by (simp add: c' tab' visible_def)
  show ?thesis by (intro exI conjI) (rule ok, rule run, rule ok', rule v, rule v')
qed

text \<open>C34. What \<open>Scan\<close> decodes behind the data block takes part in the merge. A compaction of four
  tables without any I/O error replaces the stored value of a key, the only one ever written, by an
  empty value with another version.\<close>

theorem compaction_loses_value:
  "\<exists>fs c tab c' fs' tab'. tables_ok fs c tab \<and> comp_compact (sort_key snd) c fs no_io_error 10 = Some (c', fs', None) \<and>
     tables_ok fs' c' tab' \<and> visible (concat (map tab (ctables c))) [97] = Some (live [97] [1] 1) \<and>
     visible (concat (map tab' (ctables c'))) [97] = Some (live [97] [] 2)"
proof -
  let ?c = "\<lparr>ctables = demo_paths\<rparr>" and ?fs = "demo_fs demo_table demo_paths" and ?tab = "demo_tab demo_table"
  let ?c' = "compact_swap ?c demo_paths (Compacted 10)"
  let ?fs' = "remove_files (?fs(Compacted 10 \<mapsto> sst_bytes (merged_entries (scanned_all ?tab demo_paths)))) demo_paths"
  let ?tab' = "merged_tab ?tab demo_paths 10"
  let ?m = "[live [3] [] 7, live [4] [] 8, live [5] [] 9, live [97] [] 2, live [98, 98] [2] 5]"
  have holds: "\<forall>p\<in>set demo_paths. holds_table ?fs p (?tab p)" by (rule demo_holds [OF demo_table_fits]) auto
  have ok: "tables_ok ?fs ?c ?tab" using holds by (auto simp: tables_ok_def fresher_def demo_defs demo_table_def)
  have run: "comp_compact (sort_key snd) ?c ?fs no_io_error 10 = Some (?c', ?fs', None)"
    using holds demo_tier(2) [of demo_table]
    by (intro compact_merges [OF sort_by_size]) (auto simp: no_io_error_def minCompactTables_def demo_paths_def demo_sizes)
  have m: "merged_entries (scanned_all ?tab demo_paths) = ?m"
    by (simp add: scanned_all_def demo_defs scanned_Nil trailing_one demo_table_trailing) code_simp
  have c': "ctables ?c' = [Compacted 10]" by (simp add: compact_swap_def)
  have tab': "?tab' (Compacted 10) = ?m" by (simp add: merged_tab_def m)
  have "holds_table ?fs' (Compacted 10) (?tab' (Compacted 10))"
    by (simp add: holds_table_def remove_files_apply demo_paths_def [symmetric] tab' m)
      (simp add: demo_paths_def sst_fits_def encode_entry_def index_length_def)
  then have ok': "tables_ok ?fs' ?c' ?tab'" by (simp add: tables_ok_def c' fresher_def)
  have v: "visible (concat (map ?tab (ctables ?c))) [97] = Some (live [97] [1] 1)" by (simp add: demo_defs visible_def demo_table_def)
  have v': "visible (concat (map ?tab' (ctables ?c'))) [97] = Some (live [97] [] 2)" by (simp add: c' tab' visible_def)
  show ?thesis by (intro exI conjI) (rule ok, rule run, rule ok', rule v, rule v')
qed

end
