(* ===== verification/Engine.thy ===== *)
theory Engine
  imports Skiplist Wal Compaction
begin

text \<open>
  \<open>internal/storage/engine.go\<close>: the LSM engine. A write goes to the write-ahead log and then to
  the memtable; \<open>flush\<close> turns the memtable into a table file; a read asks the memtable, the
  memtable being flushed, and the tables from the newest to the oldest.

  \<^item> The engine's own state is the record \<open>engine\<close>; \<open>eflushCh\<close> is the one-slot channel
    \<open>flushCh\<close>, and \<open>efs\<close> the directory \<open>sst/\<close>. Writes come from the Raft FSM, one at a
    time, so \<open>Put\<close> waits for its log append as \<open>wal_Append_wait\<close> does. \<open>flush\<close> runs in
    its own goroutine and holds the lock twice; its three parts are separate definitions, and the
    step relation below interleaves them with everything else.
  \<^item> \<open>enc\<close> and \<open>dec\<close> stand for \<open>json.Marshal\<close> and \<open>json.Unmarshal\<close> on
    \<open>walRecord\<close>; \<open>codec_ok\<close> says that a record with a valid UTF-8 key survives the trip.
  \<^item> \<open>draw\<close> is the randomness of a skip-list insertion, \<open>order\<close> the order in which Go
    ranges over the map \<open>seen\<close> of \<open>Scan\<close>, \<open>io\<close> the outcome of the system calls.
\<close>

record walRecord =
  rOp :: string
  rKey :: bytes
  rValue :: bytes
  rVersion :: i64

record engine =
  ememtable :: skiplist
  eimmutable :: "skiplist option"
  ewal :: wal
  ecompact :: compactor
  efs :: fs
  emaxMem :: i64
  eflushCh :: bool

definition defaultMemtableSizeMB :: i64 where
  "defaultMemtableSizeMB = 64"

definition replay_record ::
  "(bytes \<Rightarrow> walRecord option) \<Rightarrow> skiplist \<Rightarrow> rng \<times> bytes \<Rightarrow> skiplist option" where
  "replay_record dec m = (\<lambda>(draw, raw).
     case dec raw of
       None \<Rightarrow> Some m
     | Some rec \<Rightarrow>
         if rOp rec = ''put'' then sl_Put draw m (rKey rec) (rValue rec) (rVersion rec)
         else if rOp rec = ''delete'' then sl_Delete draw m (rKey rec) (rVersion rec)
         else Some m)"

text \<open>\<open>recover\<close>: a checksum error only ends the replay (the code logs a warning).\<close>

definition eng_recover ::
  "(bytes \<Rightarrow> walRecord option) \<Rightarrow> (nat \<Rightarrow> rng) \<Rightarrow> bytes option \<Rightarrow> engine \<Rightarrow> engine option" where
  "eng_recover dec draws file e = (let records = fst (ReadAll file) in do {
     m \<leftarrow> foldM (replay_record dec) (ememtable e) (zip (map draws [0..<length records]) records);
     Some (e\<lparr>ememtable := m\<rparr>)
   })"

text \<open>\<open>Open\<close> on a directory with the log file \<open>file\<close> and the table files \<open>tabs\<close>;
  \<open>openErr\<close> is the error of \<open>MkdirAll\<close> or \<open>wal.Open\<close>, which creates a missing log.\<close>

definition eng_Open ::
  "(bytes \<Rightarrow> walRecord option) \<Rightarrow> (nat \<Rightarrow> rng) \<Rightarrow> goerror option \<Rightarrow> nat option list \<Rightarrow> bytes option \<Rightarrow> fs \<Rightarrow>
   i64 \<Rightarrow> engine result option" where
  "eng_Open dec draws openErr script file tabs memtableSizeMB =
     (case openErr of
        Some e \<Rightarrow> Some (Inl e)
      | None \<Rightarrow>
          let mb = (if sint memtableSizeMB \<le> 0 then defaultMemtableSizeMB else memtableSizeMB);
              old = (case file of None \<Rightarrow> [] | Some f \<Rightarrow> f);
              e = \<lparr>ememtable = sl_New, eimmutable = None, ewal = wal_Open old script, ecompact = comp_New,
                   efs = tabs, emaxMem = push_bit 20 mb, eflushCh = False\<rparr>
          in do { e' \<leftarrow> eng_recover dec draws (Some old) e; Some (Inr e') })"

definition eng_Put ::
  "(walRecord \<Rightarrow> bytes) \<Rightarrow> rng \<Rightarrow> engine \<Rightarrow> bytes \<Rightarrow> bytes \<Rightarrow> i64 \<Rightarrow> (engine \<times> goerror option) option" where
  "eng_Put enc draw e key val version = do {
     (w, err) \<leftarrow> wal_Append_wait (ewal e) (enc \<lparr>rOp = ''put'', rKey = key, rValue = val, rVersion = version\<rparr>);
     (case err of
        Some x \<Rightarrow> Some (e\<lparr>ewal := w\<rparr>, Some x)
      | None \<Rightarrow> do {
          m \<leftarrow> sl_Put draw (ememtable e) key val version;
          let needFlush = (sint (sl_MemSize m) \<ge> sint (emaxMem e));
          Some (e\<lparr>ewal := w, ememtable := m, eflushCh := eflushCh e \<or> needFlush\<rparr>, None)
        })
   }"

definition eng_Delete ::
  "(walRecord \<Rightarrow> bytes) \<Rightarrow> rng \<Rightarrow> engine \<Rightarrow> bytes \<Rightarrow> i64 \<Rightarrow> (engine \<times> goerror option) option" where
  "eng_Delete enc draw e key version = do {
     (w, err) \<leftarrow> wal_Append_wait (ewal e) (enc \<lparr>rOp = ''delete'', rKey = key, rValue = [], rVersion = version\<rparr>);
     (case err of
        Some x \<Rightarrow> Some (e\<lparr>ewal := w\<rparr>, Some x)
      | None \<Rightarrow> do {
          m \<leftarrow> sl_Delete draw (ememtable e) key version;
          Some (e\<lparr>ewal := w, ememtable := m\<rparr>, None)
        })
   }"

text \<open>\<open>toEntry\<close> copies the four fields of a memtable entry; all entry types are one record here.\<close>

definition toEntry :: "entry \<Rightarrow> entry" where
  "toEntry se = \<lparr>Key = Key se, Value = Value se, Version = Version se, Deleted = Deleted se\<rparr>"

text \<open>The loop of \<open>Get\<close> over a list of table paths.\<close>

fun get_tables :: "fs \<Rightarrow> sst_path list \<Rightarrow> bytes \<Rightarrow> (entry \<times> bool) option" where
  "get_tables fs [] key = Some (zeroEntry, False)"
| "get_tables fs (p # ps) key = do {
     opened \<leftarrow> OpenReader (fs p);
     (case opened of
        Inl err \<Rightarrow> get_tables fs ps key
      | Inr r \<Rightarrow> do {
          res \<leftarrow> sst_Get r key;
          (case res of
             Inl err \<Rightarrow> get_tables fs ps key
           | Inr (en, found) \<Rightarrow> if \<not> found then get_tables fs ps key else Some (en, \<not> Deleted en))
        })
   }"

definition eng_Get :: "engine \<Rightarrow> bytes \<Rightarrow> (entry \<times> bool) option" where
  "eng_Get e key = do {
     (en, ok) \<leftarrow> sl_Get (ememtable e) key;
     (if ok then Some (toEntry en, \<not> Deleted en)
      else do {
        (en2, ok2) \<leftarrow> (case eimmutable e of None \<Rightarrow> Some (zeroEntry, False) | Some m \<Rightarrow> sl_Get m key);
        (if ok2 then Some (toEntry en2, \<not> Deleted en2) else get_tables (efs e) (Tables (ecompact e)) key)
      })
   }"

text \<open>\<open>Scan\<close>: the map \<open>seen\<close> keeps the first entry of every key.\<close>

definition note_first :: "entry \<Rightarrow> (bytes \<times> entry) list \<Rightarrow> (bytes \<times> entry) list" where
  "note_first se seen = (case map_of seen (Key se) of None \<Rightarrow> seen @ [(Key se, se)] | Some _ \<Rightarrow> seen)"

fun scan_tables ::
  "fs \<Rightarrow> sst_path list \<Rightarrow> bytes \<Rightarrow> int \<Rightarrow> (bytes \<times> entry) list \<Rightarrow> (bytes \<times> entry) list option" where
  "scan_tables fs [] pfx limit seen = Some seen"
| "scan_tables fs (p # ps) pfx limit seen = do {
     opened \<leftarrow> OpenReader (fs p);
     (case opened of
        Inl err \<Rightarrow> scan_tables fs ps pfx limit seen
      | Inr r \<Rightarrow>
          (case sst_Scan r pfx limit of
             Inl err \<Rightarrow> scan_tables fs ps pfx limit seen
           | Inr entries \<Rightarrow> scan_tables fs ps pfx limit (fold note_first entries seen)))
   }"

definition eng_Scan :: "(entry list \<Rightarrow> entry list) \<Rightarrow> engine \<Rightarrow> bytes \<Rightarrow> int \<Rightarrow> entry list option" where
  "eng_Scan order e pfx limit = do {
     es1 \<leftarrow> sl_Scan (ememtable e) pfx [] limit;
     es2 \<leftarrow> (case eimmutable e of None \<Rightarrow> Some [] | Some m \<Rightarrow> sl_Scan m pfx [] limit);
     seen \<leftarrow> scan_tables (efs e) (Tables (ecompact e)) pfx limit 
             (fold note_first (map toEntry es2) (fold note_first (map toEntry es1) []));
     Some (filter (\<lambda>en. \<not> Deleted en) (order (map snd seen)))
   }"

definition eng_Snapshot :: "(entry list \<Rightarrow> entry list) \<Rightarrow> engine \<Rightarrow> entry list option" where
  "eng_Snapshot order e = eng_Scan order e [] 0"

definition eng_Restore :: "(nat \<Rightarrow> rng) \<Rightarrow> engine \<Rightarrow> entry list \<Rightarrow> (engine \<times> goerror option) option" where
  "eng_Restore draws e entries = do {
     m \<leftarrow> foldM (\<lambda>m (draw, en). sl_Put draw m (Key en) (Value en) (Version en)) sl_New
           (zip (map draws [0..<length entries]) entries);
     Some (e\<lparr>ememtable := m\<rparr>, None)
   }"

text \<open>\<open>flush\<close>: the first critical section (\<open>False\<close>: nothing to do), writing and registering the
  table, the second critical section. \<open>create_err\<close> is the error of \<open>MkdirAll\<close> or
  \<open>NewWriter\<close>. A failed \<open>Write\<close> removes the file, a failed \<open>Close\<close> leaves it.\<close>

definition flush_begin :: "engine \<Rightarrow> bool \<times> engine" where
  "flush_begin e =
     (if sl_Len (ememtable e) = 0 then (False, e)
      else (True, e\<lparr>eimmutable := Some (ememtable e), ememtable := sl_New\<rparr>))"

definition flush_write :: "io \<Rightarrow> i64 \<Rightarrow> engine \<Rightarrow> (engine \<times> goerror option) option" where
  "flush_write io now e = (let path = Flushed now in
     case create_err io of
       Some err \<Rightarrow> Some (e, Some err)
     | None \<Rightarrow> do {
         imm \<leftarrow> eimmutable e;
         entries \<leftarrow> sl_All imm;
         (case sst_write_all (NewWriter (wscript io)) entries of
            (w, Some err) \<Rightarrow> Some (e\<lparr>efs := (efs e)(path := None)\<rparr>, Some err)
          | (w, None) \<Rightarrow>
              (case sst_Close w of
                 (w', Some err) \<Rightarrow> Some (e\<lparr>efs := (efs e)(path \<mapsto> stored (wbw w'))\<rparr>, Some err)
               | (w', None) \<Rightarrow>
                   Some (e\<lparr>efs := (efs e)(path \<mapsto> stored (wbw w')), ecompact := Register (ecompact e) path\<rparr>, None)))
       })"

definition flush_clear :: "engine \<Rightarrow> engine" where
  "flush_clear e = e\<lparr>eimmutable := None\<rparr>"

definition eng_flush :: "io \<Rightarrow> i64 \<Rightarrow> engine \<Rightarrow> (engine \<times> goerror option) option" where
  "eng_flush io now e =
     (case flush_begin e of
        (False, e1) \<Rightarrow> Some (e1, None)
      | (True, e1) \<Rightarrow> do {
          (e2, err) \<leftarrow> flush_write io now e1;
          Some (case err of Some x \<Rightarrow> (e2, Some x) | None \<Rightarrow> (flush_clear e2, None))
        })"

text \<open>One turn of \<open>flushLoop\<close> for the token in \<open>flushCh\<close>; and \<open>Close\<close>: the loop's last
  flush, whose error is dropped, then the log.\<close>

definition flushLoop_turn :: "io \<Rightarrow> i64 \<Rightarrow> engine \<Rightarrow> engine option" where
  "flushLoop_turn io now e =
     (if eflushCh e then map_option fst (eng_flush io now (e\<lparr>eflushCh := False\<rparr>)) else Some e)"

definition eng_Close :: "io \<Rightarrow> i64 \<Rightarrow> engine \<Rightarrow> (engine \<times> goerror option) option" where
  "eng_Close io now e = do {
     (e1, _) \<leftarrow> eng_flush io now e;
     w1 \<leftarrow> wal_Close_begin (ewal e1);
     (case wal_Close_finish (loop_take w1) of (w2, err) \<Rightarrow> Some (e1\<lparr>ewal := w2\<rparr>, err))
   }"

lemma toEntry_id [simp]: "toEntry se = se"
  by (simp add: toEntry_def)

subsection \<open>Writes\<close>

text \<open>The two writes as one operation, with the record each logs.\<close>

fun op_record :: "mem_op \<Rightarrow> walRecord" where
  "op_record (MPut k v ver) = \<lparr>rOp = ''put'', rKey = k, rValue = v, rVersion = ver\<rparr>"
| "op_record (MDel k ver) = \<lparr>rOp = ''delete'', rKey = k, rValue = [], rVersion = ver\<rparr>"

fun eng_apply :: "(walRecord \<Rightarrow> bytes) \<Rightarrow> rng \<Rightarrow> engine \<Rightarrow> mem_op \<Rightarrow> (engine \<times> goerror option) option" where
  "eng_apply enc draw e (MPut k v ver) = eng_Put enc draw e k v ver"
| "eng_apply enc draw e (MDel k ver) = eng_Delete enc draw e k ver"

definition record_op :: "walRecord \<Rightarrow> mem_op option" where
  "record_op rec =
     (if rOp rec = ''put'' then Some (MPut (rKey rec) (rValue rec) (rVersion rec))
      else if rOp rec = ''delete'' then Some (MDel (rKey rec) (rVersion rec)) else None)"

definition decode_op :: "(bytes \<Rightarrow> walRecord option) \<Rightarrow> bytes \<Rightarrow> mem_op option" where
  "decode_op dec raw = Option.bind (dec raw) record_op"

text \<open>What the engine holds, from the newest layer to the oldest; \<open>tab\<close> gives the entries of
  the table files.\<close>

definition imm_entries :: "engine \<Rightarrow> entry list" where
  "imm_entries e = (case eimmutable e of None \<Rightarrow> [] | Some m \<Rightarrow> contents m)"

definition table_entries :: "engine \<Rightarrow> (sst_path \<Rightarrow> entry list) \<Rightarrow> entry list" where
  "table_entries e tab = concat (map tab (ctables (ecompact e)))"

definition layers :: "engine \<Rightarrow> (sst_path \<Rightarrow> entry list) \<Rightarrow> entry list" where
  "layers e tab = contents (ememtable e) @ imm_entries e @ table_entries e tab"

definition eng_ok :: "engine \<Rightarrow> (sst_path \<Rightarrow> entry list) \<Rightarrow> bool" where
  "eng_ok e tab \<longleftrightarrow> sl_inv (ememtable e) \<and> (\<forall>m. eimmutable e = Some m \<longrightarrow> sl_inv m) \<and>
     (\<forall>p\<in>set (ctables (ecompact e)). holds_table (efs e) p (tab p)) \<and> wal_idle (ewal e)"

lemmas eng_defs = eng_ok_def layers_def imm_entries_def table_entries_def

lemma eng_apply_returns:
  assumes "eng_ok e tab"
  shows "\<exists>e' err. eng_apply enc draw e op = Some (e', err)"
proof -
  have m: "sl_inv (ememtable e)" and w: "wal_idle (ewal e)" using assms by (simp_all add: eng_ok_def)
  obtain w' err where "wal_Append_wait (ewal e) (enc (op_record op)) = Some (w', err)"
    using Append_wait_total [OF w] by blast
  moreover obtain s' where "(case op of MPut k v ver \<Rightarrow> sl_Put draw (ememtable e) k v ver
      | MDel k ver \<Rightarrow> sl_Delete draw (ememtable e) k ver) = Some s'"
    using sl.put_law [OF m] sl.del_law [OF m] by (cases op) (auto, blast+)
  ultimately show ?thesis
    by (cases op; cases err) (auto simp: eng_Put_def eng_Delete_def Let_def)
qed

lemma eng_apply_spec:
  assumes ok: "eng_ok e tab" and run: "eng_apply enc draw e op = Some (e', err)"
  shows "eng_ok e' tab \<and> eimmutable e' = eimmutable e \<and> ecompact e' = ecompact e \<and> efs e' = efs e \<and>
    wal_Append_wait (ewal e) (enc (op_record op)) = Some (ewal e', err) \<and>
    contents (ememtable e') = (if err = None then apply_op op (contents (ememtable e)) else contents (ememtable e))"
proof -
  have m: "sl_inv (ememtable e)" and w: "wal_idle (ewal e)" using ok by (simp_all add: eng_ok_def)
  obtain w' err' where a: "wal_Append_wait (ewal e) (enc (op_record op)) = Some (w', err')" "wal_idle w'"
    using Append_wait_total [OF w] by blast
  show ?thesis
  proof (cases op)
    case (MPut k v ver)
    obtain s' where "sl_Put draw (ememtable e) k v ver = Some s'" "sl_inv s'"
        "contents s' = upsert (live k v ver) (contents (ememtable e))" using sl.put_law [OF m] by blast
    then show ?thesis
      using run a ok MPut by (cases err') (auto simp: eng_Put_def eng_ok_def Let_def)
  next
    case (MDel k ver)
    obtain s' where "sl_Delete draw (ememtable e) k ver = Some s'" "sl_inv s'"
        "contents s' = entomb k ver (contents (ememtable e))" using sl.del_law [OF m] by blast
    then show ?thesis
      using run a ok MDel by (cases err') (auto simp: eng_Delete_def eng_ok_def)
  qed
qed

lemma eng_apply_wal:
  "eng_apply enc draw e op = Some (e', err) \<Longrightarrow> wal_Append_wait (ewal e) (enc (op_record op)) = Some (ewal e', err)"
  by (cases op) (auto simp: eng_Put_def eng_Delete_def Let_def split: Option.bind_splits option.splits)

subsection \<open>Reads\<close>

definition hit_result :: "entry option \<Rightarrow> entry \<times> bool" where
  "hit_result h = (case h of None \<Rightarrow> (zeroEntry, False) | Some en \<Rightarrow> (en, \<not> Deleted en))"

lemma get_tables_ok:
  "\<forall>p\<in>set ps. holds_table fs p (tab p) \<Longrightarrow>
   get_tables fs ps k = Some (hit_result (find_key k (concat (map tab ps))))"
proof (induction ps)
  case (Cons p ps)
  then have p: "fs p = Some (sst_bytes (tab p))" "sst_fits (tab p)" "ksorted (tab p)"
    by (auto simp: holds_table_def)
  obtain r where r: "OpenReader (fs p) = Some (Inr r)" "sst_Get r k = Some (Inr (lookup_result k (tab p)))"
    using sst.get_opened [OF p(2,3)] p(1) by auto
  show ?case
    using Cons r by (cases "find_key k (tab p)") (auto simp: lookup_result_def find_key_append hit_result_def)
qed (simp add: hit_result_def)

lemma eng_Get_layers:
  assumes "eng_ok e tab"
  shows "eng_Get e k = Some (hit_result (find_key k (layers e tab)))"
proof -
  have m: "sl_Get (ememtable e) k = Some (lookup_result k (contents (ememtable e)))"
    using assms by (intro sl.get_law) (simp add: eng_ok_def)
  have i: "(case eimmutable e of None \<Rightarrow> Some (zeroEntry, False) | Some m \<Rightarrow> sl_Get m k) = Some (lookup_result k (imm_entries e))"
    using assms sl.get_law by (auto simp: eng_ok_def imm_entries_def lookup_result_def split: option.split)
  have t: "get_tables (efs e) (Tables (ecompact e)) k = Some (hit_result (find_key k (table_entries e tab)))"
    using assms get_tables_ok by (simp add: eng_ok_def Tables_def table_entries_def)
  show ?thesis
    by (cases "find_key k (contents (ememtable e))"; cases "find_key k (imm_entries e)")
      (simp_all add: eng_Get_def m i t layers_def find_key_append lookup_result_def hit_result_def)
qed

lemma hit_result_visible:
  "hit_result (find_key k es) = (en, b) \<Longrightarrow> visible es k = (if b then Some en else None)"
  by (auto simp: hit_result_def visible_def split: option.splits)

lemma visible_cong: "find_key k es = find_key k es' \<Longrightarrow> visible es k = visible es' k"
  by (simp add: visible_def)

lemma visible_append: "visible (xs @ ys) k =
    (case find_key k xs of Some e \<Rightarrow> if Deleted e then None else Some e | None \<Rightarrow> visible ys k)"
  by (auto simp: visible_def find_key_append split: option.split)

lemma visible_apply_op:
  "visible (apply_op op xs @ ys) k =
     (if k = op_key op then (case op of MPut k v ver \<Rightarrow> Some (live k v ver) | MDel k ver \<Rightarrow> None)
      else visible (xs @ ys) k)"
  by (cases op) (auto simp: visible_append split: option.split)

text \<open>A write changes what is visible at its own key, and only there, on whatever layer it finds.\<close>

lemma visible_apply_op_cong:
  "visible (xs @ ys) k = visible zs k \<Longrightarrow> visible (apply_op op xs @ ys) k = visible (apply_op op zs) k"
  using visible_apply_op [of op xs ys k] visible_apply_op [of op zs "[]" k] by auto

subsection \<open>Flush\<close>

lemma flush_begin_ok:
  assumes "eng_ok e tab" "eimmutable e = None" "flush_begin e = (b, e')"
  shows "eng_ok e' tab \<and> layers e' tab = layers e tab \<and> ewal e' = ewal e \<and>
    (if b then \<exists>m. eimmutable e' = Some m \<and> contents m = contents (ememtable e) \<and> contents (ememtable e') = [] \<and>
         ecompact e' = ecompact e \<and> efs e' = efs e
     else e' = e)"
  using assms sl.invar_new sl.content_new by (auto simp: flush_begin_def eng_defs split: if_splits)

lemma flush_write_ok:
  assumes ok: "eng_ok e tab" and imm: "eimmutable e = Some m" and fits: "sst_fits (contents m)"
    and new: "Flushed now \<notin> set (ctables (ecompact e))" and run: "flush_write io now e = Some (e', err)"
  shows "ememtable e' = ememtable e \<and> eimmutable e' = eimmutable e \<and> ewal e' = ewal e \<and>
    (if err = None then eng_ok e' (tab(Flushed now := contents m)) \<and> ctables (ecompact e') = Flushed now # ctables (ecompact e)
     else eng_ok e' tab \<and> ecompact e' = ecompact e)"
proof -
  have m: "sl_inv m" using ok imm by (simp add: eng_ok_def)
  note all = sl.elems_law [OF m] sl.content_sorted [OF m]
  have keep: "eng_ok (e\<lparr>efs := (efs e)(Flushed now := x)\<rparr>) tab" for x
    using ok new by (auto simp: eng_ok_def holds_table_def)
  show ?thesis
  proof (cases "create_err io")
    case (Some err')
    then have "e' = e" "err = Some err'" using run by (simp_all add: flush_write_def)
    then show ?thesis using ok by simp
  next
    case None
    obtain w e1 where w: "sst_write_all (NewWriter (wscript io)) (contents m) = (w, e1)" by force
    obtain w' e2 where w': "sst_Close w = (w', e2)" by force
    show ?thesis
    proof (cases "e1 = None \<and> e2 = None")
      case True
      then have "stored (wbw w') = sst_bytes (contents m)" using w w' write_table_bytes(1) by blast
      then show ?thesis
        using run ok new fits None imm all w w' True
        by (auto simp: flush_write_def eng_ok_def holds_table_def Register_def Let_def)
    next
      case False
      then show ?thesis
        using run None imm all w w' keep by (auto simp: flush_write_def Let_def split: option.splits)
    qed
  qed
qed

lemma flush_write_frame:
  "flush_write io now e = Some (e', err) \<Longrightarrow> ewal e' = ewal e \<and> (p \<noteq> Flushed now \<longrightarrow> efs e' p = efs e p)"
  by (auto simp: flush_write_def Let_def split: Option.bind_splits option.splits prod.splits)

lemma flush_write_returns:
  "eng_ok e tab \<Longrightarrow> eimmutable e = Some m \<Longrightarrow> \<exists>e' err. flush_write io now e = Some (e', err)"
  using sl.elems_law [of m]
  by (auto simp: flush_write_def eng_ok_def Let_def split: option.split prod.split)

lemma flush_write_calm:
  "eng_ok e tab \<Longrightarrow> eimmutable e = Some m \<Longrightarrow> create_err io = None \<Longrightarrow> wscript io = [] \<Longrightarrow>
   \<exists>e'. flush_write io now e = Some (e', None)"
  using sl.elems_law [of m] write_table_calm [of "contents m"]
  by (auto simp: flush_write_def eng_ok_def Let_def)

text \<open>A whole flush, successful or not, changes no read.\<close>

lemma eng_flush_ok:
  assumes ok: "eng_ok e tab" and imm: "eimmutable e = None" and fits: "sst_fits (contents (ememtable e))"
    and new: "Flushed now \<notin> set (ctables (ecompact e))"
  shows "\<exists>e' err tab'. eng_flush io now e = Some (e', err) \<and> eng_ok e' tab' \<and>
    (\<forall>k. find_key k (layers e' tab') = find_key k (layers e tab)) \<and>
    (create_err io = None \<and> wscript io = [] \<longrightarrow> err = None \<and> eimmutable e' = None)"
proof -
  obtain b e1 where b: "flush_begin e = (b, e1)" by force
  note first = flush_begin_ok [OF ok imm b]
  show ?thesis
  proof (cases b)
    case False
    then show ?thesis using b first ok imm by (auto simp: eng_flush_def)
  next
    case True
    then obtain m where m: "eimmutable e1 = Some m" "contents m = contents (ememtable e)" "contents (ememtable e1) = []"
        "ecompact e1 = ecompact e" using first by auto
    obtain e2 err where w: "flush_write io now e1 = Some (e2, err)" using flush_write_returns first m(1) by blast
    have wrote: "ememtable e2 = ememtable e1" "eimmutable e2 = eimmutable e1" "ewal e2 = ewal e1"
      "err = None \<Longrightarrow> eng_ok e2 (tab(Flushed now := contents m)) \<and> ctables (ecompact e2) = Flushed now # ctables (ecompact e)"
      "err \<noteq> None \<Longrightarrow> eng_ok e2 tab \<and> ecompact e2 = ecompact e"
      using flush_write_ok [OF _ m(1) _ _ w, of tab] first m fits new by auto
    have calm: "create_err io = None \<and> wscript io = [] \<longrightarrow> err = None"
      using flush_write_calm [of e1 tab m io now] m(1) first w by auto
    show ?thesis
    proof (cases err)
      case (Some x)
      then have "eng_ok e2 tab" "layers e2 tab = layers e1 tab"
        using wrote m(4) by (simp_all add: eng_defs)
      moreover have "eng_flush io now e = Some (e2, err)" using b True w Some by (simp add: eng_flush_def)
      ultimately show ?thesis
        using first calm Some by (intro exI [of _ e2] exI [of _ err] exI [of _ tab]) simp
    next
      case None
      let ?tab = "tab(Flushed now := contents m)"
      have "layers (flush_clear e2) ?tab = layers e tab"
        using wrote m None imm new by (simp add: eng_defs flush_clear_def)
      moreover have "eng_ok (flush_clear e2) ?tab"
        using wrote(4) None by (simp add: eng_ok_def flush_clear_def)
      moreover have "eng_flush io now e = Some (flush_clear e2, None)" using b True w None by (simp add: eng_flush_def)
      ultimately show ?thesis
        by (intro exI [of _ "flush_clear e2"] exI [of _ None] exI [of _ ?tab]) (simp add: flush_clear_def)
    qed
  qed
qed

subsection \<open>Recovery\<close>

lemma replay_record_ok:
  assumes "sl_inv m"
  shows "\<exists>m'. replay_record dec m (draw, raw) = Some m' \<and> sl_inv m' \<and>
    contents m' = (case decode_op dec raw of None \<Rightarrow> contents m | Some op \<Rightarrow> apply_op op (contents m))"
proof (cases "dec raw")
  case (Some rec)
  then show ?thesis
    using sl.put_law [OF assms, of draw "rKey rec" "rValue rec" "rVersion rec"]
      sl.del_law [OF assms, of draw "rKey rec" "rVersion rec"] assms
    by (auto simp: replay_record_def decode_op_def record_op_def)
qed (simp add: replay_record_def decode_op_def assms)

lemma replay_ok:
  "length ds = length raws \<Longrightarrow> sl_inv m \<Longrightarrow>
   \<exists>m'. foldM (replay_record dec) m (zip ds raws) = Some m' \<and> sl_inv m' \<and>
     contents m' = fold apply_op (List.map_filter (decode_op dec) raws) (contents m)"
proof (induction ds raws arbitrary: m rule: list_induct2)
  case (Cons d ds raw raws)
  obtain m1 where m1: "replay_record dec m (d, raw) = Some m1" "sl_inv m1"
    "contents m1 = (case decode_op dec raw of None \<Rightarrow> contents m | Some op \<Rightarrow> apply_op op (contents m))"
    using replay_record_ok [OF Cons.prems] by blast
  from Cons.IH [OF m1(2)] m1(1,3) show ?case
    by (auto simp: map_filter_simps split: option.splits)
qed (simp add: map_filter_simps)

definition log_ops :: "(bytes \<Rightarrow> walRecord option) \<Rightarrow> bytes \<Rightarrow> mem_op list" where
  "log_ops dec f = List.map_filter (decode_op dec) (fst (ReadAll (Some f)))"

lemma eng_Open_ok:
  "\<exists>e. eng_Open dec draws None script (Some f) tabs mb = Some (Inr e) \<and> eng_ok e tab \<and>
     layers e tab = fold apply_op (log_ops dec f) [] \<and> contents (ememtable e) = fold apply_op (log_ops dec f) [] \<and>
     ewal e = wal_Open f script \<and> eimmutable e = None \<and> ctables (ecompact e) = []"
proof -
  let ?rs = "fst (ReadAll (Some f))"
  obtain m where "foldM (replay_record dec) sl_New (zip (map draws [0..<length ?rs]) ?rs) = Some m" "sl_inv m"
      "contents m = fold apply_op (log_ops dec f) []"
    using replay_ok [OF _ sl.invar_new, of "map draws [0..<length ?rs]" ?rs dec] sl.content_new
    by (auto simp: log_ops_def)
  then show ?thesis
    using wal_idle_Open by (simp add: eng_Open_def eng_recover_def Let_def eng_defs comp_New_def)
qed

text \<open>The value a sequence of writes leaves at a key.\<close>

fun op_effect :: "mem_op \<Rightarrow> entry option" where
  "op_effect (MPut k v ver) = Some (live k v ver)"
| "op_effect (MDel k ver) = None"

definition last_write :: "mem_op list \<Rightarrow> bytes \<Rightarrow> entry option" where
  "last_write ops k = (case find (\<lambda>op. op_key op = k) (rev ops) of None \<Rightarrow> None | Some op \<Rightarrow> op_effect op)"

lemma last_write_Nil [simp]: "last_write [] k = None"
  by (simp add: last_write_def)

lemma last_write_snoc [simp]: "last_write (ops @ [op]) k = (if k = op_key op then op_effect op else last_write ops k)"
  by (simp add: last_write_def)

lemma last_write_single [simp]: "last_write [op] k = (if k = op_key op then op_effect op else None)"
  using last_write_snoc [of "[]" op k] by simp

lemma last_write_append:
  "last_write (xs @ ys) k = (if k \<in> op_key ` set ys then last_write ys k else last_write xs k)"
  by (induction ys rule: rev_induct) (auto simp flip: append_assoc)

lemma visible_snoc: "visible (apply_op op es) k = (if k = op_key op then op_effect op else visible es k)"
  using visible_apply_op [of op es "[]" k] by (cases op) auto

lemma visible_fold: "visible (fold apply_op ops []) k = last_write ops k"
  by (induction ops rule: rev_induct) (simp_all add: visible_snoc, simp add: visible_def)

text \<open>What a client sees.\<close>

definition eng_view :: "engine \<Rightarrow> bytes \<Rightarrow> entry option" where
  "eng_view e k = (case eng_Get e k of Some (en, True) \<Rightarrow> Some en | _ \<Rightarrow> None)"

lemma eng_view_layers: "eng_ok e tab \<Longrightarrow> eng_view e k = visible (layers e tab) k"
  by (auto simp: eng_view_def eng_Get_layers hit_result_def visible_def split: option.split)

lemma eng_view_key: "eng_ok e tab \<Longrightarrow> eng_view e k = Some en \<Longrightarrow> Key en = k \<and> \<not> Deleted en"
  by (auto simp: eng_view_layers visible_def split: option.splits if_splits dest: find_key_SomeD)

subsection \<open>Scan, snapshot and restore\<close>

lemma note_first_map_of: "map_of (note_first se seen) k =
    (case map_of seen k of Some e \<Rightarrow> Some e | None \<Rightarrow> if k = Key se then Some se else None)"
  by (auto simp: note_first_def map_add_def split: option.splits)

lemma fold_note_first: "map_of (fold note_first es seen) k =
    (case map_of seen k of Some e \<Rightarrow> Some e | None \<Rightarrow> find_key k es)"
  by (induction es arbitrary: seen) (auto simp: note_first_map_of split: option.splits)

definition keyed :: "(bytes \<times> entry) list \<Rightarrow> bool" where
  "keyed seen \<longleftrightarrow> distinct (map fst seen) \<and> (\<forall>(k, e)\<in>set seen. Key e = k)"

lemma keyed_note_first: "keyed seen \<Longrightarrow> keyed (note_first se seen)"
  by (auto simp: keyed_def note_first_def map_of_eq_None_iff split: option.splits)

lemma keyed_fold_note_first: "keyed seen \<Longrightarrow> keyed (fold note_first es seen)"
  by (induction es arbitrary: seen) (auto intro: keyed_note_first)

lemma keyed_entries:
  assumes "keyed seen"
  shows "map Key (map snd seen) = map fst seen" and "e \<in> set (map snd seen) \<longleftrightarrow> map_of seen (Key e) = Some e"
proof -
  show "map Key (map snd seen) = map fst seen" using assms by (auto simp: keyed_def)
  show "e \<in> set (map snd seen) \<longleftrightarrow> map_of seen (Key e) = Some e"
    using assms by (force simp: keyed_def)
qed

lemma scan_tables_ok:
  "\<forall>p\<in>set ps. holds_table fs p (tab p) \<Longrightarrow>
   scan_tables fs ps pfx limit seen =
     Some (fold note_first (concat (map (\<lambda>p. take_limit limit (scanned pfx (tab p))) ps)) seen)"
proof (induction ps arbitrary: seen)
  case (Cons p ps)
  then have p: "fs p = Some (sst_bytes (tab p))" "sst_fits (tab p)" by (auto simp: holds_table_def)
  obtain r where "OpenReader (fs p) = Some (Inr r)"
      "sst_Scan r pfx limit = Inr (take_limit limit (scanned pfx (tab p)))"
    using sst.scan_opened [OF p(2)] p(1) by auto
  then show ?case using Cons by simp
qed simp

definition from_key :: "bytes \<Rightarrow> entry list \<Rightarrow> entry list" where
  "from_key pfx es = dropWhile (\<lambda>e. Key e < pfx) es"

definition scan_source :: "engine \<Rightarrow> (sst_path \<Rightarrow> entry list) \<Rightarrow> bytes \<Rightarrow> int \<Rightarrow> entry list" where
  "scan_source e tab pfx limit = take_limit limit (from_key pfx (contents (ememtable e))) @
     take_limit limit (from_key pfx (imm_entries e)) @
     concat (map (\<lambda>p. take_limit limit (scanned pfx (tab p))) (ctables (ecompact e)))"

definition permutes :: "('a list \<Rightarrow> 'a list) \<Rightarrow> bool" where
  "permutes order \<longleftrightarrow> (\<forall>xs. mset (order xs) = mset xs)"

lemma eng_Scan_eq:
  assumes "eng_ok e tab"
  shows "eng_Scan order e pfx limit =
    Some (filter (\<lambda>en. \<not> Deleted en) (order (map snd (fold note_first (scan_source e tab pfx limit) []))))"
proof -
  have mem: "sl_Scan (ememtable e) pfx [] limit = Some (take_limit limit (from_key pfx (contents (ememtable e))))"
    using assms sl.scan_law [of "ememtable e" pfx "[]" limit] by (simp add: eng_ok_def range_scan_def from_key_def)
  have imm: "(case eimmutable e of None \<Rightarrow> Some [] | Some m \<Rightarrow> sl_Scan m pfx [] limit) =
      Some (take_limit limit (from_key pfx (imm_entries e)))"
    using assms sl.scan_law [of _ pfx "[]" limit]
    by (auto simp: eng_ok_def imm_entries_def range_scan_def from_key_def take_limit_def split: option.split)
  show ?thesis
    using assms scan_tables_ok [of "ctables (ecompact e)" "efs e" tab]
    by (simp add: eng_Scan_def mem imm Tables_def scan_source_def eng_ok_def map_idI)
qed

text \<open>What a scan returns: for every key, the first entry any of its sources has, unless it is a
  tombstone. The order is Go's.\<close>

lemma eng_Scan_members:
  assumes "eng_ok e tab" "permutes order"
  shows "\<exists>es. eng_Scan order e pfx limit = Some es \<and> distinct (map Key es) \<and>
    (\<forall>en. en \<in> set es \<longleftrightarrow> visible (scan_source e tab pfx limit) (Key en) = Some en)"
proof -
  let ?seen = "fold note_first (scan_source e tab pfx limit) []"
  have k: "keyed ?seen" by (rule keyed_fold_note_first) (simp add: keyed_def)
  have ms: "mset (order (map snd ?seen)) = mset (map snd ?seen)" using assms(2) by (simp add: permutes_def)
  then have set: "set (order (map snd ?seen)) = set (map snd ?seen)" by (metis set_mset_mset)
  have "mset (map Key (order (map snd ?seen))) = mset (map fst ?seen)"
    using ms keyed_entries(1) [OF k] by (metis mset_map)
  then have "distinct (map Key (order (map snd ?seen)))" using k by (metis keyed_def mset_eq_imp_distinct_iff)
  then have "distinct (map Key (filter (\<lambda>en. \<not> Deleted en) (order (map snd ?seen))))" by (rule distinct_map_filter)
  moreover have "en \<in> set (filter (\<lambda>en. \<not> Deleted en) (order (map snd ?seen))) \<longleftrightarrow>
      visible (scan_source e tab pfx limit) (Key en) = Some en" for en
    using keyed_entries(2) [OF k, of en] set
    by (auto simp: fold_note_first visible_def split: option.splits if_splits)
  ultimately show ?thesis using eng_Scan_eq [OF assms(1), of order pfx limit] by blast
qed

lemma find_key_scanned_Nil:
  assumes "quiet es"
  shows "find_key k (scanned [] es) = find_key k es"
proof (cases "find_key k es")
  case None
  then have "k \<notin> Key ` set (trailing es)" if "es \<noteq> []"
    using assms that by (auto simp: quiet_def find_key_None_iff image_iff) metis
  then show ?thesis using None by (auto simp: scanned_Nil find_key_append simp flip: find_key_None_iff)
next
  case (Some e)
  then show ?thesis by (auto simp: scanned_Nil find_key_append)
qed

lemma find_key_concat_cong:
  "(\<And>p. p \<in> set ps \<Longrightarrow> find_key k (f p) = find_key k (g p)) \<Longrightarrow>
   find_key k (concat (map f ps)) = find_key k (concat (map g ps))"
  by (induction ps) (auto simp: find_key_append split: option.split)

lemma from_key_Nil [simp]: "from_key [] es = es"
  by (cases es) (simp_all add: from_key_def)

lemma find_key_from_key:
  "ksorted es \<Longrightarrow> find_key k (from_key pfx es) = (if pfx \<le> k then find_key k es else None)"
proof (induction es)
  case (Cons x xs)
  show ?case
  proof (cases "Key x < pfx")
    case True
    then show ?thesis using Cons by (auto simp: from_key_def)
  next
    case False
    have "find_key k (x # xs) = None" if "\<not> pfx \<le> k"
      using that False Cons.prems by (force simp: find_key_None_iff simp del: find_key.simps)
    then show ?thesis using False by (simp add: from_key_def)
  qed
qed (simp add: from_key_def)

lemma snapshot_source:
  assumes "\<forall>p\<in>set (ctables (ecompact e)). quiet (tab p)"
  shows "find_key k (scan_source e tab [] 0) = find_key k (layers e tab)"
proof -
  have "find_key k (concat (map (\<lambda>p. scanned [] (tab p)) (ctables (ecompact e)))) = find_key k (table_entries e tab)"
    unfolding table_entries_def using assms find_key_scanned_Nil by (intro find_key_concat_cong) blast
  then show ?thesis by (simp add: scan_source_def take_limit_def layers_def find_key_append split: option.split)
qed

lemma eng_Snapshot_ok:
  assumes "eng_ok e tab" "permutes order" "\<forall>p\<in>set (ctables (ecompact e)). quiet (tab p)"
  shows "\<exists>es. eng_Snapshot order e = Some es \<and> distinct (map Key es) \<and>
    (\<forall>en. en \<in> set es \<longleftrightarrow> eng_view e (Key en) = Some en)"
  using eng_Scan_members [OF assms(1,2), of "[]" 0] snapshot_source [OF assms(3)]
  by (simp add: eng_Snapshot_def eng_view_layers [OF assms(1)] visible_def)

lemma restore_entries:
  "length ds = length ens \<Longrightarrow> sl_inv m \<Longrightarrow>
   \<exists>m'. foldM (\<lambda>m (draw, en). sl_Put draw m (Key en) (Value en) (Version en)) m (zip ds ens) = Some m' \<and> sl_inv m' \<and>
     contents m' = fold (\<lambda>en. upsert (live (Key en) (Value en) (Version en))) ens (contents m)"
proof (induction ds ens arbitrary: m rule: list_induct2)
  case (Cons d ds en ens)
  obtain m1 where "sl_Put d m (Key en) (Value en) (Version en) = Some m1" "sl_inv m1"
      "contents m1 = upsert (live (Key en) (Value en) (Version en)) (contents m)"
    using sl.put_law [OF Cons.prems] by blast
  then show ?case using Cons.IH [of m1] by auto
qed simp

definition entry_op :: "entry \<Rightarrow> mem_op" where
  "entry_op en = MPut (Key en) (Value en) (Version en)"

lemma eng_Restore_contents:
  assumes "eng_ok e tab"
  shows "\<exists>e'. eng_Restore draws e ens = Some (e', None) \<and> eng_ok e' tab \<and> ewal e' = ewal e \<and> eimmutable e' = eimmutable e \<and>
    ecompact e' = ecompact e \<and> contents (ememtable e') = fold apply_op (map entry_op ens) []"
proof -
  have ops: "fold (\<lambda>en. upsert (live (Key en) (Value en) (Version en))) ens es = fold apply_op (map entry_op ens) es" for es
    by (induction ens arbitrary: es) (simp_all add: entry_op_def)
  obtain m where m: "foldM (\<lambda>m (draw, en). sl_Put draw m (Key en) (Value en) (Version en)) sl_New
      (zip (map draws [0..<length ens]) ens) = Some m" "sl_inv m" "contents m = fold apply_op (map entry_op ens) []"
    using restore_entries [OF _ sl.invar_new, of "map draws [0..<length ens]" ens] sl.content_new ops by auto
  then show ?thesis using assms by (simp add: eng_Restore_def eng_ok_def)
qed

lemma find_restored:
  "distinct (map Key ens) \<Longrightarrow> find_key k (fold (\<lambda>en. upsert (live (Key en) (Value en) (Version en))) ens es) =
     (case find_key k ens of Some en \<Rightarrow> Some (live (Key en) (Value en) (Version en)) | None \<Rightarrow> find_key k es)"
proof (induction ens arbitrary: es)
  case (Cons en ens)
  have "find_key (Key en) ens = None" using Cons.prems by (auto simp: find_key_None_iff)
  then show ?case using Cons by (auto split: option.splits)
qed simp

text \<open>After a restore the new entries shadow the layers below the memtable, which stay.\<close>

lemma eng_Restore_ok:
  assumes "eng_ok e tab" "distinct (map Key ens)"
  shows "\<exists>e'. eng_Restore draws e ens = Some (e', None) \<and> eng_ok e' tab \<and> ewal e' = ewal e \<and>
    (\<forall>k. eng_view e' k = (case find_key k ens of Some en \<Rightarrow> Some (live (Key en) (Value en) (Version en))
       | None \<Rightarrow> visible (imm_entries e @ table_entries e tab) k))"
proof -
  obtain m where m: "foldM (\<lambda>m (draw, en). sl_Put draw m (Key en) (Value en) (Version en)) sl_New
      (zip (map draws [0..<length ens]) ens) = Some m" "sl_inv m"
      "contents m = fold (\<lambda>en. upsert (live (Key en) (Value en) (Version en))) ens []"
    using restore_entries [OF _ sl.invar_new, of "map draws [0..<length ens]" ens] sl.content_new by auto
  let ?e = "e\<lparr>ememtable := m\<rparr>"
  have ok: "eng_ok ?e tab" using assms(1) m(2) by (simp add: eng_ok_def)
  have "eng_view ?e k = (case find_key k ens of Some en \<Rightarrow> Some (live (Key en) (Value en) (Version en))
       | None \<Rightarrow> visible (imm_entries e @ table_entries e tab) k)" for k
    unfolding eng_view_layers [OF ok] layers_def visible_append [of "contents (ememtable ?e)"]
    using find_restored [OF assms(2), of k "[]"] m(3)
    by (auto simp: imm_entries_def table_entries_def split: option.split)
  then show ?thesis using m ok by (simp add: eng_Restore_def)
qed

subsection \<open>The contract with the state machine\<close>

text \<open>What the FSM relies on: a store shows one live entry per key, and a write that returns without
  an error changes exactly its key.\<close>

locale kv_store =
  fixes invar :: "'s \<Rightarrow> bool"
    and view :: "'s \<Rightarrow> bytes \<Rightarrow> entry option"
    and put :: "'r \<Rightarrow> 's \<Rightarrow> bytes \<Rightarrow> bytes \<Rightarrow> i64 \<Rightarrow> ('s \<times> goerror option) option"
    and del :: "'r \<Rightarrow> 's \<Rightarrow> bytes \<Rightarrow> i64 \<Rightarrow> ('s \<times> goerror option) option"
    and get :: "'s \<Rightarrow> bytes \<Rightarrow> (entry \<times> bool) option"
  assumes put_law: "invar s \<Longrightarrow> \<exists>s' err. put r s k v ver = Some (s', err) \<and> invar s' \<and>
          view s' = (if err = None then (view s)(k \<mapsto> live k v ver) else view s)"
    and del_law: "invar s \<Longrightarrow> \<exists>s' err. del r s k ver = Some (s', err) \<and> invar s' \<and>
          view s' = (if err = None then (view s)(k := None) else view s)"
    and get_law: "invar s \<Longrightarrow> \<exists>en. get s k = Some (en, view s k \<noteq> None) \<and> (\<forall>x. view s k = Some x \<longrightarrow> en = x)"
begin

lemma get_after_put:
  "invar s \<Longrightarrow> put r s k v ver = Some (s', None) \<Longrightarrow> get s' k = Some (live k v ver, True)"
  using put_law [of s r k v ver] get_law [of s' k] by auto

lemma get_after_del:
  "invar s \<Longrightarrow> del r s k ver = Some (s', None) \<Longrightarrow> \<exists>en. get s' k = Some (en, False)"
  using del_law [of s r k ver] get_law [of s' k] by auto

lemma failed_put: "invar s \<Longrightarrow> put r s k v ver = Some (s', Some e) \<Longrightarrow> view s' = view s"
  using put_law [of s r k v ver] by auto

end

definition eng_wf :: "engine \<Rightarrow> bool" where
  "eng_wf e \<longleftrightarrow> (\<exists>tab. eng_ok e tab)"

lemma eng_apply_view:
  assumes "eng_ok e tab" "eng_apply enc draw e op = Some (e', err)"
  shows "eng_ok e' tab \<and> eng_view e' = (if err = None then (eng_view e)(op_key op := op_effect op) else eng_view e)"
proof -
  have s: "eng_ok e' tab" "imm_entries e' = imm_entries e" "table_entries e' tab = table_entries e tab"
    "contents (ememtable e') = (if err = None then apply_op op (contents (ememtable e)) else contents (ememtable e))"
    using eng_apply_spec [OF assms] by (auto simp: imm_entries_def table_entries_def)
  have "eng_view e' k = (if err = None then (eng_view e)(op_key op := op_effect op) else eng_view e) k" for k
    using visible_apply_op [of op "contents (ememtable e)" "imm_entries e @ table_entries e tab" k]
    by (cases op) (auto simp: eng_view_layers [OF s(1)] eng_view_layers [OF assms(1)] layers_def s(2-4))
  then show ?thesis using s(1) by auto
qed

interpretation eng: kv_store eng_wf eng_view "eng_Put enc" "eng_Delete enc" eng_Get for enc
proof unfold_locales
  fix e r k v ver assume "eng_wf e"
  then obtain tab where ok: "eng_ok e tab" by (auto simp: eng_wf_def)
  show "\<exists>e' err. eng_Put enc r e k v ver = Some (e', err) \<and> eng_wf e' \<and>
      eng_view e' = (if err = None then (eng_view e)(k \<mapsto> live k v ver) else eng_view e)"
    using eng_apply_returns [OF ok, of enc r "MPut k v ver"] eng_apply_view [OF ok, of enc r "MPut k v ver"]
    by (fastforce simp: eng_wf_def)
next
  fix e r k ver assume "eng_wf e"
  then obtain tab where ok: "eng_ok e tab" by (auto simp: eng_wf_def)
  show "\<exists>e' err. eng_Delete enc r e k ver = Some (e', err) \<and> eng_wf e' \<and>
      eng_view e' = (if err = None then (eng_view e)(k := None) else eng_view e)"
    using eng_apply_returns [OF ok, of enc r "MDel k ver"] eng_apply_view [OF ok, of enc r "MDel k ver"]
    by (fastforce simp: eng_wf_def)
next
  fix e k assume "eng_wf e"
  then obtain tab where ok: "eng_ok e tab" by (auto simp: eng_wf_def)
  then show "\<exists>en. eng_Get e k = Some (en, eng_view e k \<noteq> None) \<and> (\<forall>x. eng_view e k = Some x \<longrightarrow> en = x)"
    by (auto simp: eng_Get_layers [OF ok] eng_view_def hit_result_def split: option.split bool.splits)
qed

lemma eng_apply_calm:
  assumes "eng_ok e tab" "calm (bw (ewal e))"
  shows "\<exists>e'. eng_apply enc draw e op = Some (e', None) \<and> calm (bw (ewal e'))"
proof -
  obtain e' err where a: "eng_apply enc draw e op = Some (e', err)" using eng_apply_returns [OF assms(1)] by blast
  have "wal_idle (ewal e)" using assms(1) by (simp add: eng_ok_def)
  from Append_wait_calm [OF this assms(2), of "enc (op_record op)"] eng_apply_spec [OF assms(1) a] a show ?thesis by auto
qed

subsection \<open>Properties\<close>

definition fresh_engine :: "fs \<Rightarrow> sst_path list \<Rightarrow> engine" where
  "fresh_engine fs ps = \<lparr>ememtable = sl_New, eimmutable = None, ewal = wal_Open [] [], ecompact = \<lparr>ctables = ps\<rparr>,
     efs = fs, emaxMem = push_bit 20 64, eflushCh = False\<rparr>"

lemma fresh_engine_ok:
  assumes "\<forall>p\<in>set ps. holds_table fs p (tab p)"
  shows "eng_ok (fresh_engine fs ps) tab" "calm (bw (ewal (fresh_engine fs ps)))"
    "layers (fresh_engine fs ps) tab = concat (map tab ps)"
  using assms sl.invar_new sl.content_new
  by (simp_all add: eng_defs fresh_engine_def calm_def wal_Open_def NewWriterSize_def wal_idle_def)

lemma empty_engine_wf: "eng_wf (fresh_engine fs [])"
  using fresh_engine_ok(1) [of "[]"] by (auto simp: eng_wf_def)

lemma demo_put:
  "\<exists>e. eng_apply enc draw (fresh_engine fs []) (MPut k v ver) = Some (e, None) \<and> eng_wf e \<and>
     eng_view e k = Some (live k v ver) \<and> eimmutable e = None \<and> ecompact e = \<lparr>ctables = []\<rparr>"
proof -
  let ?tab = "\<lambda>_ :: sst_path. [] :: entry list"
  have ok: "eng_ok (fresh_engine fs []) ?tab" "calm (bw (ewal (fresh_engine fs [])))"
    using fresh_engine_ok [of "[]"] by simp_all
  obtain e where e: "eng_apply enc draw (fresh_engine fs []) (MPut k v ver) = Some (e, None)"
    using eng_apply_calm [OF ok] by blast
  then show ?thesis
    using eng_apply_view [OF ok(1) e] eng_apply_spec [OF ok(1) e] by (auto simp: eng_wf_def fresh_engine_def)
qed

text \<open>\<open>Put\<close> on a well-formed engine returns. Without an error the key shows the new value and
  every other key what it showed before; with an error (from the log) nothing a client can read has
  changed.\<close>

theorem engine_put:
  assumes "eng_wf e"
  shows "\<exists>e' err. eng_Put enc draw e k v ver = Some (e', err) \<and> eng_wf e' \<and>
    (\<forall>k'. eng_view e' k' = (if err = None \<and> k' = k then Some (live k v ver) else eng_view e k'))"
  using eng.put_law [OF assms, of enc draw k v ver] by (auto simp: fun_upd_def)

theorem engine_put_witness:
  "\<exists>e' err. eng_Put (\<lambda>_. []) (\<lambda>_. 1) (fresh_engine (\<lambda>_. None) []) [1] [2] 3 = Some (e', err) \<and>
     (err = None \<longrightarrow> eng_view e' [1] = Some (live [1] [2] 3))"
  using engine_put [OF empty_engine_wf [of "\<lambda>_. None"], of "\<lambda>_. []" "\<lambda>_. 1" "[1]" "[2]" 3] by auto

text \<open>\<open>Delete\<close> on a well-formed engine returns. Without an error the key reads as absent,
  whichever layers still hold older values of it, and no other key changes; with an error nothing
  changes.\<close>

theorem engine_delete:
  assumes "eng_wf e"
  shows "\<exists>e' err. eng_Delete enc draw e k ver = Some (e', err) \<and> eng_wf e' \<and>
    (\<forall>k'. eng_view e' k' = (if err = None \<and> k' = k then None else eng_view e k'))"
  using eng.del_law [OF assms, of enc draw k ver] by (auto simp: fun_upd_def)

theorem engine_delete_witness:
  "\<exists>e' err. eng_Delete (\<lambda>_. []) (\<lambda>_. 1) (fresh_engine (\<lambda>_. None) []) [1] 3 = Some (e', err) \<and> eng_view e' [1] = None"
proof -
  have "eng_view (fresh_engine (\<lambda>_. None) []) k = None" for k
    using eng_view_layers fresh_engine_ok [of "[]" "\<lambda>_. None" "\<lambda>_. []"] by (simp add: visible_def)
  then show ?thesis
    using engine_delete [OF empty_engine_wf [of "\<lambda>_. None"], of "\<lambda>_. []" "\<lambda>_. 1" "[1]" 3] by auto
qed

text \<open>C7. \<open>flush\<close> changes no read. With no flush outstanding and a memtable that fits a table, it
  returns, and every key shows what it showed before, also when creating, writing or closing the file
  fails; without I/O errors it succeeds and releases the memtable.\<close>

theorem flush_preserves_reads:
  assumes "eng_wf e" "eimmutable e = None" "sst_fits (contents (ememtable e))" "Flushed now \<notin> set (ctables (ecompact e))"
  shows "\<exists>e' err. eng_flush io now e = Some (e', err) \<and> eng_wf e' \<and> (\<forall>k. eng_view e' k = eng_view e k) \<and>
    (create_err io = None \<and> wscript io = [] \<longrightarrow> err = None \<and> eimmutable e' = None)"
proof -
  obtain tab where ok: "eng_ok e tab" using assms(1) by (auto simp: eng_wf_def)
  obtain e' err tab' where "eng_flush io now e = Some (e', err)" "eng_ok e' tab'"
      "\<forall>k. find_key k (layers e' tab') = find_key k (layers e tab)"
      "create_err io = None \<and> wscript io = [] \<longrightarrow> err = None \<and> eimmutable e' = None"
    using eng_flush_ok [OF ok assms(2-4)] by blast
  then show ?thesis
    using eng_view_layers [of e' tab'] eng_view_layers [OF ok] by (auto simp: eng_wf_def visible_def)
qed

theorem flush_preserves_reads_witness:
  "\<exists>e e' err. eng_Put (\<lambda>_. []) (\<lambda>_. 1) (fresh_engine (\<lambda>_. None) []) [1] [2] 3 = Some (e, None) \<and>
     eng_flush no_io_error 5 e = Some (e', err) \<and> eng_view e' [1] = Some (live [1] [2] 3)"
proof -
  let ?tab = "\<lambda>_ :: sst_path. [] :: entry list"
  have ok: "eng_ok (fresh_engine (\<lambda>_. None) []) ?tab" "calm (bw (ewal (fresh_engine (\<lambda>_. None) [])))"
    using fresh_engine_ok [of "[]"] by simp_all
  obtain e where e: "eng_apply (\<lambda>_. []) (\<lambda>_. 1) (fresh_engine (\<lambda>_. None) []) (MPut [1] [2] 3) = Some (e, None)"
    using eng_apply_calm [OF ok] by blast
  have c: "contents (ememtable e) = [live [1] [2] 3]" "eimmutable e = None" "ecompact e = \<lparr>ctables = []\<rparr>"
    using eng_apply_spec [OF ok(1) e] by (simp_all add: fresh_engine_def sl.content_new)
  have v: "eng_view e [1] = Some (live [1] [2] 3)" "eng_wf e" using eng_apply_view [OF ok(1) e] by (auto simp: eng_wf_def)
  have "sst_fits (contents (ememtable e))" by (simp add: c one_entry_fits)
  then show ?thesis using flush_preserves_reads [OF v(2) c(2), of 5 no_io_error] v(1) e c(3) by auto
qed

text \<open>\<open>Snapshot\<close> returns, in some order and without duplicates, exactly the live entries a
  client can read, provided the registered tables are quiet.\<close>

theorem snapshot_is_the_view:
  assumes "eng_ok e tab" "permutes order" "\<forall>p\<in>set (ctables (ecompact e)). quiet (tab p)"
  shows "\<exists>es. eng_Snapshot order e = Some es \<and> distinct (map Key es) \<and> (\<forall>en. en \<in> set es \<longleftrightarrow> eng_view e (Key en) = Some en)"
  using eng_Snapshot_ok [OF assms] .

lemma permutes_rev: "permutes rev"
  by (simp add: permutes_def)

lemma demo_engine:
  defines "e \<equiv> fresh_engine (demo_fs [live [2] [] 6] demo_paths) demo_paths" and "tab \<equiv> demo_tab [live [2] [] 6]"
  shows "eng_ok e tab" "eng_view e [3] = Some (live [3] [] 7)" "\<forall>p\<in>set (ctables (ecompact e)). quiet (tab p)"
    "eng_view e k = Some en \<Longrightarrow> k \<in> Key ` set (concat (map tab demo_paths))"
proof -
  have holds: "\<forall>p\<in>set demo_paths. holds_table (demo_fs [live [2] [] 6] demo_paths) p (demo_tab [live [2] [] 6] p)"
    by (rule demo_holds) (auto simp: one_entry_fits)
  show ok: "eng_ok e tab" unfolding e_def tab_def by (rule fresh_engine_ok(1) [OF holds])
  have lay: "layers e tab = concat (map tab demo_paths)" unfolding e_def tab_def by (rule fresh_engine_ok(3) [OF holds])
  then show "eng_view e k = Some en \<Longrightarrow> k \<in> Key ` set (concat (map tab demo_paths))"
    unfolding eng_view_layers [OF ok] visible_def by (force dest: find_key_SomeD split: option.splits if_splits)
  from lay show "eng_view e [3] = Some (live [3] [] 7)"
    unfolding eng_view_layers [OF ok] by (simp add: tab_def visible_def demo_defs)
  show "\<forall>p\<in>set (ctables (ecompact e)). quiet (tab p)" using quiet_demo by (simp add: e_def tab_def fresh_engine_def)
qed

theorem snapshot_is_the_view_witness:
  "\<exists>es. eng_Snapshot rev (fresh_engine (demo_fs [live [2] [] 6] demo_paths) demo_paths) = Some es \<and> live [3] [] 7 \<in> set es"
  using snapshot_is_the_view [OF demo_engine(1) permutes_rev demo_engine(3)] demo_engine(2) by fastforce

lemma restore_snapshot_core:
  assumes "eng_ok e tab" "permutes order" "\<forall>p\<in>set (ctables (ecompact e)). quiet (tab p)"
    "eng_wf f" "eimmutable f = None" "ctables (ecompact f) = []"
  shows "\<exists>es f'. eng_Snapshot order e = Some es \<and> eng_Restore draws f es = Some (f', None) \<and> eng_wf f' \<and>
    (\<forall>k. eng_view f' k = eng_view e k)"
proof -
  obtain es where es: "eng_Snapshot order e = Some es" "distinct (map Key es)" "\<forall>en. en \<in> set es \<longleftrightarrow> eng_view e (Key en) = Some en"
    using eng_Snapshot_ok [OF assms(1-3)] by blast
  obtain tab' where ok: "eng_ok f tab'" using assms(4) by (auto simp: eng_wf_def)
  obtain f' where f': "eng_Restore draws f es = Some (f', None)" "eng_ok f' tab'"
      "\<forall>k. eng_view f' k = (case find_key k es of Some en \<Rightarrow> Some (live (Key en) (Value en) (Version en))
         | None \<Rightarrow> visible (imm_entries f @ table_entries f tab') k)"
    using eng_Restore_ok [OF ok es(2)] by blast
  have low: "imm_entries f @ table_entries f tab' = []" using assms(5,6) by (simp add: imm_entries_def table_entries_def)
  have "eng_view f' k = eng_view e k" for k
  proof (cases "find_key k es")
    case None
    have "eng_view e k = None"
    proof (rule ccontr)
      assume "eng_view e k \<noteq> None"
      then obtain en where en: "eng_view e k = Some en" by blast
      then have "en \<in> set es" "Key en = k" using es(3) eng_view_key [OF assms(1) en] by auto
      then show False using None by (auto simp: find_key_None_iff)
    qed
    then show ?thesis using None f'(3) low by (simp add: visible_def)
  next
    case (Some en)
    then have en: "en \<in> set es" "Key en = k" by (auto dest: find_key_SomeD)
    then have "eng_view e k = Some en" using es(3) by blast
    moreover from this have "\<not> Deleted en" using eng_view_key [OF assms(1)] by blast
    then have "live (Key en) (Value en) (Version en) = en" by (simp add: live_def)
    ultimately show ?thesis using Some f'(3) by simp
  qed
  then show ?thesis using es(1) f' by (auto simp: eng_wf_def)
qed

text \<open>Snapshot and restore. Restoring the snapshot of one engine into another one that has no
  table and no memtable being flushed makes the second engine show exactly what the first one shows,
  whatever was in its memtable.\<close>

theorem restore_snapshot:
  assumes "eng_ok e tab" "permutes order" "\<forall>p\<in>set (ctables (ecompact e)). quiet (tab p)"
    "eng_wf f" "eimmutable f = None" "ctables (ecompact f) = []"
  shows "\<exists>es f'. eng_Snapshot order e = Some es \<and> eng_Restore draws f es = Some (f', None) \<and> eng_wf f' \<and>
    (\<forall>k. eng_view f' k = eng_view e k)"
  using restore_snapshot_core [OF assms] .

theorem restore_snapshot_witness:
  "\<exists>es f'. eng_Snapshot rev (fresh_engine (demo_fs [live [2] [] 6] demo_paths) demo_paths) = Some es \<and>
     eng_Restore (\<lambda>_ _. 1) (fresh_engine (\<lambda>_. None) []) es = Some (f', None) \<and> eng_view f' [3] = Some (live [3] [] 7)"
  using restore_snapshot [OF demo_engine(1) permutes_rev demo_engine(3) empty_engine_wf [of "\<lambda>_. None"], of "\<lambda>_ _. 1"]
    demo_engine(2) by (fastforce simp: fresh_engine_def)

text \<open>Without tables and without a memtable being flushed, an unlimited \<open>Scan\<close> returns exactly
  the readable entries whose key is at or above the argument: it is a range scan, not a filter for
  keys that start with the argument.\<close>

theorem scan_is_a_range_scan:
  assumes "eng_wf e" "permutes order" "eimmutable e = None" "ctables (ecompact e) = []"
  shows "\<exists>es. eng_Scan order e pfx 0 = Some es \<and> distinct (map Key es) \<and>
    (\<forall>en. en \<in> set es \<longleftrightarrow> eng_view e (Key en) = Some en \<and> pfx \<le> Key en)"
proof -
  obtain tab where ok: "eng_ok e tab" using assms(1) by (auto simp: eng_wf_def)
  let ?m = "contents (ememtable e)"
  have sorted: "ksorted ?m" using ok sl.content_sorted by (simp add: eng_ok_def)
  have "layers e tab = ?m" "scan_source e tab pfx 0 = from_key pfx ?m"
    using assms(3,4) by (simp_all add: layers_def scan_source_def imm_entries_def table_entries_def take_limit_def)
      (simp add: from_key_def)
  then have "visible (scan_source e tab pfx 0) k = (if pfx \<le> k then eng_view e k else None)" for k
    by (simp add: eng_view_layers [OF ok] visible_def find_key_from_key [OF sorted])
  then show ?thesis using eng_Scan_members [OF ok assms(2), of pfx 0] by auto
qed

theorem scan_is_a_range_scan_witness:
  "\<exists>e es. eng_Put (\<lambda>_. []) (\<lambda>_. 1) (fresh_engine (\<lambda>_. None) []) [98] [2] 3 = Some (e, None) \<and>
     eng_Scan rev e [97] 0 = Some es \<and> live [98] [2] 3 \<in> set es"
proof -
  obtain e where e: "eng_apply (\<lambda>_. []) (\<lambda>_. 1) (fresh_engine (\<lambda>_. None) []) (MPut [98] [2] 3) = Some (e, None)"
      "eng_wf e" "eng_view e [98] = Some (live [98] [2] 3)" "eimmutable e = None" "ecompact e = \<lparr>ctables = []\<rparr>"
    using demo_put by blast
  then show ?thesis using scan_is_a_range_scan [OF e(2) permutes_rev e(4), of "[97]"] by fastforce
qed

text \<open>With a table, \<open>Scan\<close> also returns what the table scan decodes behind the data block: here
  it returns a key below its argument, with an empty value, while \<open>Get\<close> returns the value that was
  written.\<close>

theorem scan_returns_unwritten_entry:
  "\<exists>es. eng_Scan rev (fresh_engine (demo_fs demo_table [Flushed 2]) [Flushed 2]) [98] 0 = Some es \<and>
     live [97] [] 2 \<in> set es \<and>
     eng_view (fresh_engine (demo_fs demo_table [Flushed 2]) [Flushed 2]) [97] = Some (live [97] [1] 1)"
proof -
  let ?e = "fresh_engine (demo_fs demo_table [Flushed 2]) [Flushed 2]" and ?tab = "demo_tab demo_table"
  have holds: "\<forall>p\<in>set [Flushed 2]. holds_table (demo_fs demo_table [Flushed 2]) p (?tab p)"
    by (rule demo_holds [OF demo_table_fits]) (simp add: demo_paths_def)
  note ok = fresh_engine_ok(1,3) [OF holds]
  have "scan_source ?e ?tab [98] 0 = [live [98, 98] [2] 5, live [97] [] 2]"
    using demo_table_trailing
    by (simp add: scan_source_def fresh_engine_def sl.content_new imm_entries_def take_limit_def from_key_def
        demo_tab_def scanned_def) (simp add: demo_table_def)
  then have "visible (scan_source ?e ?tab [98] 0) [97] = Some (live [97] [] 2)" by (simp add: visible_def)
  moreover have "eng_view ?e [97] = Some (live [97] [1] 1)"
    unfolding eng_view_layers [OF ok(1)] ok(2) by (simp add: visible_def demo_tab_def demo_table_def)
  moreover obtain es where "eng_Scan rev ?e [98] 0 = Some es"
      "\<forall>en. en \<in> set es \<longleftrightarrow> visible (scan_source ?e ?tab [98] 0) (Key en) = Some en"
    using eng_Scan_members [OF ok(1) permutes_rev] by blast
  ultimately show ?thesis by (intro exI [of _ es]) simp
qed

text \<open>\<open>Restore\<close> replaces the memtable only: a key of a table that the restored entries do not
  mention is still readable afterwards, although the restored state does not have it.\<close>

theorem restore_keeps_tables:
  assumes "eng_ok e tab" "distinct (map Key ens)" "find_key k ens = None"
  shows "\<exists>e'. eng_Restore draws e ens = Some (e', None) \<and>
    eng_view e' k = visible (imm_entries e @ table_entries e tab) k"
  using eng_Restore_ok [OF assms(1,2), of draws] assms(3) by auto

theorem restore_keeps_tables_witness:
  "\<exists>e'. eng_Restore (\<lambda>_ _. 1) (fresh_engine (demo_fs [live [2] [] 6] demo_paths) demo_paths) [] = Some (e', None) \<and>
     eng_view e' [3] = Some (live [3] [] 7)"
  using restore_keeps_tables [OF demo_engine(1), of "[]" "[3]" "\<lambda>_ _. 1"]
  by (auto simp: imm_entries_def table_entries_def fresh_engine_def visible_def demo_defs)

text \<open>C35. A failed flush leaves its memtable in \<open>immutable\<close>, and the next flush overwrites it. In
  this run a value is written, its flush fails, another key is written and flushed successfully: the
  first value, acknowledged and readable until then, is no longer found.\<close>

theorem flush_after_failed_flush_hides_data:
  "\<exists>e1 e2 e3 e4. eng_Put (\<lambda>_. []) (\<lambda>_. 1) (fresh_engine (\<lambda>_. None) []) [1] [7] 1 = Some (e1, None) \<and>
     eng_flush \<lparr>create_err = Some (OSError 0), wscript = []\<rparr> 5 e1 = Some (e2, Some (OSError 0)) \<and>
     eng_Put (\<lambda>_. []) (\<lambda>_. 1) e2 [2] [8] 2 = Some (e3, None) \<and> eng_flush no_io_error 6 e3 = Some (e4, None) \<and>
     eng_view e3 [1] = Some (live [1] [7] 1) \<and> eng_view e4 [1] = None"
proof -
  let ?tab = "\<lambda>_ :: sst_path. [] :: entry list" and ?io = "\<lparr>create_err = Some (OSError 0), wscript = []\<rparr>"
  have ok0: "eng_ok (fresh_engine (\<lambda>_. None) []) ?tab" "calm (bw (ewal (fresh_engine (\<lambda>_. None) [])))"
    using fresh_engine_ok [of "[]"] by simp_all
  obtain e1 where e1: "eng_apply (\<lambda>_. []) (\<lambda>_. 1) (fresh_engine (\<lambda>_. None) []) (MPut [1] [7] 1) = Some (e1, None)"
      "calm (bw (ewal e1))" using eng_apply_calm [OF ok0] by blast
  from eng_apply_spec [OF ok0(1) e1(1)] have s1: "eng_ok e1 ?tab" "contents (ememtable e1) = [live [1] [7] 1]"
      "ctables (ecompact e1) = []" by (simp_all add: fresh_engine_def sl.content_new)
  define e2 where "e2 = e1\<lparr>eimmutable := Some (ememtable e1), ememtable := sl_New\<rparr>"
  have "sl_Len (ememtable e1) \<noteq> 0" using sl.size_law [of "ememtable e1"] s1 by (simp add: eng_ok_def)
  then have f2: "eng_flush ?io 5 e1 = Some (e2, Some (OSError 0))"
    by (simp add: eng_flush_def flush_begin_def flush_write_def Let_def e2_def)
  have s2: "eng_ok e2 ?tab" "contents (ememtable e2) = []" "calm (bw (ewal e2))" "imm_entries e2 = [live [1] [7] 1]" "ctables (ecompact e2) = []"
    using s1 e1(2) sl.invar_new sl.content_new by (auto simp: eng_ok_def e2_def imm_entries_def)
  obtain e3 where e3: "eng_apply (\<lambda>_. []) (\<lambda>_. 1) e2 (MPut [2] [8] 2) = Some (e3, None)" using eng_apply_calm [OF s2(1,3)] by blast
  from eng_apply_spec [OF s2(1) e3] have s3: "eng_ok e3 ?tab" "contents (ememtable e3) = [live [2] [8] 2]"
      "imm_entries e3 = [live [1] [7] 1]" "ctables (ecompact e3) = []" using s2 by (simp_all add: imm_entries_def)
  let ?e3 = "e3\<lparr>eimmutable := Some (ememtable e3), ememtable := sl_New\<rparr>"
  have n: "sl_Len (ememtable e3) \<noteq> 0" using sl.size_law [of "ememtable e3"] s3 by (simp add: eng_ok_def)
  have ok3: "eng_ok ?e3 ?tab" using s3 sl.invar_new by (simp add: eng_ok_def)
  obtain e4 where e4: "flush_write no_io_error 6 ?e3 = Some (e4, None)"
    using flush_write_calm [OF ok3, of "ememtable e3" no_io_error 6] by (auto simp: no_io_error_def)
  have "sst_fits (contents (ememtable e3))" by (simp add: s3 one_entry_fits)
  from flush_write_ok [OF ok3 _ this _ e4] s3 have s4: "eng_ok e4 (?tab(Flushed 6 := [live [2] [8] 2]))"
      "ememtable e4 = sl_New" "ctables (ecompact e4) = [Flushed 6]" by simp_all
  have f4: "eng_flush no_io_error 6 e3 = Some (flush_clear e4, None)" using n e4 by (simp add: eng_flush_def flush_begin_def)
  have ok4: "eng_ok (flush_clear e4) (?tab(Flushed 6 := [live [2] [8] 2]))" using s4 by (simp add: eng_ok_def flush_clear_def)
  have "eng_view e3 [1] = Some (live [1] [7] 1)"
    unfolding eng_view_layers [OF s3(1)] by (simp add: layers_def s3 table_entries_def visible_def)
  moreover have "eng_view (flush_clear e4) [1] = None"
    unfolding eng_view_layers [OF ok4] using s4
    by (simp add: layers_def flush_clear_def imm_entries_def table_entries_def visible_def sl.content_new)
  ultimately show ?thesis using e1(1) f2 e3 f4 by auto
qed

text \<open>\<open>Get\<close> takes the list of tables once and opens them afterwards. When a compaction swaps and
  removes those tables in between, every open fails and the key is reported as absent, although the
  merged table holds it.\<close>

theorem get_misses_removed_tables:
  "get_tables (remove_files fs ps) ps k = Some (zeroEntry, False)"
proof -
  have "\<forall>p\<in>set qs. fs' p = None \<Longrightarrow> get_tables fs' qs k = Some (zeroEntry, False)" for qs fs'
    by (induction qs) (simp_all add: OpenReader_def)
  then show ?thesis by (simp add: remove_files_apply)
qed

end
