(* ===== verification/Watch.thy ===== *)
theory Watch
  imports Prelude
begin

text \<open>
  \<open>internal/watch/hub.go\<close>: the hub that fans key changes out to subscribers. A Go channel is a
  cell of an explicit store (\<open>chans\<close>, a channel value is an index into it) with its buffered
  events and whether it is closed; a subscription points to its channel, so the hub's map and the
  subscriber's end share it. Sending on and closing a closed channel panic (\<open>None\<close>).

  The map \<open>subs\<close> is an association list; \<open>Notify\<close> ranges over it in an order Go does not
  fix, and by \<open>Notify_ok\<close> the result does not depend on it.
\<close>

datatype eventType = EventPut | EventDelete

record event =
  evType :: eventType
  evKey :: bytes
  evValue :: bytes
  evVersion :: i64

record channel =
  chbuf :: "event list"
  chclosed :: bool

record subscription =
  sprefix :: bytes
  sch :: nat

record hub =
  subs :: "(u64 \<times> subscription) list"
  next_id :: u64
  chans :: "channel list"

definition chanCap :: nat where
  "chanCap = 64"

definition NewHub :: hub where
  "NewHub = \<lparr>subs = [], next_id = 0, chans = []\<rparr>"

definition HasPrefix :: "bytes \<Rightarrow> bytes \<Rightarrow> bool" where
  "HasPrefix s p \<longleftrightarrow> take (length p) s = p"

definition Subscribe :: "hub \<Rightarrow> bytes \<Rightarrow> hub \<times> u64 \<times> nat" where
  "Subscribe h p =
     (let ch = length (chans h); sid = next_id h in
      (h\<lparr>subs := (sid, \<lparr>sprefix = p, sch = ch\<rparr>) # filter (\<lambda>(i, s). i \<noteq> sid) (subs h),
         next_id := sid + 1, chans := chans h @ [\<lparr>chbuf = [], chclosed = False\<rparr>]\<rparr>, sid, ch))"

definition close_chan :: "channel list \<Rightarrow> nat \<Rightarrow> channel list option" where
  "close_chan cs c =
     (if c < length cs \<and> \<not> chclosed (cs ! c) then Some (cs[c := (cs ! c)\<lparr>chclosed := True\<rparr>]) else None)"

definition Unsubscribe :: "hub \<Rightarrow> u64 \<Rightarrow> hub option" where
  "Unsubscribe h sid =
     (case map_of (subs h) sid of
        None \<Rightarrow> Some h
      | Some s \<Rightarrow> do {
          cs \<leftarrow> close_chan (chans h) (sch s);
          Some (h\<lparr>chans := cs, subs := filter (\<lambda>(i, s). i \<noteq> sid) (subs h)\<rparr>)
        })"

text \<open>The \<open>select\<close> with a \<open>default\<close>: send when there is room, else drop.\<close>

definition offer :: "channel list \<Rightarrow> nat \<Rightarrow> event \<Rightarrow> channel list option" where
  "offer cs c e =
     (if \<not> c < length cs \<or> chclosed (cs ! c) then None
      else if length (chbuf (cs ! c)) < chanCap then Some (cs[c := (cs ! c)\<lparr>chbuf := chbuf (cs ! c) @ [e]\<rparr>])
      else Some cs)"

definition notify_one :: "event \<Rightarrow> channel list \<Rightarrow> subscription \<Rightarrow> channel list option" where
  "notify_one e cs s = (if HasPrefix (evKey e) (sprefix s) then offer cs (sch s) e else Some cs)"

definition Notify :: "hub \<Rightarrow> event \<Rightarrow> hub option" where
  "Notify h e = do {
     cs \<leftarrow> foldM (notify_one e) (chans h) (map snd (subs h));
     Some (h\<lparr>chans := cs\<rparr>)
   }"

text \<open>The subscriber's receive: an event, the end of a closed channel, or blocking.\<close>

datatype recv_result = Received event | Ended | Blocked

definition receive :: "hub \<Rightarrow> nat \<Rightarrow> hub \<times> recv_result" where
  "receive h c =
     (case chbuf (chans h ! c) of
        e # es \<Rightarrow> (h\<lparr>chans := (chans h)[c := (chans h ! c)\<lparr>chbuf := es\<rparr>]\<rparr>, Received e)
      | [] \<Rightarrow> (h, if chclosed (chans h ! c) then Ended else Blocked))"

subsection \<open>Well-formed hubs\<close>

definition hub_ok :: "hub \<Rightarrow> bool" where
  "hub_ok h \<longleftrightarrow> distinct (map fst (subs h)) \<and> distinct (map (sch \<circ> snd) (subs h)) \<and>
     (\<forall>(i, s)\<in>set (subs h). sch s < length (chans h) \<and> \<not> chclosed (chans h ! sch s)) \<and>
     (\<forall>c\<in>set (chans h). length (chbuf c) \<le> chanCap)"

lemma hub_ok_New: "hub_ok NewHub"
  by (simp add: hub_ok_def NewHub_def)

lemma distinct_filter_snd: "distinct (map (f \<circ> snd) xs) \<Longrightarrow> distinct (map (f \<circ> snd) (filter P xs))"
  by (rule distinct_map_filter)

lemma hub_ok_Subscribe:
  assumes "hub_ok h" "Subscribe h p = (h', sid, ch)"
  shows "hub_ok h' \<and> map_of (subs h') sid = Some \<lparr>sprefix = p, sch = ch\<rparr> \<and> chbuf (chans h' ! ch) = []"
proof -
  let ?old = "filter (\<lambda>(i, s). i \<noteq> next_id h) (subs h)"
  have h': "subs h' = (next_id h, \<lparr>sprefix = p, sch = length (chans h)\<rparr>) # ?old" "sid = next_id h" "ch = length (chans h)"
    "chans h' = chans h @ [\<lparr>chbuf = [], chclosed = False\<rparr>]" using assms(2) by (auto simp: Subscribe_def Let_def)
  have "distinct (map fst ?old)" "distinct (map (sch \<circ> snd) ?old)"
    using assms(1) by (auto simp: hub_ok_def intro!: distinct_map_filter)
  moreover have "\<forall>(i, s)\<in>set (subs h). sch s < length (chans h)" using assms(1) by (auto simp: hub_ok_def)
  ultimately show ?thesis
    using assms(1) by (fastforce simp: hub_ok_def h' nth_append)
qed

lemma hub_ok_Unsubscribe:
  assumes "hub_ok h"
  shows "\<exists>h'. Unsubscribe h sid = Some h' \<and> hub_ok h' \<and> map_of (subs h') sid = None"
proof (cases "map_of (subs h) sid")
  case None
  then show ?thesis using assms by (simp add: Unsubscribe_def)
next
  case (Some s)
  let ?subs = "filter (\<lambda>(i, s). i \<noteq> sid) (subs h)"
  have s: "(sid, s) \<in> set (subs h)" using Some by (rule map_of_SomeD)
  then have ch: "sch s < length (chans h)" "\<not> chclosed (chans h ! sch s)" using assms by (auto simp: hub_ok_def)
  have "inj_on (sch \<circ> snd) (set (subs h))" using assms by (simp add: hub_ok_def distinct_map)
  then have other: "sch s' \<noteq> sch s" if "(i, s') \<in> set ?subs" for i s'
    using that s by (auto dest: inj_onD [of "sch \<circ> snd" "set (subs h)" "(i, s')" "(sid, s)"])
  have "distinct (map fst ?subs)" "distinct (map (sch \<circ> snd) ?subs)"
    using assms by (auto simp: hub_ok_def intro!: distinct_map_filter)
  moreover have "sch s' < length (chans h) \<and> \<not> chclosed ((chans h)[sch s := (chans h ! sch s)\<lparr>chclosed := True\<rparr>] ! sch s')"
    if "(i, s') \<in> set ?subs" for i s'
    using other [OF that] that assms by (auto simp: hub_ok_def)
  moreover have "\<forall>c\<in>set ((chans h)[sch s := (chans h ! sch s)\<lparr>chclosed := True\<rparr>]). length (chbuf c) \<le> chanCap"
    using assms ch by (auto simp: hub_ok_def dest!: subsetD [OF set_update_subset_insert])
  ultimately have "hub_ok (h\<lparr>chans := (chans h)[sch s := (chans h ! sch s)\<lparr>chclosed := True\<rparr>], subs := ?subs\<rparr>)"
    unfolding hub_ok_def by auto
  moreover have "map_of ?subs sid = None" by (auto simp: map_of_eq_None_iff)
  ultimately show ?thesis using Some ch by (simp add: Unsubscribe_def close_chan_def)
qed

text \<open>What one notification does to one channel.\<close>

definition delivered :: "event \<Rightarrow> (u64 \<times> subscription) list \<Rightarrow> nat \<Rightarrow> channel \<Rightarrow> channel" where
  "delivered e ss c ch =
     (if (\<exists>(i, s)\<in>set ss. sch s = c \<and> HasPrefix (evKey e) (sprefix s)) \<and> length (chbuf ch) < chanCap
      then ch\<lparr>chbuf := chbuf ch @ [e]\<rparr> else ch)"

lemma notify_loop:
  assumes "distinct (map (sch \<circ> snd) ss)" "\<forall>(i, s)\<in>set ss. sch s < length cs \<and> \<not> chclosed (cs ! sch s)"
  shows "\<exists>cs'. foldM (notify_one e) cs (map snd ss) = Some cs' \<and> length cs' = length cs \<and>
    (\<forall>c<length cs. cs' ! c = delivered e ss c (cs ! c))"
  using assms
proof (induction ss arbitrary: cs)
  case Nil
  then show ?case by (simp add: delivered_def)
next
  case (Cons x ss)
  obtain i s where x: "x = (i, s)" by (cases x)
  have ch: "sch s < length cs" "\<not> chclosed (cs ! sch s)" using Cons.prems(2) x by auto
  let ?cs = "if HasPrefix (evKey e) (sprefix s) \<and> length (chbuf (cs ! sch s)) < chanCap
    then cs[sch s := (cs ! sch s)\<lparr>chbuf := chbuf (cs ! sch s) @ [e]\<rparr>] else cs"
  have one: "notify_one e cs s = Some ?cs" using ch by (simp add: notify_one_def offer_def)
  have fresh: "sch s \<notin> (sch \<circ> snd) ` set ss" using Cons.prems(1) x by simp
  have same: "chclosed (?cs ! c) \<longleftrightarrow> chclosed (cs ! c)" if "c < length cs" for c
    using that by (cases "c = sch s") auto
  have "\<forall>(i, s')\<in>set ss. sch s' < length ?cs \<and> \<not> chclosed (?cs ! sch s')"
    using Cons.prems(2) same by auto
  then obtain cs' where cs': "foldM (notify_one e) ?cs (map snd ss) = Some cs'" "length cs' = length ?cs"
      "\<forall>c<length ?cs. cs' ! c = delivered e ss c (?cs ! c)"
    using Cons.IH [of ?cs] Cons.prems(1) by auto
  have "cs' ! c = delivered e (x # ss) c (cs ! c)" if "c < length cs" for c
    using that cs'(3) fresh x by (cases "c = sch s") (auto simp: delivered_def image_iff split: if_splits)
  moreover have "foldM (notify_one e) cs (map snd (x # ss)) = Some cs'" using cs'(1) one x by simp
  moreover have "length cs' = length cs" using cs'(2) by (auto split: if_splits)
  ultimately show ?case by blast
qed

lemma Notify_ok:
  assumes "hub_ok h"
  shows "\<exists>h'. Notify h e = Some h' \<and> hub_ok h' \<and> subs h' = subs h \<and> length (chans h') = length (chans h) \<and>
    (\<forall>c<length (chans h). chans h' ! c = delivered e (subs h) c (chans h ! c))"
proof -
  obtain cs where cs: "foldM (notify_one e) (chans h) (map snd (subs h)) = Some cs" "length cs = length (chans h)"
      "\<forall>c<length (chans h). cs ! c = delivered e (subs h) c (chans h ! c)"
    using notify_loop [of "subs h" "chans h" e] assms by (auto simp: hub_ok_def)
  have "length (chbuf (cs ! c)) \<le> chanCap" if "c < length cs" for c
    using assms that cs(2,3) by (auto simp: hub_ok_def delivered_def)
  then have "\<forall>c\<in>set cs. length (chbuf c) \<le> chanCap" by (auto simp: in_set_conv_nth)
  moreover have "\<not> chclosed (cs ! sch s) \<and> sch s < length cs" if "(i, s) \<in> set (subs h)" for i s
  proof -
    have "sch s < length (chans h)" "\<not> chclosed (chans h ! sch s)" using assms that by (auto simp: hub_ok_def)
    then show ?thesis using cs(2,3) by (simp add: delivered_def)
  qed
  ultimately have "hub_ok (h\<lparr>chans := cs\<rparr>)"
    using assms unfolding hub_ok_def by auto
  then show ?thesis using cs by (simp add: Notify_def)
qed

lemma delivered_sub:
  assumes "hub_ok h" "(i, s) \<in> set (subs h)"
  shows "chbuf (delivered e (subs h) (sch s) ch) =
    (if HasPrefix (evKey e) (sprefix s) \<and> length (chbuf ch) < chanCap then chbuf ch @ [e] else chbuf ch)"
proof -
  have "inj_on (sch \<circ> snd) (set (subs h))" using assms(1) by (simp add: hub_ok_def distinct_map)
  then have "s' = s" if "(j, s') \<in> set (subs h)" "sch s' = sch s" for j s'
    using that assms(2) by (auto dest: inj_onD [of "sch \<circ> snd" "set (subs h)" "(j, s')" "(i, s)"])
  then show ?thesis using assms(2) by (auto simp: delivered_def)
qed

text \<open>Sequences of hub operations.\<close>

datatype hub_op = OpSubscribe bytes | OpUnsubscribe u64 | OpNotify event | OpReceive nat

fun hub_exec :: "hub \<Rightarrow> hub_op \<Rightarrow> hub option" where
  "hub_exec h (OpSubscribe p) = Some (fst (Subscribe h p))"
| "hub_exec h (OpUnsubscribe i) = Unsubscribe h i"
| "hub_exec h (OpNotify e) = Notify h e"
| "hub_exec h (OpReceive c) = (if c < length (chans h) then Some (fst (receive h c)) else Some h)"

lemma hub_ok_receive:
  assumes "hub_ok h" "c < length (chans h)"
  shows "hub_ok (fst (receive h c))"
proof (cases "chbuf (chans h ! c)")
  case (Cons e es)
  have "length (chbuf (chans h ! c)) \<le> chanCap" using assms by (simp add: hub_ok_def)
  then have "\<forall>x\<in>set ((chans h)[c := (chans h ! c)\<lparr>chbuf := es\<rparr>]). length (chbuf x) \<le> chanCap"
    using assms Cons by (auto simp: hub_ok_def dest!: subsetD [OF set_update_subset_insert])
  moreover have "chclosed ((chans h)[c := (chans h ! c)\<lparr>chbuf := es\<rparr>] ! d) = chclosed (chans h ! d)" for d
    using assms(2) by (cases "d = c") auto
  ultimately show ?thesis using assms(1) Cons by (simp add: receive_def hub_ok_def)
qed (simp add: receive_def assms(1))

lemma hub_exec_ok: "hub_ok h \<Longrightarrow> \<exists>h'. hub_exec h op = Some h' \<and> hub_ok h'"
  using hub_ok_Subscribe [of h] hub_ok_Unsubscribe [of h] Notify_ok [of h] hub_ok_receive [of h]
  by (cases op) (fastforce simp: Subscribe_def Let_def)+

subsection \<open>Properties\<close>

text \<open>C27. No sequence of subscriptions, cancellations, notifications and receives makes the hub panic:
  it never sends on or closes a closed channel, and no channel exceeds its capacity.\<close>

theorem hub_never_panics:
  "\<exists>h. foldM hub_exec NewHub ops = Some h \<and> hub_ok h"
  using foldM_rel [where I = hub_ok and f = hub_exec and proj = "\<lambda>_. ()" and g = "\<lambda>_ _. ()" and xs = ops, OF _ hub_ok_New]
    hub_exec_ok by auto

text \<open>\<open>Notify\<close> returns without blocking. The event is appended to the channel of every
  subscription whose prefix its key has and whose channel has room, and to no other channel.\<close>

theorem notify_delivers:
  assumes "hub_ok h"
  shows "\<exists>h'. Notify h e = Some h' \<and> hub_ok h' \<and> subs h' = subs h \<and>
    (\<forall>i s. (i, s) \<in> set (subs h) \<longrightarrow> chbuf (chans h' ! sch s) =
       (if HasPrefix (evKey e) (sprefix s) \<and> length (chbuf (chans h ! sch s)) < 64
        then chbuf (chans h ! sch s) @ [e] else chbuf (chans h ! sch s)))"
proof -
  obtain h' where h': "Notify h e = Some h'" "hub_ok h'" "subs h' = subs h"
      "\<forall>c<length (chans h). chans h' ! c = delivered e (subs h) c (chans h ! c)"
    using Notify_ok [OF assms] by blast
  have "sch s < length (chans h)" if "(i, s) \<in> set (subs h)" for i s using assms that by (auto simp: hub_ok_def)
  then show ?thesis using h' delivered_sub [OF assms] by (auto simp: chanCap_def)
qed

theorem notify_delivers_witness:
  "\<exists>h'. Notify (fst (Subscribe NewHub [1])) \<lparr>evType = EventPut, evKey = [1, 2], evValue = [3], evVersion = 4\<rparr> = Some h' \<and>
     chbuf (chans h' ! 0) = [\<lparr>evType = EventPut, evKey = [1, 2], evValue = [3], evVersion = 4\<rparr>]"
proof -
  obtain h sid ch where h: "Subscribe NewHub [1] = (h, sid, ch)" by (metis prod_cases3)
  then have "hub_ok h" using hub_ok_Subscribe [OF hub_ok_New] by blast
  moreover have "subs h = [(0, \<lparr>sprefix = [1], sch = 0\<rparr>)]" "chans h = [\<lparr>chbuf = [], chclosed = False\<rparr>]"
    using h by (auto simp: Subscribe_def NewHub_def Let_def)
  ultimately show ?thesis
    using notify_delivers [of h "\<lparr>evType = EventPut, evKey = [1, 2], evValue = [3], evVersion = 4\<rparr>"] h
    by (auto simp: HasPrefix_def)
qed

text \<open>A subscriber that does not receive meanwhile finds in its channel, in order, the first 64 of
  the matching events notified since it subscribed; the later ones have been dropped.\<close>

theorem slow_subscriber_gets_first_64:
  assumes "hub_ok h" "Subscribe h p = (h0, sid, ch)"
  shows "\<exists>h'. foldM Notify h0 es = Some h' \<and> hub_ok h' \<and>
    chbuf (chans h' ! ch) = take 64 (filter (\<lambda>e. HasPrefix (evKey e) p) es)"
proof -
  have h0: "hub_ok h0" "map_of (subs h0) sid = Some \<lparr>sprefix = p, sch = ch\<rparr>" "chbuf (chans h0 ! ch) = []"
    using hub_ok_Subscribe [OF assms] by auto
  have "\<exists>h'. foldM Notify h0 es = Some h' \<and> hub_ok h' \<and> subs h' = subs h0 \<and>
      chbuf (chans h' ! ch) = take 64 (filter (\<lambda>e. HasPrefix (evKey e) p) es)"
  proof (induction es rule: rev_induct)
    case (snoc e es)
    then obtain h1 where h1: "foldM Notify h0 es = Some h1" "hub_ok h1" "subs h1 = subs h0"
        "chbuf (chans h1 ! ch) = take 64 (filter (\<lambda>e. HasPrefix (evKey e) p) es)" by blast
    have sub: "(sid, \<lparr>sprefix = p, sch = ch\<rparr>) \<in> set (subs h1)" using h0(2) h1(3) by (simp add: map_of_SomeD)
    then have "ch < length (chans h1)" using h1(2) by (auto simp: hub_ok_def)
    then obtain h2 where "Notify h1 e = Some h2" "hub_ok h2" "subs h2 = subs h1"
        "chans h2 ! ch = delivered e (subs h1) ch (chans h1 ! ch)" using Notify_ok [OF h1(2), of e] by blast
    then show ?case
      using h1 delivered_sub [OF h1(2) sub, of e "chans h1 ! ch"] by (auto simp: foldM_append chanCap_def)
  qed (use h0 in simp)
  then show ?thesis by blast
qed

theorem slow_subscriber_gets_first_64_witness:
  "\<exists>h'. foldM Notify (fst (Subscribe NewHub [])) (replicate 70 \<lparr>evType = EventDelete, evKey = [1], evValue = [], evVersion = 2\<rparr>) = Some h' \<and>
     length (chbuf (chans h' ! snd (snd (Subscribe NewHub [])))) = 64"
proof -
  obtain h sid ch where h: "Subscribe NewHub [] = (h, sid, ch)" by (metis prod_cases3)
  from slow_subscriber_gets_first_64 [OF hub_ok_New h] show ?thesis by (force simp: h HasPrefix_def)
qed

end
