(* ===== verification/Fsm.thy ===== *)
theory Fsm
  imports Engine Watch
begin

text \<open>
  \<open>internal/consensus/fsm.go\<close> and \<open>snapshot.go\<close>: the state machine Raft drives. \<open>Apply\<close>
  decodes a committed log entry, writes it to the engine with the log index as its version and
  notifies the watch hub; \<open>Snapshot\<close>, \<open>Persist\<close> and \<open>Restore\<close> move the state between nodes.

  \<^item> The \<open>interface\{\}\<close> value \<open>Apply\<close> returns is the datatype \<open>response\<close>: nil, an error, or
    \<open>*ApplyResult\<close>.
  \<^item> \<open>cdec\<close>, \<open>jenc\<close> and \<open>jdec\<close> stand for the JSON codec on \<open>Command\<close> and
    \<open>[]storage.Entry\<close>; \<open>enc\<close> is the engine's own codec for its log.
\<close>

record command =
  cType :: byte
  cKey :: bytes
  cValue :: bytes
  cTTL :: i64

definition CmdPut :: byte where
  "CmdPut = 0"

definition CmdDelete :: byte where
  "CmdDelete = 1"

datatype logType = LogCommand | LogOther

record raftlog =
  lType :: logType
  lIndex :: u64
  lData :: bytes

datatype fsm_error = UnmarshalFailed | StoreFailed goerror | UnknownCommand byte | DecodeFailed

datatype response = RNil | RErr fsm_error | ApplyResult i64

record fsm =
  fstore :: engine
  fwatcher :: hub

definition NewFSM :: "engine \<Rightarrow> hub \<Rightarrow> fsm" where
  "NewFSM e h = \<lparr>fstore = e, fwatcher = h\<rparr>"

definition fsm_Apply ::
  "(walRecord \<Rightarrow> bytes) \<Rightarrow> (bytes \<Rightarrow> command option) \<Rightarrow> rng \<Rightarrow> fsm \<Rightarrow> raftlog \<Rightarrow> (fsm \<times> response) option" where
  "fsm_Apply enc cdec draw f l =
     (if lType l \<noteq> LogCommand then Some (f, RNil)
      else (case cdec (lData l) of
          None \<Rightarrow> Some (f, RErr UnmarshalFailed)
        | Some cmd \<Rightarrow>
            let version = lIndex l in
            if cType cmd = CmdPut then do {
              (e, err) \<leftarrow> eng_Put enc draw (fstore f) (cKey cmd) (cValue cmd) version;
              (case err of
                 Some x \<Rightarrow> Some (f\<lparr>fstore := e\<rparr>, RErr (StoreFailed x))
               | None \<Rightarrow> do {
                   h \<leftarrow> Notify (fwatcher f)
                     \<lparr>evType = EventPut, evKey = cKey cmd, evValue = cValue cmd, evVersion = version\<rparr>;
                   Some (f\<lparr>fstore := e, fwatcher := h\<rparr>, ApplyResult version)
                 })
            } else if cType cmd = CmdDelete then do {
              (e, err) \<leftarrow> eng_Delete enc draw (fstore f) (cKey cmd) version;
              (case err of
                 Some x \<Rightarrow> Some (f\<lparr>fstore := e\<rparr>, RErr (StoreFailed x))
               | None \<Rightarrow> do {
                   h \<leftarrow> Notify (fwatcher f)
                     \<lparr>evType = EventDelete, evKey = cKey cmd, evValue = [], evVersion = version\<rparr>;
                   Some (f\<lparr>fstore := e, fwatcher := h\<rparr>, ApplyResult version)
                 })
            } else Some (f, RErr (UnknownCommand (cType cmd)))))"

definition fsm_Snapshot :: "(entry list \<Rightarrow> entry list) \<Rightarrow> fsm \<Rightarrow> entry list option" where
  "fsm_Snapshot order f = eng_Snapshot order (fstore f)"

text \<open>The sink \<open>Persist\<close> writes to; \<open>werr\<close> and \<open>cerr\<close> are the outcomes of its \<open>Write\<close> and
  \<open>Close\<close>.\<close>

record sink =
  sdata :: bytes
  scancelled :: bool

definition fsm_Persist ::
  "(entry list \<Rightarrow> bytes result) \<Rightarrow> goerror option \<Rightarrow> goerror option \<Rightarrow> entry list \<Rightarrow> sink \<times> goerror option" where
  "fsm_Persist jenc werr cerr entries =
     (case jenc entries of
        Inl e \<Rightarrow> (\<lparr>sdata = [], scancelled = True\<rparr>, Some e)
      | Inr d \<Rightarrow> (case werr of
            Some e \<Rightarrow> (\<lparr>sdata = [], scancelled = True\<rparr>, Some e)
          | None \<Rightarrow> (\<lparr>sdata = d, scancelled = False\<rparr>, cerr)))"

definition fsm_Restore ::
  "(bytes \<Rightarrow> entry list option) \<Rightarrow> (nat \<Rightarrow> rng) \<Rightarrow> fsm \<Rightarrow> bytes \<Rightarrow> (fsm \<times> fsm_error option) option" where
  "fsm_Restore jdec draws f d =
     (case jdec d of
        None \<Rightarrow> Some (f, Some DecodeFailed)
      | Some entries \<Rightarrow> do {
          (e, err) \<leftarrow> eng_Restore draws (fstore f) entries;
          Some (f\<lparr>fstore := e\<rparr>, map_option StoreFailed err)
        })"

subsection \<open>The effect of a log entry\<close>

definition fsm_ok :: "fsm \<Rightarrow> bool" where
  "fsm_ok f \<longleftrightarrow> eng_wf (fstore f) \<and> hub_ok (fwatcher f)"

text \<open>The write a log entry asks for, the response it gets unless the store fails, and the event it
  causes.\<close>

definition log_op :: "(bytes \<Rightarrow> command option) \<Rightarrow> raftlog \<Rightarrow> mem_op option" where
  "log_op cdec l =
     (if lType l \<noteq> LogCommand then None
      else (case cdec (lData l) of
          None \<Rightarrow> None
        | Some cmd \<Rightarrow>
            if cType cmd = CmdPut then Some (MPut (cKey cmd) (cValue cmd) (lIndex l))
            else if cType cmd = CmdDelete then Some (MDel (cKey cmd) (lIndex l)) else None))"

definition log_response :: "(bytes \<Rightarrow> command option) \<Rightarrow> raftlog \<Rightarrow> response" where
  "log_response cdec l =
     (if lType l \<noteq> LogCommand then RNil
      else (case cdec (lData l) of
          None \<Rightarrow> RErr UnmarshalFailed
        | Some cmd \<Rightarrow> if log_op cdec l = None then RErr (UnknownCommand (cType cmd)) else ApplyResult (lIndex l)))"

fun op_event :: "mem_op \<Rightarrow> event" where
  "op_event (MPut k v ver) = \<lparr>evType = EventPut, evKey = k, evValue = v, evVersion = ver\<rparr>"
| "op_event (MDel k ver) = \<lparr>evType = EventDelete, evKey = k, evValue = [], evVersion = ver\<rparr>"

lemma CmdPut_neq [simp]: "CmdPut \<noteq> CmdDelete" "CmdDelete \<noteq> CmdPut"
  by (simp_all add: CmdPut_def CmdDelete_def)

lemma fsm_Apply_none:
  "log_op cdec l = None \<Longrightarrow> fsm_Apply enc cdec draw f l = Some (f, log_response cdec l)"
  by (auto simp: fsm_Apply_def log_op_def log_response_def split: option.splits if_splits)

lemma fsm_Apply_some:
  assumes "log_op cdec l = Some op"
  shows "fsm_Apply enc cdec draw f l = do {
      (e, err) \<leftarrow> eng_apply enc draw (fstore f) op;
      (case err of
         Some x \<Rightarrow> Some (f\<lparr>fstore := e\<rparr>, RErr (StoreFailed x))
       | None \<Rightarrow> do {
           h \<leftarrow> Notify (fwatcher f) (op_event op);
           Some (f\<lparr>fstore := e, fwatcher := h\<rparr>, log_response cdec l)
         })
    }"
  using assms by (auto simp: fsm_Apply_def log_op_def log_response_def Let_def split: option.splits if_splits)

lemma fsm_Apply_ok:
  assumes "fsm_ok f"
  shows "\<exists>f' r. fsm_Apply enc cdec draw f l = Some (f', r) \<and> fsm_ok f' \<and>
    (case log_op cdec l of
       None \<Rightarrow> f' = f \<and> r = log_response cdec l
     | Some op \<Rightarrow>
         (r = log_response cdec l \<and> eng_view (fstore f') = (eng_view (fstore f))(op_key op := op_effect op) \<and>
            Notify (fwatcher f) (op_event op) = Some (fwatcher f'))
         \<or> ((\<exists>x. r = RErr (StoreFailed x)) \<and> eng_view (fstore f') = eng_view (fstore f) \<and> fwatcher f' = fwatcher f))"
proof (cases "log_op cdec l")
  case None
  then show ?thesis using assms fsm_Apply_none by auto
next
  case (Some op)
  obtain tab where ok: "eng_ok (fstore f) tab" and h: "hub_ok (fwatcher f)" using assms by (auto simp: fsm_ok_def eng_wf_def)
  obtain e err where e: "eng_apply enc draw (fstore f) op = Some (e, err)" using eng_apply_returns [OF ok] by blast
  note v = eng_apply_view [OF ok e]
  obtain h' where "Notify (fwatcher f) (op_event op) = Some h'" "hub_ok h'" using Notify_ok [OF h] by blast
  then show ?thesis
    using Some e v assms by (cases err) (auto simp: fsm_Apply_some [OF Some] fsm_ok_def eng_wf_def)
qed

text \<open>A response that reports an error of the store.\<close>

definition store_failed :: "response \<Rightarrow> bool" where
  "store_failed r \<longleftrightarrow> (\<exists>x. r = RErr (StoreFailed x))"

subsection \<open>Properties\<close>

text \<open>C13. \<open>Apply\<close> returns on every log entry. A put or delete that the store accepts is answered
  with the log index, makes exactly its key show the new value (with the index as its version) or
  nothing, and notifies the hub of exactly that change; on a store error, and for an entry that is no
  command, does not decode or has an unknown type, neither the readable state nor the hub changes.\<close>

theorem apply_effect:
  assumes "fsm_ok f"
  shows "\<exists>f' r. fsm_Apply enc cdec draw f l = Some (f', r) \<and> fsm_ok f' \<and>
    (case log_op cdec l of
       Some op \<Rightarrow> (r = ApplyResult (lIndex l) \<and> eng_view (fstore f') = (eng_view (fstore f))(op_key op := op_effect op) \<and>
                    Notify (fwatcher f) (op_event op) = Some (fwatcher f'))
                \<or> ((\<exists>x. r = RErr (StoreFailed x)) \<and> eng_view (fstore f') = eng_view (fstore f) \<and> fwatcher f' = fwatcher f)
     | None \<Rightarrow> f' = f \<and> (\<forall>v. r \<noteq> ApplyResult v))"
proof -
  have "log_response cdec l = ApplyResult (lIndex l)" if "log_op cdec l = Some op" for op
    using that by (auto simp: log_response_def log_op_def split: option.splits if_splits)
  moreover have "\<forall>v. log_response cdec l \<noteq> ApplyResult v" if "log_op cdec l = None"
    using that by (auto simp: log_response_def split: option.splits)
  ultimately show ?thesis using fsm_Apply_ok [OF assms, of enc cdec draw l] by (fastforce split: option.splits)
qed

lemma demo_fsm_ok: "fsm_ok (NewFSM (fresh_engine fs []) NewHub)"
  using empty_engine_wf hub_ok_New by (simp add: fsm_ok_def NewFSM_def)

theorem apply_effect_witness:
  "\<exists>f' r. fsm_Apply (\<lambda>_. []) (\<lambda>_. Some \<lparr>cType = 1, cKey = [5], cValue = [], cTTL = 0\<rparr>) (\<lambda>_. 1)
      (NewFSM (fresh_engine (\<lambda>_. None) []) NewHub) \<lparr>lType = LogCommand, lIndex = 9, lData = []\<rparr> = Some (f', r) \<and>
     (r = ApplyResult 9 \<or> (\<exists>x. r = RErr (StoreFailed x)))"
proof -
  let ?cdec = "\<lambda>_ :: bytes. Some \<lparr>cType = 1, cKey = [5], cValue = [], cTTL = 0\<rparr>"
  let ?l = "\<lparr>lType = LogCommand, lIndex = 9, lData = []\<rparr>"
  have "log_op ?cdec ?l = Some (MDel [5] 9)" by (simp add: log_op_def CmdPut_def CmdDelete_def)
  then show ?thesis
    using apply_effect [OF demo_fsm_ok [of "\<lambda>_. None"], of "\<lambda>_. []" ?cdec "\<lambda>_. 1" ?l] by auto
qed

text \<open>The snapshot of one state machine, persisted without an error and restored into another one whose
  engine has no table and no memtable being flushed, makes the second show exactly the state of the
  first, provided the codec returns the entries it was given (\<open>Recovery\<close> discharges this for JSON).\<close>

lemma snapshot_restored:
  assumes "eng_ok (fstore f) tab" "\<forall>p\<in>set (ctables (ecompact (fstore f))). quiet (tab p)" "permutes order"
    "fsm_ok g" "eimmutable (fstore g) = None" "ctables (ecompact (fstore g)) = []"
    "\<And>es. fsm_Snapshot order f = Some es \<Longrightarrow> jenc es = Inr (d es) \<and> jdec (d es) = Some es"
  shows "\<exists>es s g'. fsm_Snapshot order f = Some es \<and> fsm_Persist jenc None None es = (s, None) \<and> \<not> scancelled s \<and>
    fsm_Restore jdec draws g (sdata s) = Some (g', None) \<and> fsm_ok g' \<and> (\<forall>k. eng_view (fstore g') k = eng_view (fstore f) k)"
proof -
  have g: "eng_wf (fstore g)" "hub_ok (fwatcher g)" using assms(4) by (simp_all add: fsm_ok_def)
  obtain es e' where es: "eng_Snapshot order (fstore f) = Some es" "eng_Restore draws (fstore g) es = Some (e', None)"
      "eng_wf e'" "\<forall>k. eng_view e' k = eng_view (fstore f) k"
    using restore_snapshot_core [OF assms(1,3,2) g(1) assms(5,6)] by blast
  then show ?thesis
    using assms(7) [of es] g(2) by (simp add: fsm_Snapshot_def fsm_Persist_def fsm_Restore_def fsm_ok_def)
qed

end
