(* ===== verification/Batch.thy ===== *)
theory Batch
  imports Fsm
begin

text \<open>
  \<open>internal/consensus/batch.go\<close>: the batch writer. Clients queue commands on the channel
  \<open>ch\<close>; the loop collects them in \<open>pending\<close> and, when 256 have come together, when the timer
  fires or when it is stopped, proposes them to Raft one after the other and answers each.

  Raft is a parameter: \<open>rapply r d\<close> is the outcome of \<open>raft.Apply\<close> with its future waited for,
  that is the new state of Raft, the future's error, and the FSM's response. \<open>marshal\<close> stands for
  \<open>json.Marshal\<close>. \<open>bsubmitted\<close> is the history of the requests that \<open>Submit\<close> has sent on the
  channel, \<open>banswers\<close> the history of the values sent on the result channels, and \<open>bexited\<close> tells that
  the loop has returned.
\<close>

definition batchMaxSize :: nat where
  "batchMaxSize = 256"

record batchResult =
  brVersion :: i64
  brErr :: "goerror option"

record batchRequest =
  brId :: nat
  brCmd :: command

record 'r batchWriter =
  braft :: 'r
  bch :: "batchRequest list"
  bpending :: "batchRequest list"
  bstop :: bool
  bexited :: bool
  bsubmitted :: "batchRequest list"
  banswers :: "(batchRequest \<times> batchResult) list"

type_synonym 'r raft_apply = "'r \<Rightarrow> bytes \<Rightarrow> 'r \<times> goerror option \<times> response"

definition NewBatchWriter :: "'r \<Rightarrow> 'r batchWriter" where
  "NewBatchWriter r = \<lparr>braft = r, bch = [], bpending = [], bstop = False, bexited = False, bsubmitted = [], banswers = []\<rparr>"

text \<open>\<open>Submit\<close> up to the point where it waits for its answer; it blocks while the channel is full.\<close>

definition Submit :: "'r batchWriter \<Rightarrow> batchRequest \<Rightarrow> 'r batchWriter option" where
  "Submit b req = (if length (bch b) < batchMaxSize * 4 then Some (b\<lparr>bch := bch b @ [req], bsubmitted := bsubmitted b @ [req]\<rparr>) else None)"

definition propose ::
  "(command \<Rightarrow> bytes result) \<Rightarrow> 'r raft_apply \<Rightarrow> 'r \<Rightarrow> batchRequest \<Rightarrow> 'r \<times> batchResult" where
  "propose marshal rapply r req =
     (case marshal (brCmd req) of
        Inl e \<Rightarrow> (r, \<lparr>brVersion = 0, brErr = Some e\<rparr>)
      | Inr d \<Rightarrow>
          (case rapply r d of
             (r', Some e, _) \<Rightarrow> (r', \<lparr>brVersion = 0, brErr = Some e\<rparr>)
           | (r', None, ApplyResult v) \<Rightarrow> (r', \<lparr>brVersion = v, brErr = None\<rparr>)
           | (r', None, _) \<Rightarrow> (r', \<lparr>brVersion = 0, brErr = None\<rparr>)))"

fun flush_all ::
  "(command \<Rightarrow> bytes result) \<Rightarrow> 'r raft_apply \<Rightarrow> 'r \<Rightarrow> batchRequest list \<Rightarrow> 'r \<times> (batchRequest \<times> batchResult) list" where
  "flush_all marshal rapply r [] = (r, [])"
| "flush_all marshal rapply r (req # reqs) =
     (case propose marshal rapply r req of (r1, res) \<Rightarrow>
        (case flush_all marshal rapply r1 reqs of (r2, as) \<Rightarrow> (r2, (req, res) # as)))"

definition batch_flush :: "(command \<Rightarrow> bytes result) \<Rightarrow> 'r raft_apply \<Rightarrow> 'r batchWriter \<Rightarrow> 'r batchWriter" where
  "batch_flush marshal rapply b =
     (case flush_all marshal rapply (braft b) (bpending b) of (r, as) \<Rightarrow>
        b\<lparr>braft := r, bpending := [], banswers := banswers b @ as\<rparr>)"

text \<open>The cases of the loop's \<open>select\<close>, and \<open>Stop\<close> (closing \<open>stop\<close> twice panics).\<close>

definition loop_request :: "(command \<Rightarrow> bytes result) \<Rightarrow> 'r raft_apply \<Rightarrow> 'r batchWriter \<Rightarrow> 'r batchWriter" where
  "loop_request marshal rapply b =
     (case bch b of
        [] \<Rightarrow> b
      | req # rest \<Rightarrow>
          let b' = b\<lparr>bch := rest, bpending := bpending b @ [req]\<rparr> in
          if length (bpending b') \<ge> batchMaxSize then batch_flush marshal rapply b' else b')"

definition loop_timer :: "(command \<Rightarrow> bytes result) \<Rightarrow> 'r raft_apply \<Rightarrow> 'r batchWriter \<Rightarrow> 'r batchWriter" where
  "loop_timer marshal rapply b = batch_flush marshal rapply b"

definition loop_stop :: "(command \<Rightarrow> bytes result) \<Rightarrow> 'r raft_apply \<Rightarrow> 'r batchWriter \<Rightarrow> 'r batchWriter" where
  "loop_stop marshal rapply b = (batch_flush marshal rapply b)\<lparr>bexited := True\<rparr>"

definition batch_Stop :: "'r batchWriter \<Rightarrow> 'r batchWriter option" where
  "batch_Stop b = (if bstop b then None else Some (b\<lparr>bstop := True\<rparr>))"

text \<open>\<open>Submit\<close> to its return, when no other client submits meanwhile: the loop takes all queued
  requests, the timer fires, and the answer to the request is the last one. After the loop has
  ended nobody answers.\<close>

definition Submit_wait ::
  "(command \<Rightarrow> bytes result) \<Rightarrow> 'r raft_apply \<Rightarrow> 'r batchWriter \<Rightarrow> command \<Rightarrow> ('r batchWriter \<times> batchResult) option" where
  "Submit_wait marshal rapply b cmd = do {
     b1 \<leftarrow> Submit b \<lparr>brId = length (banswers b) + length (bpending b) + length (bch b), brCmd = cmd\<rparr>;
     (if bexited b then None
      else let b2 = loop_timer marshal rapply ((loop_request marshal rapply ^^ length (bch b1)) b1)
        in Some (b2, snd (last (banswers b2))))
   }"

inductive batch_step :: "(command \<Rightarrow> bytes result) \<Rightarrow> 'r raft_apply \<Rightarrow> 'r batchWriter \<Rightarrow> 'r batchWriter \<Rightarrow> bool"
  for marshal rapply where
  submit: "Submit b req = Some b' \<Longrightarrow> batch_step marshal rapply b b'"
| request: "\<not> bexited b \<Longrightarrow> bch b \<noteq> [] \<Longrightarrow> batch_step marshal rapply b (loop_request marshal rapply b)"
| timer: "\<not> bexited b \<Longrightarrow> batch_step marshal rapply b (loop_timer marshal rapply b)"
| stopping: "\<not> bexited b \<Longrightarrow> bstop b \<Longrightarrow> batch_step marshal rapply b (loop_stop marshal rapply b)"
| stop: "batch_Stop b = Some b' \<Longrightarrow> batch_step marshal rapply b b'"

inductive batch_reach :: "(command \<Rightarrow> bytes result) \<Rightarrow> 'r raft_apply \<Rightarrow> 'r batchWriter \<Rightarrow> 'r batchWriter \<Rightarrow> bool"
  for marshal rapply where
  here: "batch_reach marshal rapply b b"
| extend: "batch_reach marshal rapply b b' \<Longrightarrow> batch_step marshal rapply b' b'' \<Longrightarrow> batch_reach marshal rapply b b''"

text \<open>Where a request can be: answered, collected, or still queued.\<close>

definition accounted :: "'r batchWriter \<Rightarrow> batchRequest list" where
  "accounted b = map fst (banswers b) @ bpending b @ bch b"

text \<open>The invariant of a writer created with Raft in state \<open>r\<close>: the requests are where they belong, in the order
  in which they were submitted, and Raft and the answers are what proposing the answered requests one after
  the other gives.\<close>

definition batch_ok :: "(command \<Rightarrow> bytes result) \<Rightarrow> 'r raft_apply \<Rightarrow> 'r \<Rightarrow> 'r batchWriter \<Rightarrow> bool" where
  "batch_ok marshal rapply r b \<longleftrightarrow> length (bpending b) < batchMaxSize \<and> length (bch b) \<le> batchMaxSize * 4 \<and>
     accounted b = bsubmitted b \<and> flush_all marshal rapply r (map fst (banswers b)) = (braft b, banswers b)"

lemma flush_all_requests: "map fst (snd (flush_all marshal rapply r reqs)) = reqs"
  by (induction reqs arbitrary: r) (auto split: prod.splits, metis snd_conv)

lemma flush_all_append:
  "flush_all marshal rapply r (xs @ ys) =
   (case flush_all marshal rapply r xs of (r1, as) \<Rightarrow> (case flush_all marshal rapply r1 ys of (r2, bs) \<Rightarrow> (r2, as @ bs)))"
  by (induction xs arbitrary: r) (auto split: prod.splits)

lemma batch_flush_fields:
  "bpending (batch_flush marshal rapply b) = []" "bch (batch_flush marshal rapply b) = bch b"
  "bsubmitted (batch_flush marshal rapply b) = bsubmitted b"
  "accounted (batch_flush marshal rapply b) = accounted b" "map fst (banswers (batch_flush marshal rapply b)) = map fst (banswers b) @ bpending b" "bexited (batch_flush marshal rapply b) = bexited b"
  using flush_all_requests [of marshal rapply "braft b" "bpending b"]
  by (auto simp: batch_flush_def accounted_def split: prod.splits)

lemma batch_flush_proposes:
  assumes "flush_all marshal rapply r (map fst (banswers b)) = (braft b, banswers b)"
  shows "flush_all marshal rapply r (map fst (banswers (batch_flush marshal rapply b))) =
    (braft (batch_flush marshal rapply b), banswers (batch_flush marshal rapply b))"
proof -
  obtain r' as where f: "flush_all marshal rapply (braft b) (bpending b) = (r', as)" by fastforce
  then have "map fst as = bpending b" using flush_all_requests [of marshal rapply "braft b" "bpending b"] by simp
  then show ?thesis using assms f by (simp add: batch_flush_def flush_all_append)
qed

lemma batch_ok_flush:
  assumes "flush_all marshal rapply r (map fst (banswers b)) = (braft b, banswers b)" "accounted b = bsubmitted b"
    "length (bch b) \<le> batchMaxSize * 4"
  shows "batch_ok marshal rapply r (batch_flush marshal rapply b)"
  using batch_flush_fields [of marshal rapply b] batch_flush_proposes [OF assms(1)] assms(2,3)
  by (simp add: batch_ok_def batchMaxSize_def)

lemma batch_ok_step:
  assumes "batch_step marshal rapply b b'" "batch_ok marshal rapply r b"
  shows "batch_ok marshal rapply r b'"
  using assms
proof cases
  case (submit req)
  then show ?thesis using assms(2) by (auto simp: Submit_def batch_ok_def accounted_def split: if_splits)
next
  case request
  then obtain req rest where ch: "bch b = req # rest" by (cases "bch b") auto
  let ?b = "b\<lparr>bch := rest, bpending := bpending b @ [req]\<rparr>"
  have "accounted ?b = bsubmitted ?b" using ch assms(2) by (simp add: accounted_def batch_ok_def)
  then show ?thesis
    using request ch assms(2) batch_ok_flush [of marshal rapply r ?b]
    by (auto simp: loop_request_def Let_def batch_ok_def batchMaxSize_def)
next
  case timer
  then show ?thesis using assms(2) batch_ok_flush [of marshal rapply r b] by (simp add: loop_timer_def batch_ok_def)
next
  case stopping
  then show ?thesis
    using assms(2) batch_ok_flush [of marshal rapply r b] by (simp add: loop_stop_def batch_ok_def accounted_def)
next
  case stop
  then show ?thesis using assms(2) by (auto simp: batch_Stop_def batch_ok_def accounted_def split: if_splits)
qed

lemma batch_ok_reach:
  "batch_reach marshal rapply (NewBatchWriter r) b \<Longrightarrow> batch_ok marshal rapply r b"
proof (induction "NewBatchWriter r" b rule: batch_reach.induct)
  case here
  then show ?case by (simp add: NewBatchWriter_def batch_ok_def batchMaxSize_def accounted_def)
qed (blast intro: batch_ok_step)

subsection \<open>One client\<close>

text \<open>What the loop does between two submissions: it moves requests forward, and the new answers and the state of
  Raft are those of proposing the requests one after the other.\<close>

definition served :: "(command \<Rightarrow> bytes result) \<Rightarrow> 'r raft_apply \<Rightarrow> 'r batchWriter \<Rightarrow> 'r batchWriter \<Rightarrow> bool" where
  "served marshal rapply b b' \<longleftrightarrow> accounted b' = accounted b \<and> bexited b' = bexited b \<and>
     (\<exists>as. banswers b' = banswers b @ as \<and> flush_all marshal rapply (braft b) (map fst as) = (braft b', as))"

lemma served_refl: "served marshal rapply b b"
  by (simp add: served_def)

lemma served_trans:
  assumes "served marshal rapply b b'" "served marshal rapply b' b''"
  shows "served marshal rapply b b''"
proof -
  obtain as where as: "banswers b' = banswers b @ as" "flush_all marshal rapply (braft b) (map fst as) = (braft b', as)"
    using assms(1) by (auto simp: served_def)
  obtain bs where bs: "banswers b'' = banswers b' @ bs" "flush_all marshal rapply (braft b') (map fst bs) = (braft b'', bs)"
    using assms(2) by (auto simp: served_def)
  have "banswers b'' = banswers b @ (as @ bs) \<and> flush_all marshal rapply (braft b) (map fst (as @ bs)) = (braft b'', as @ bs)"
    using as bs by (simp add: flush_all_append)
  then show ?thesis using assms unfolding served_def by metis
qed

lemma served_flush: "served marshal rapply b (batch_flush marshal rapply b)"
proof -
  obtain r as where f: "flush_all marshal rapply (braft b) (bpending b) = (r, as)" by fastforce
  then have "map fst as = bpending b" using flush_all_requests [of marshal rapply "braft b" "bpending b"] by simp
  then show ?thesis
    using f batch_flush_fields [of marshal rapply b] by (simp add: served_def batch_flush_def)
qed

lemma served_request:
  "served marshal rapply b (loop_request marshal rapply b) \<and> bch (loop_request marshal rapply b) = tl (bch b)"
proof (cases "bch b")
  case Nil
  then show ?thesis by (simp add: loop_request_def served_refl)
next
  case (Cons req rest)
  let ?b = "b\<lparr>bch := rest, bpending := bpending b @ [req]\<rparr>"
  have "served marshal rapply b ?b" using Cons by (simp add: served_def accounted_def)
  then show ?thesis
    using served_trans [OF _ served_flush, of marshal rapply b ?b] batch_flush_fields(2) [of marshal rapply ?b]
    by (simp add: loop_request_def Cons Let_def)
qed

lemma served_requests:
  "served marshal rapply b ((loop_request marshal rapply ^^ n) b) \<and>
   bch ((loop_request marshal rapply ^^ n) b) = drop n (bch b)"
proof (induction n)
  case (Suc n)
  let ?b = "(loop_request marshal rapply ^^ n) b"
  show ?case using Suc served_request [of marshal rapply ?b] served_trans [of marshal rapply b ?b]
    by (simp add: tl_drop drop_Suc)
qed (simp add: served_refl)

lemma Submit_wait_answer:
  assumes "Submit_wait marshal rapply b cmd = Some (b', res)"
  shows "\<exists>req as s. brCmd req = cmd \<and> banswers b' = banswers b @ as @ [(req, res)] \<and> bpending b' = [] \<and> bch b' = [] \<and>
    propose marshal rapply s req = (braft b', res)"
proof -
  let ?req = "\<lparr>brId = length (banswers b) + length (bpending b) + length (bch b), brCmd = cmd\<rparr>"
  let ?b1 = "b\<lparr>bch := bch b @ [?req], bsubmitted := bsubmitted b @ [?req]\<rparr>"
  let ?b2 = "(loop_request marshal rapply ^^ length (bch ?b1)) ?b1"
  have b': "b' = batch_flush marshal rapply ?b2" "res = snd (last (banswers b'))"
    using assms by (auto simp: Submit_wait_def Submit_def loop_timer_def Let_def split: if_splits)
  have emp: "bpending b' = []" "bch b' = []"
    using served_requests [of marshal rapply ?b1 "length (bch ?b1)"] batch_flush_fields(1,2) [of marshal rapply ?b2]
    by (simp_all add: b'(1))
  have "served marshal rapply ?b1 b'" unfolding b'(1)
    by (rule served_trans [OF _ served_flush]) (rule conjunct1 [OF served_requests])
  then obtain as where as: "accounted b' = accounted ?b1" "banswers b' = banswers b @ as"
      "flush_all marshal rapply (braft b) (map fst as) = (braft b', as)"
    by (auto simp: served_def)
  have "map fst as = bpending b @ bch b @ [?req]" using as(1,2) emp by (simp add: accounted_def)
  then obtain bs q where bs: "as = bs @ [q]" "fst q = ?req" by (cases as rule: rev_cases) auto
  then have q: "q = (?req, res)" using b'(2) as(2) by (cases q) simp
  obtain s cs where "flush_all marshal rapply (braft b) (map fst bs) = (s, cs)" by fastforce
  then have "propose marshal rapply s ?req = (braft b', res)"
    using as(3) bs(1) q by (auto simp: flush_all_append split: prod.splits)
  then show ?thesis using as(2) bs(1) q emp by (intro exI [of _ ?req] exI [of _ bs] exI [of _ s]) simp
qed

lemma Submit_wait_returns:
  "\<not> bexited b \<Longrightarrow> length (bch b) < batchMaxSize * 4 \<Longrightarrow> \<exists>b' res. Submit_wait marshal rapply b cmd = Some (b', res)"
  by (simp add: Submit_wait_def Submit_def Let_def)

subsection \<open>Properties\<close>

text \<open>C20. Commands are proposed in the order in which they were submitted, each once. In every run of the batch
  writer, with any number of clients, the answered requests, then the collected ones, then the queued ones
  are exactly the requests that \<open>Submit\<close> has sent so far, in their order; the state of Raft and all answers
  are those of proposing the answered requests one after the other to the Raft the writer was created
  with; no batch reaches 256 unflushed requests; and a turn of the timer answers all collected ones.\<close>

theorem batch_order:
  assumes "batch_reach marshal rapply (NewBatchWriter r) b"
  shows "bsubmitted b = map fst (banswers b) @ bpending b @ bch b \<and>
    flush_all marshal rapply r (map fst (banswers b)) = (braft b, banswers b) \<and>
    length (bpending b) < batchMaxSize \<and> length (bch b) \<le> batchMaxSize * 4 \<and>
    map fst (banswers (loop_timer marshal rapply b)) = map fst (banswers b) @ bpending b \<and>
    bpending (loop_timer marshal rapply b) = []"
  using batch_ok_reach [OF assms] batch_flush_fields [of marshal rapply b]
  by (auto simp: loop_timer_def batch_ok_def accounted_def)

theorem batch_order_witness:
  "\<exists>b. batch_reach (\<lambda>_. Inr []) (\<lambda>r d. (r + 1, None, ApplyResult 7)) (NewBatchWriter (0 :: nat)) b \<and>
     bsubmitted b = [\<lparr>brId = 0, brCmd = \<lparr>cType = 0, cKey = [1], cValue = [], cTTL = 0\<rparr>\<rparr>] \<and>
     braft b = 1 \<and> banswers b = [(\<lparr>brId = 0, brCmd = \<lparr>cType = 0, cKey = [1], cValue = [], cTTL = 0\<rparr>\<rparr>, \<lparr>brVersion = 7, brErr = None\<rparr>)]"
proof -
  let ?m = "\<lambda>_ :: command. Inr [] :: bytes result" and ?r = "\<lambda>(r :: nat) (d :: bytes). (r + 1, None :: goerror option, ApplyResult 7)"
  let ?q = "\<lparr>brId = 0, brCmd = \<lparr>cType = 0, cKey = [1], cValue = [], cTTL = 0\<rparr>\<rparr>"
  let ?b0 = "NewBatchWriter (0 :: nat)"
  let ?b1 = "?b0\<lparr>bch := [?q], bsubmitted := [?q]\<rparr>"
  let ?b2 = "loop_request ?m ?r ?b1"
  let ?b3 = "loop_timer ?m ?r ?b2"
  have "batch_step ?m ?r ?b0 ?b1"
    by (rule batch_step.submit [of _ ?q]) (simp add: Submit_def NewBatchWriter_def batchMaxSize_def)
  moreover have "batch_step ?m ?r ?b1 ?b2" by (rule batch_step.request) (simp_all add: NewBatchWriter_def)
  moreover have "\<not> bexited ?b2" by (simp add: loop_request_def NewBatchWriter_def batchMaxSize_def)
  then have "batch_step ?m ?r ?b2 ?b3" by (rule batch_step.timer)
  ultimately have reach: "batch_reach ?m ?r ?b0 ?b3" by (meson batch_reach.intros)
  have "bsubmitted ?b3 = [?q]" "bpending ?b3 = []" "bch ?b3 = []"
    by (simp_all add: loop_timer_def batch_flush_fields) (simp_all add: loop_request_def NewBatchWriter_def batchMaxSize_def)
  with batch_order [OF reach] have "map fst (banswers ?b3) = [?q]" "flush_all ?m ?r 0 [?q] = (braft ?b3, banswers ?b3)" by auto
  moreover have "flush_all ?m ?r 0 [?q] = (1, [(?q, \<lparr>brVersion = 7, brErr = None\<rparr>)])" by (simp add: propose_def)
  ultimately have "braft ?b3 = 1" "banswers ?b3 = [(?q, \<lparr>brVersion = 7, brErr = None\<rparr>)]" by simp_all
  then show ?thesis using reach \<open>bsubmitted ?b3 = [?q]\<close> by blast
qed

text \<open>When Raft commits a command and the state machine answers it with an error (the store
  failed, the entry did not decode), the client is told that the write succeeded, with version 0.\<close>

theorem fsm_error_reported_as_success:
  assumes "marshal (brCmd req) = Inr d" "rapply r d = (r', None, RErr e)"
  shows "propose marshal rapply r req = (r', \<lparr>brVersion = 0, brErr = None\<rparr>)"
  using assms by (simp add: propose_def)

text \<open>The Raft of a single node: it commits every proposal at the next index and applies it.\<close>

definition solo_raft :: "(walRecord \<Rightarrow> bytes) \<Rightarrow> (bytes \<Rightarrow> command option) \<Rightarrow> (u64 \<times> fsm) raft_apply" where
  "solo_raft enc cdec = (\<lambda>(i, f) d.
     case fsm_Apply enc cdec (\<lambda>_. 1) f \<lparr>lType = LogCommand, lIndex = i, lData = d\<rparr> of
       Some (f', r) \<Rightarrow> ((i + 1, f'), None, r)
     | None \<Rightarrow> ((i, f), Some (OSError 9), RNil))"

theorem fsm_error_reported_as_success_witness:
  "propose (\<lambda>_. Inr []) (solo_raft (\<lambda>_. []) (\<lambda>_. None)) (1, NewFSM (fresh_engine (\<lambda>_. None) []) NewHub)
     \<lparr>brId = 0, brCmd = \<lparr>cType = 0, cKey = [1], cValue = [2], cTTL = 0\<rparr>\<rparr> =
   ((2, NewFSM (fresh_engine (\<lambda>_. None) []) NewHub), \<lparr>brVersion = 0, brErr = None\<rparr>)"
  by (rule fsm_error_reported_as_success [where d = "[]" and e = UnmarshalFailed]) (simp_all add: solo_raft_def fsm_Apply_def)

text \<open>\<open>Stop\<close> flushes what the loop has collected but does not drain the channel: once the loop has
  returned, a command still queued there is never answered, and its \<open>Submit\<close> never returns.\<close>

theorem stop_abandons_queue:
  assumes "batch_reach marshal rapply b b'" "bexited b"
  shows "banswers b' = banswers b \<and> (\<exists>more. bch b' = bch b @ more)"
proof -
  have "bexited b' \<and> banswers b' = banswers b \<and> (\<exists>more. bch b' = bch b @ more)"
    using assms
  proof (induction rule: batch_reach.induct)
    case (extend b b' b'')
    then have b': "bexited b'" "banswers b' = banswers b" "\<exists>more. bch b' = bch b @ more" by auto
    from extend.hyps(2) b' show ?case
      by (cases rule: batch_step.cases) (auto simp: Submit_def batch_Stop_def split: if_splits)
  qed simp
  then show ?thesis by simp
qed

theorem stop_abandons_queue_witness:
  "\<exists>b. Submit (loop_stop (\<lambda>_. Inr []) (\<lambda>r d. (r, None, RNil)) (NewBatchWriter (0 :: nat)))
       \<lparr>brId = 0, brCmd = \<lparr>cType = 0, cKey = [1], cValue = [], cTTL = 0\<rparr>\<rparr> = Some b \<and> banswers b = []"
proof -
  let ?m = "\<lambda>_ :: command. Inr [] :: bytes result" and ?r = "\<lambda>(r :: nat) (d :: bytes). (r, None :: goerror option, RNil)"
  let ?b = "loop_stop ?m ?r (NewBatchWriter (0 :: nat))" and ?q = "\<lparr>brId = 0, brCmd = \<lparr>cType = 0, cKey = [1], cValue = [], cTTL = 0\<rparr>\<rparr>"
  have e: "bexited ?b" "banswers ?b = []" "bch ?b = []"
    by (simp_all add: loop_stop_def batch_flush_def NewBatchWriter_def)
  obtain b where b: "Submit ?b ?q = Some b" using e(3) by (simp add: Submit_def batchMaxSize_def)
  then have "batch_reach ?m ?r ?b b" by (meson batch_reach.intros batch_step.submit)
  from stop_abandons_queue [OF this e(1)] b e(2) show ?thesis by auto
qed

end
