(* ===== verification/Config.thy ===== *)
theory Config
  imports Prelude
begin

text \<open>
  \<open>internal/config/config.go\<close>: the configuration and \<open>Load\<close>. The viper library is a parameter: the
  outcome of \<open>ReadInConfig\<close> for a path, the value \<open>Get\<close> returns for a key (given the defaults set
  with \<open>SetDefault\<close>), and its conversions. A value is what YAML gives: a scalar, a list or a map.
  \<open>None\<close> is a panic: \<open>Load\<close> asserts the types of a peer's fields.
\<close>

record nodeConfig =
  ncID :: string
  ncAddr :: string

record peerConfig =
  pcID :: string
  pcAddr :: string

record raftConfig =
  rcAddr :: string
  rcDataDir :: string
  rcBootstrapCluster :: bool
  rcPeers :: "peerConfig list"
  rcHeartbeatTimeout :: i64
  rcElectionTimeout :: i64
  rcSnapshotThreshold :: u64

record storageConfig =
  scDataDir :: string
  scMemtableSizeMB :: i64
  scCompactionSecs :: i64

record tlsConfig =
  tcEnabled :: bool
  tcCertFile :: string
  tcKeyFile :: string
  tcCAFile :: string

record grpcConfig =
  gcAddr :: string
  gcTLS :: tlsConfig

record Config =
  cfNode :: nodeConfig
  cfRaft :: raftConfig
  cfStorage :: storageConfig
  cfGRPC :: grpcConfig
  cfHTTP :: string
  cfMetrics :: string

datatype vval = VNil | VString string | VBool bool | VInt i64 | VList "vval list" | VMap "(string \<times> vval) list" | VOther

record viper =
  vReadInConfig :: "string \<Rightarrow> goerror option"
  vGet :: "string \<Rightarrow> (string \<times> vval) list \<Rightarrow> string \<Rightarrow> vval"
  vToString :: "vval \<Rightarrow> string"
  vToBool :: "vval \<Rightarrow> bool"
  vToInt64 :: "vval \<Rightarrow> i64"
  vToInt :: "vval \<Rightarrow> i64"
  vToDuration :: "vval \<Rightarrow> i64"

definition setDefaults :: "(string \<times> vval) list" where
  "setDefaults =
     [(''node.addr'', VString ''0.0.0.0:7000''),
      (''raft.addr'', VString ''0.0.0.0:7001''),
      (''raft.data_dir'', VString ''/data/raft''),
      (''raft.bootstrap'', VBool False),
      (''raft.heartbeat_timeout'', VString ''500ms''),
      (''raft.election_timeout'', VString ''1s''),
      (''raft.snapshot_threshold'', VInt 10000),
      (''storage.data_dir'', VString ''/data/kv''),
      (''storage.memtable_size_mb'', VInt 64),
      (''storage.compaction_interval_secs'', VInt 30),
      (''grpc.addr'', VString ''0.0.0.0:7002''),
      (''http.addr'', VString ''0.0.0.0:7003''),
      (''metrics.addr'', VString ''0.0.0.0:7004'')]"

text \<open>The loop over the peers: an element that is no map is skipped; a missing field, or one that is no
  string, panics.\<close>

definition add_peer :: "peerConfig list \<Rightarrow> vval \<Rightarrow> peerConfig list option" where
  "add_peer acc p =
     (case p of
        VMap pm \<Rightarrow>
          (case (map_of pm ''id'', map_of pm ''addr'') of
             (Some (VString i), Some (VString a)) \<Rightarrow> Some (acc @ [\<lparr>pcID = i, pcAddr = a\<rparr>])
           | _ \<Rightarrow> None)
      | _ \<Rightarrow> Some acc)"

definition read_peers :: "vval \<Rightarrow> peerConfig list option" where
  "read_peers peersRaw = (case peersRaw of VList peers \<Rightarrow> foldM add_peer [] peers | _ \<Rightarrow> Some [])"

definition Load :: "viper \<Rightarrow> string \<Rightarrow> Config result option" where
  "Load v path =
     (case vReadInConfig v path of
        Some err \<Rightarrow> Some (Inl err)
      | None \<Rightarrow>
          let get = vGet v path setDefaults; GetString = \<lambda>k. vToString v (get k) in do {
            peers \<leftarrow> read_peers (get ''raft.peers'');
            Some (Inr
              \<lparr>cfNode = \<lparr>ncID = GetString ''node.id'', ncAddr = GetString ''node.addr''\<rparr>,
               cfRaft = \<lparr>rcAddr = GetString ''raft.addr'', rcDataDir = GetString ''raft.data_dir'',
                 rcBootstrapCluster = vToBool v (get ''raft.bootstrap''), rcPeers = peers,
                 rcHeartbeatTimeout = vToDuration v (get ''raft.heartbeat_timeout''),
                 rcElectionTimeout = vToDuration v (get ''raft.election_timeout''),
                 rcSnapshotThreshold = vToInt64 v (get ''raft.snapshot_threshold'')\<rparr>,
               cfStorage = \<lparr>scDataDir = GetString ''storage.data_dir'',
                 scMemtableSizeMB = vToInt64 v (get ''storage.memtable_size_mb''),
                 scCompactionSecs = vToInt v (get ''storage.compaction_interval_secs'')\<rparr>,
               cfGRPC = \<lparr>gcAddr = GetString ''grpc.addr'',
                 gcTLS = \<lparr>tcEnabled = vToBool v (get ''grpc.tls.enabled''), tcCertFile = GetString ''grpc.tls.cert_file'',
                   tcKeyFile = GetString ''grpc.tls.key_file'', tcCAFile = GetString ''grpc.tls.ca_file''\<rparr>\<rparr>,
               cfHTTP = GetString ''http.addr'', cfMetrics = GetString ''metrics.addr''\<rparr>)
          })"

subsection \<open>Peers\<close>

fun peer_of :: "vval \<Rightarrow> peerConfig option" where
  "peer_of (VMap pm) =
     (case (map_of pm ''id'', map_of pm ''addr'') of
        (Some (VString i), Some (VString a)) \<Rightarrow> Some \<lparr>pcID = i, pcAddr = a\<rparr>
      | _ \<Rightarrow> None)"
| "peer_of _ = None"

definition bad_peer :: "vval \<Rightarrow> bool" where
  "bad_peer p \<longleftrightarrow> (\<exists>pm. p = VMap pm) \<and> peer_of p = None"

lemma add_peer_eq: "add_peer acc p = (if bad_peer p then None else Some (acc @ (case peer_of p of None \<Rightarrow> [] | Some pc \<Rightarrow> [pc])))"
  by (cases p) (auto simp: add_peer_def bad_peer_def split: option.splits vval.splits)

lemma foldM_add_peer:
  "foldM add_peer acc ps = (if \<exists>p\<in>set ps. bad_peer p then None else Some (acc @ List.map_filter peer_of ps))"
  by (induction ps arbitrary: acc) (auto simp: add_peer_eq map_filter_simps split: option.splits)

subsection \<open>Properties\<close>

text \<open>\<open>Load\<close> panics exactly when the file can be read and its list of peers has a map without a
  string \<open>id\<close> or a string \<open>addr\<close>; it does not return an error for it. Otherwise it returns the
  error of reading, or a configuration whose peers are the maps of that list, in order.\<close>

theorem load_peers:
  "case vReadInConfig v path of
     Some err \<Rightarrow> Load v path = Some (Inl err)
   | None \<Rightarrow> (case vGet v path setDefaults ''raft.peers'' of
         VList ps \<Rightarrow> if \<exists>p\<in>set ps. bad_peer p then Load v path = None
           else \<exists>cfg. Load v path = Some (Inr cfg) \<and> rcPeers (cfRaft cfg) = List.map_filter peer_of ps
       | _ \<Rightarrow> \<exists>cfg. Load v path = Some (Inr cfg) \<and> rcPeers (cfRaft cfg) = [])"
  by (simp add: Load_def read_peers_def foldM_add_peer Let_def split: option.split vval.split)

end
