(* ===== verification/Node.thy ===== *)
theory Node
  imports Batch Config
begin

text \<open>
  \<open>internal/consensus/node.go\<close>: the node around Raft. Of Raft itself the handlers see its state,
  the leader's address, the applied index, its statistics and its configuration, which are fields of
  the record; its log is behind the batch writer.
\<close>

datatype raftState = Follower | Candidate | Leader | Shutdown

definition state_String :: "raftState \<Rightarrow> string" where
  "state_String s = (case s of Follower \<Rightarrow> ''Follower'' | Candidate \<Rightarrow> ''Candidate'' | Leader \<Rightarrow> ''Leader'' | Shutdown \<Rightarrow> ''Shutdown'')"

record server =
  svID :: string
  svAddress :: string

record 'r node =
  nID :: string
  nState :: raftState
  nLeader :: string
  nApplied :: u64
  nStats :: "(string \<times> string) list"
  nServers :: "server list"
  nFSM :: fsm
  nBatch :: "'r batchWriter"
  nConfig :: Config

text \<open>The servers of the bootstrap configuration: the node itself, then its peers in order.\<close>

definition bootstrap_servers :: "string \<Rightarrow> string \<Rightarrow> peerConfig list \<Rightarrow> server list" where
  "bootstrap_servers localID localAddr peers =
     foldl (\<lambda>servers peer. servers @ [\<lparr>svID = pcID peer, svAddress = pcAddr peer\<rparr>])
       [\<lparr>svID = localID, svAddress = localAddr\<rparr>] peers"

text \<open>\<open>NewNode\<close>. The calls into the operating system, BoltDB and Raft are arguments: \<open>calls\<close> gives the
  error of each fallible step by the text the code wraps it in, \<open>raft\<close> the new Raft instance,
  \<open>boot\<close> its \<open>BootstrapCluster\<close>, and \<open>see\<close> what it shows of itself.\<close>

datatype bootOutcome = BootOk | ErrCantBootstrap | BootFailed goerror

record raftView =
  vwState :: raftState
  vwLeader :: string
  vwApplied :: u64
  vwStats :: "(string \<times> string) list"
  vwServers :: "server list"

record raftSettings =
  rsLocalID :: string
  rsHeartbeatTimeout :: i64
  rsElectionTimeout :: i64
  rsSnapshotThreshold :: u64

definition raft_settings :: "Config \<Rightarrow> raftSettings" where
  "raft_settings cfg = \<lparr>rsLocalID = ncID (cfNode cfg), rsHeartbeatTimeout = rcHeartbeatTimeout (cfRaft cfg),
     rsElectionTimeout = rcElectionTimeout (cfRaft cfg), rsSnapshotThreshold = rcSnapshotThreshold (cfRaft cfg)\<rparr>"

fun run_calls :: "(string \<Rightarrow> goerror option) \<Rightarrow> string list \<Rightarrow> (string \<times> goerror) option" where
  "run_calls calls [] = None"
| "run_calls calls (s # ss) = (case calls s of Some e \<Rightarrow> Some (s, e) | None \<Rightarrow> run_calls calls ss)"

definition new_calls :: "string list" where
  "new_calls = [''raft datadir'', ''raft boltdb'', ''raft snapshots'', ''raft addr'', ''raft transport'', ''raft new'']"

definition NewNode ::
  "(string \<Rightarrow> goerror option) \<Rightarrow> (raftSettings \<Rightarrow> fsm \<Rightarrow> 'r) \<Rightarrow> ('r \<Rightarrow> server list \<Rightarrow> 'r \<times> bootOutcome) \<Rightarrow> ('r \<Rightarrow> raftView) \<Rightarrow>
   string \<Rightarrow> Config \<Rightarrow> engine \<Rightarrow> hub \<Rightarrow> (string \<times> goerror) + 'r node" where
  "NewNode calls raft boot see localAddr cfg store hub =
     (case run_calls calls new_calls of
        Some e \<Rightarrow> Inl e
      | None \<Rightarrow>
          let f = NewFSM store hub; r = raft (raft_settings cfg) f;
              (r', out) = (if rcBootstrapCluster (cfRaft cfg)
                 then boot r (bootstrap_servers (ncID (cfNode cfg)) localAddr (rcPeers (cfRaft cfg))) else (r, BootOk))
          in (case out of
                BootFailed e \<Rightarrow> Inl (''raft bootstrap'', e)
              | _ \<Rightarrow> Inr \<lparr>nID = ncID (cfNode cfg), nState = vwState (see r'), nLeader = vwLeader (see r'), nApplied = vwApplied (see r'),
                  nStats = vwStats (see r'), nServers = vwServers (see r'), nFSM = f, nBatch = NewBatchWriter r', nConfig = cfg\<rparr>))"

definition IsLeader :: "'r node \<Rightarrow> bool" where
  "IsLeader n \<longleftrightarrow> nState n = Leader"

definition LeaderAddr :: "'r node \<Rightarrow> string" where
  "LeaderAddr n = nLeader n"

text \<open>\<open>AddVoter\<close> and \<open>AddLearner\<close> ask Raft to change its configuration, with no previous index and a
  timeout of ten seconds, and return the error of the future. \<open>add voter sv prev timeout\<close> is Raft's answer.\<close>

definition AddVoter :: "(bool \<Rightarrow> server \<Rightarrow> u64 \<Rightarrow> nat \<Rightarrow> goerror option) \<Rightarrow> string \<Rightarrow> string \<Rightarrow> goerror option" where
  "AddVoter add i addr = add True \<lparr>svID = i, svAddress = addr\<rparr> 0 10"

definition AddLearner :: "(bool \<Rightarrow> server \<Rightarrow> u64 \<Rightarrow> nat \<Rightarrow> goerror option) \<Rightarrow> string \<Rightarrow> string \<Rightarrow> goerror option" where
  "AddLearner add i addr = add False \<lparr>svID = i, svAddress = addr\<rparr> 0 10"

definition Stats :: "'r node \<Rightarrow> (string \<times> string) list" where
  "Stats n = nStats n"

text \<open>A Go map of strings: a missing key gives the empty string.\<close>

definition map_get :: "(string \<times> string) list \<Rightarrow> string \<Rightarrow> string" where
  "map_get m k = (case map_of m k of None \<Rightarrow> '''' | Some v \<Rightarrow> v)"

text \<open>\<open>Shutdown\<close> stops the batch writer, waits for its loop, then shuts Raft down with the outcome
  \<open>rerr\<close>.\<close>

definition node_Shutdown ::
  "(command \<Rightarrow> bytes result) \<Rightarrow> 'r raft_apply \<Rightarrow> goerror option \<Rightarrow> 'r node \<Rightarrow> ('r node \<times> goerror option) option" where
  "node_Shutdown marshal rapply rerr n = do {
     b \<leftarrow> batch_Stop (nBatch n);
     Some (n\<lparr>nBatch := loop_stop marshal rapply b, nState := Shutdown\<rparr>, rerr)
   }"

lemma bootstrap_servers_eq:
  "bootstrap_servers i a peers = \<lparr>svID = i, svAddress = a\<rparr> # map (\<lambda>p. \<lparr>svID = pcID p, svAddress = pcAddr p\<rparr>) peers"
proof -
  have "foldl (\<lambda>servers peer. servers @ [\<lparr>svID = pcID peer, svAddress = pcAddr peer\<rparr>]) ss peers =
      ss @ map (\<lambda>p. \<lparr>svID = pcID p, svAddress = pcAddr p\<rparr>) peers" for ss
    by (induction peers arbitrary: ss) auto
  then show ?thesis by (simp add: bootstrap_servers_def)
qed

text \<open>Shutting down answers every command the batch writer has collected, in order, and none of those
  still in its channel.\<close>

lemma Shutdown_answers:
  assumes "node_Shutdown marshal rapply rerr n = Some (n', err)"
  shows "map fst (banswers (nBatch n')) = map fst (banswers (nBatch n)) @ bpending (nBatch n) \<and>
    bch (nBatch n') = bch (nBatch n) \<and> bexited (nBatch n')"
proof -
  let ?b = "(nBatch n)\<lparr>bstop := True\<rparr>"
  have n': "nBatch n' = loop_stop marshal rapply ?b"
    using assms by (auto simp: node_Shutdown_def batch_Stop_def split: if_splits)
  have "accounted (batch_flush marshal rapply ?b) = accounted ?b" by (rule batch_flush_fields)
  then show ?thesis using batch_flush_fields(1,2) [of marshal rapply ?b]
    by (simp add: n' loop_stop_def accounted_def)
qed

subsection \<open>Properties\<close>

text \<open>\<open>NewNode\<close> returns a node exactly when every call before it succeeds and the bootstrap, if the
  configuration asks for it, does not fail; that the cluster exists already is no failure. Raft is then
  bootstrapped with the node itself followed by the configured peers, in order, the state machine starts
  on the given store and hub, and the batch writer has nothing to answer.\<close>

theorem new_node:
  "(\<exists>n. NewNode calls raft boot see addr cfg store hub = Inr n \<and>
      nID n = ncID (cfNode cfg) \<and> nFSM n = NewFSM store hub \<and> accounted (nBatch n) = [] \<and> nConfig n = cfg) \<longleftrightarrow>
   run_calls calls new_calls = None \<and>
   (if rcBootstrapCluster (cfRaft cfg)
    then \<forall>e. snd (boot (raft (raft_settings cfg) (NewFSM store hub))
      (\<lparr>svID = ncID (cfNode cfg), svAddress = addr\<rparr> # map (\<lambda>p. \<lparr>svID = pcID p, svAddress = pcAddr p\<rparr>) (rcPeers (cfRaft cfg)))) \<noteq> BootFailed e
    else True)"
  by (auto simp: NewNode_def bootstrap_servers_eq Let_def NewBatchWriter_def accounted_def
      split: option.splits prod.splits bootOutcome.splits)

end
