(* ===== verification/EngineRuns.thy ===== *)
theory EngineRuns
  imports Engine
begin

text \<open>
  Runs of the engine. The writer (the Raft FSM), the flush goroutine and the compaction goroutine
  interleave. A step is one write, one of the three parts of \<open>flush\<close>, or one of the two parts of
  \<open>compact\<close> (the tables are listed and merged; the result is swapped in and the merged files are removed),
  so that a flush can register a table between the two. No step has a condition that the code does not
  check: flushes follow failed flushes, compactions merge whatever the sizes select, writes fail.

  The configuration adds to the engine the program counters of the two goroutines and a history that no
  step reads: the writes the log held when the engine was opened, the writes acknowledged since, all writes
  handed to the log since, whether none of them failed (\<open>cclean\<close>), and whether the goroutines have only
  done what preserves reads (\<open>csound\<close>). A run is sound as long as

  \<^item> no flush has begun while the memtable of a failed flush was still waiting,
  \<^item> every flushed memtable fits the table format, and the names that flushes and compactions took from the
    clock were not names of listed tables (\<open>flush_safe\<close>),
  \<^item> every compaction, at the moment of its swap, found the tables in version order and a harmless tier
    (\<open>swap_safe\<close>, \<open>tier_ok\<close>): the merged tables quiet, no other listed table with a key of theirs, the
    result in the format.

  \<open>Compaction\<close> and \<open>Engine\<close> show what goes wrong otherwise. The invariant says that in a sound run the
  layers together show exactly what the history wrote last, whatever part of it has moved from the memtable to
  which table. Versions need not increase: after a restart Raft applies entries again that the log already
  held. Where they do increase, the layers are in version order (\<open>ordered_at\<close>), and so are the tables.
\<close>

datatype fpc = Idle | Writing | Registered | Failed

record config =
  ceng :: engine
  cpc :: fpc
  cplan :: "(sst_path list \<times> sst_path) option"
  cbase :: "mem_op list"
  chist :: "mem_op list"
  clogged :: "mem_op list"
  cclean :: bool
  csound :: bool

fun op_ver :: "mem_op \<Rightarrow> i64" where
  "op_ver (MPut k v ver) = ver"
| "op_ver (MDel k ver) = ver"

definition history :: "config \<Rightarrow> mem_op list" where
  "history c = cbase c @ chist c"

text \<open>The versions of a history: in a history without repetitions they are increasing Raft indices.\<close>

definition increasing :: "mem_op list \<Rightarrow> bool" where
  "increasing ops \<longleftrightarrow> sorted_wrt (\<lambda>o1 o2. sint (op_ver o1) < sint (op_ver o2)) ops"

abbreviation listed :: "engine \<Rightarrow> sst_path list" where
  "listed e \<equiv> ctables (ecompact e)"

definition flush_safe :: "engine \<Rightarrow> i64 \<Rightarrow> bool" where
  "flush_safe e now \<longleftrightarrow> sst_fits (imm_entries e) \<and> Flushed now \<notin> set (listed e)"

definition swap_safe :: "engine \<Rightarrow> sst_path list \<Rightarrow> bool" where
  "swap_safe e tier \<longleftrightarrow> (\<exists>tab. eng_ok e tab \<and> fresher tab (listed e) \<and> tier_ok tab (listed e) tier)"

inductive bg_step :: "size_sort \<Rightarrow> config \<Rightarrow> config \<Rightarrow> bool" for srt where
  begin_flush: "cpc c = Idle \<or> cpc c = Failed \<Longrightarrow> flush_begin (ceng c) = (b, e') \<Longrightarrow>
     bg_step srt c (c\<lparr>ceng := e', cpc := (if b then Writing else cpc c),
       csound := (csound c \<and> (b \<longrightarrow> eimmutable (ceng c) = None))\<rparr>)"
| write_flush: "cpc c = Writing \<Longrightarrow> flush_write io now (ceng c) = Some (e', err) \<Longrightarrow>
     bg_step srt c (c\<lparr>ceng := e', cpc := (if err = None then Registered else Failed),
       csound := (csound c \<and> flush_safe (ceng c) now)\<rparr>)"
| clear_flush: "cpc c = Registered \<Longrightarrow> bg_step srt c (c\<lparr>ceng := flush_clear (ceng c), cpc := Idle\<rparr>)"
| plan_compaction: "cplan c = None \<Longrightarrow>
     compact_plan srt (efs (ceng c)) io now (Tables (ecompact (ceng c))) = Some (fs', res) \<Longrightarrow>
     bg_step srt c (c\<lparr>ceng := (ceng c)\<lparr>efs := fs'\<rparr>, cplan := (case res of Inl _ \<Rightarrow> None | Inr p \<Rightarrow> p),
       csound := (csound c \<and> Compacted now \<notin> set (listed (ceng c)))\<rparr>)"
| swap_compaction: "cplan c = Some (tier, out) \<Longrightarrow>
     bg_step srt c (c\<lparr>ceng := (ceng c)\<lparr>ecompact := compact_swap (ecompact (ceng c)) tier out, efs := remove_files (efs (ceng c)) tier\<rparr>,
       cplan := None, csound := (csound c \<and> swap_safe (ceng c) tier)\<rparr>)"

inductive eng_step :: "(walRecord \<Rightarrow> bytes) \<Rightarrow> size_sort \<Rightarrow> config \<Rightarrow> config \<Rightarrow> bool"
  for enc srt where
  write_ok: "eng_apply enc draw (ceng c) op = Some (e', None) \<Longrightarrow>
     eng_step enc srt c (c\<lparr>ceng := e', chist := chist c @ [op], clogged := clogged c @ [op]\<rparr>)"
| write_err: "eng_apply enc draw (ceng c) op = Some (e', Some x) \<Longrightarrow>
     eng_step enc srt c (c\<lparr>ceng := e', clogged := clogged c @ [op], cclean := False\<rparr>)"
| background: "bg_step srt c c' \<Longrightarrow> eng_step enc srt c c'"

inductive eng_reach :: "(walRecord \<Rightarrow> bytes) \<Rightarrow> size_sort \<Rightarrow> config \<Rightarrow> config \<Rightarrow> bool"
  for enc srt where
  here: "eng_reach enc srt c c"
| extend: "eng_reach enc srt c c' \<Longrightarrow> eng_step enc srt c' c'' \<Longrightarrow> eng_reach enc srt c c''"

definition opened :: "mem_op list \<Rightarrow> engine \<Rightarrow> config" where
  "opened ops e = \<lparr>ceng = e, cpc = Idle, cplan = None, cbase = ops, chist = [], clogged = [], cclean = True, csound = True\<rparr>"

definition start :: "(bytes \<Rightarrow> walRecord option) \<Rightarrow> bytes \<Rightarrow> engine \<Rightarrow> config" where
  "start dec f e = opened (log_ops dec f) e"

lemma opened_simps [simp]:
  "ceng (opened ops e) = e" "cpc (opened ops e) = Idle" "cplan (opened ops e) = None" "cbase (opened ops e) = ops" "chist (opened ops e) = []"
  "clogged (opened ops e) = []" "cclean (opened ops e)" "csound (opened ops e)" "history (opened ops e) = ops"
  by (simp_all add: opened_def history_def)

lemma bg_step_keeps:
  assumes "bg_step srt c c'"
  shows "cbase c' = cbase c \<and> chist c' = chist c \<and> clogged c' = clogged c \<and> cclean c' = cclean c \<and> (csound c' \<longrightarrow> csound c) \<and>
    ewal (ceng c') = ewal (ceng c)"
  using assms
proof cases
  case (write_flush io now e' err)
  then show ?thesis using flush_write_frame [of io now "ceng c" e' err] by simp
qed (auto simp: flush_begin_def flush_clear_def split: if_splits)

lemma eng_step_keeps:
  assumes "eng_step enc srt c c'"
  shows "cbase c' = cbase c \<and> (csound c' \<longrightarrow> csound c) \<and> (cclean c' \<longrightarrow> cclean c)"
  using assms bg_step_keeps by cases auto

subsection \<open>The invariant\<close>

definition newer :: "entry list \<Rightarrow> entry list \<Rightarrow> bool" where
  "newer xs ys \<longleftrightarrow> (\<forall>e\<in>set xs. \<forall>e'\<in>set ys. Key e = Key e' \<longrightarrow> sint (Version e') < sint (Version e))"

definition shadows :: "entry list \<Rightarrow> entry list \<Rightarrow> bool" where
  "shadows xs ys \<longleftrightarrow> (\<forall>k e. find_key k xs = Some e \<longrightarrow> visible ys k = (if Deleted e then None else Some e))"

definition bounded :: "mem_op list \<Rightarrow> entry list \<Rightarrow> bool" where
  "bounded ops es \<longleftrightarrow> (\<forall>e\<in>set es. \<exists>op\<in>set ops. sint (Version e) \<le> sint (op_ver op))"

text \<open>A planned compaction has left the merge of its tier in a file that is not listed.\<close>

definition plan_ok :: "config \<Rightarrow> (sst_path \<Rightarrow> entry list) \<Rightarrow> bool" where
  "plan_ok c tab \<longleftrightarrow> (\<forall>tier out. cplan c = Some (tier, out) \<longrightarrow> set tier \<subseteq> set (listed (ceng c)) \<and> out \<notin> set (listed (ceng c)) \<and>
     (\<exists>now. out = Compacted now) \<and> efs (ceng c) out = Some (sst_bytes (merged_entries (scanned_all tab tier))))"

definition inv_at :: "config \<Rightarrow> (sst_path \<Rightarrow> entry list) \<Rightarrow> bool" where
  "inv_at c tab \<longleftrightarrow> (let e = ceng c in
     eng_ok e tab \<and> plan_ok c tab \<and> (\<forall>k. visible (layers e tab) k = last_write (history c) k) \<and>
     (cpc c = Idle \<longleftrightarrow> eimmutable e = None) \<and> (cpc c = Registered \<longrightarrow> shadows (imm_entries e) (table_entries e tab)))"

definition ordered_at :: "config \<Rightarrow> (sst_path \<Rightarrow> entry list) \<Rightarrow> bool" where
  "ordered_at c tab \<longleftrightarrow> (let e = ceng c; imm = imm_entries e; tabs = table_entries e tab in
     bounded (history c) (layers e tab) \<and> newer (contents (ememtable e)) (imm @ tabs) \<and> fresher tab (listed e) \<and>
     (cpc c \<in> {Writing, Failed} \<longrightarrow> newer imm tabs))"

definition eng_inv :: "config \<Rightarrow> bool" where
  "eng_inv c \<longleftrightarrow> (csound c \<longrightarrow> (\<exists>tab. inv_at c tab \<and> (increasing (history c) \<longrightarrow> ordered_at c tab)))"

lemma inv_at_ok: "inv_at c tab \<Longrightarrow> eng_ok (ceng c) tab"
  by (simp add: inv_at_def Let_def)

lemma plan_ok_cong:
  assumes "plan_ok c tab" "cplan c' = cplan c" "listed (ceng c') = listed (ceng c)" "efs (ceng c') = efs (ceng c)"
  shows "plan_ok c' tab"
  using assms unfolding plan_ok_def by simp

lemma scanned_all_cong: "(\<And>p. p \<in> set ps \<Longrightarrow> tab p = tab' p) \<Longrightarrow> scanned_all tab ps = scanned_all tab' ps"
  by (simp add: scanned_all_def cong: map_cong)

lemma newer_mono: "newer xs ys \<Longrightarrow> set ys' \<subseteq> set ys \<Longrightarrow> newer xs ys'"
  by (auto simp: newer_def)

lemma bounded_mono: "bounded ops es \<Longrightarrow> set es' \<subseteq> set es \<Longrightarrow> set ops \<subseteq> set ops' \<Longrightarrow> bounded ops' es'"
  unfolding bounded_def by blast

lemma set_apply_op: "x \<in> set (apply_op op es) \<Longrightarrow> x \<in> set es \<or> Version x = op_ver op"
  using set_upsert by (cases op) (fastforce simp: entomb_def)+

lemma visible_append_cong: "(\<And>k. visible ys k = visible zs k) \<Longrightarrow> visible (xs @ ys) k = visible (xs @ zs) k"
  by (simp add: visible_append split: option.split)

lemma visible_shadowed: "shadows xs ys \<Longrightarrow> visible (xs @ ys) k = visible ys k"
  by (auto simp: visible_append shadows_def split: option.split)

lemma fresher_Cons_iff: "fresher tab (p # ps) \<longleftrightarrow> newer (tab p) (concat (map tab ps)) \<and> fresher tab ps"
  by (auto simp: fresher_def newer_def)

text \<open>What an engine holds in its table files is determined by the files.\<close>

lemma eng_ok_unique: "eng_ok e tab \<Longrightarrow> eng_ok e tab' \<Longrightarrow> p \<in> set (listed e) \<Longrightarrow> tab p = tab' p"
  using holds_table_unique by (auto simp: eng_ok_def)

lemma swap_safe_iff:
  assumes "eng_ok e tab" "set tier \<subseteq> set (listed e)"
  shows "swap_safe e tier \<longleftrightarrow> fresher tab (listed e) \<and> tier_ok tab (listed e) tier"
proof -
  have "fresher tab' (listed e) = fresher tab (listed e) \<and> tier_ok tab' (listed e) tier = tier_ok tab (listed e) tier" if "eng_ok e tab'" for tab'
    using fresher_cong [of "listed e" tab' tab] tier_ok_cong [of "listed e" tab' tab tier] eng_ok_unique [OF that assms(1)] assms(2) by blast
  then show ?thesis using assms(1) unfolding swap_safe_def by blast
qed

text \<open>An engine without tables whose memtable holds the effect of the writes.\<close>

lemma inv_opened:
  assumes "eng_ok e tab" "contents (ememtable e) = fold apply_op ops []" "eimmutable e = None" "listed e = []"
  shows "eng_inv (opened ops e)"
proof -
  have "bounded ops (fold apply_op ops [])" for ops
  proof (induction ops rule: rev_induct)
    case (snoc op ops)
    then show ?case using set_apply_op [of _ op "fold apply_op ops []"] by (fastforce simp: bounded_def)
  qed (simp add: bounded_def)
  then have "inv_at (opened ops e) tab \<and> ordered_at (opened ops e) tab"
    using assms by (simp add: inv_at_def ordered_at_def plan_ok_def Let_def visible_fold fresher_def newer_def layers_def imm_entries_def table_entries_def)
  then show ?thesis by (auto simp: eng_inv_def)
qed

lemma inv_start:
  assumes "eng_Open dec draws None script (Some f) tabs mb = Some (Inr e)"
  shows "eng_inv (start dec f e)"
  unfolding start_def using eng_Open_ok [of dec draws script f tabs mb] assms by (auto intro: inv_opened)

lemma inv_write_ok:
  assumes inv: "inv_at c tab" and run: "eng_apply enc draw (ceng c) op = Some (e', None)"
  defines "c' \<equiv> c\<lparr>ceng := e', chist := chist c @ [op], clogged := clogged c @ [op]\<rparr>"
  shows "inv_at c' tab" "ordered_at c tab \<Longrightarrow> increasing (history c @ [op]) \<Longrightarrow> ordered_at c' tab"
proof -
  let ?e = "ceng c"
  let ?mem = "contents (ememtable ?e)" and ?rest = "imm_entries ?e @ table_entries ?e tab"
  have i: "eng_ok ?e tab" "plan_ok c tab" "\<And>k. visible (layers ?e tab) k = last_write (history c) k"
    using inv by (simp_all add: inv_at_def Let_def)
  from eng_apply_spec [OF i(1) run] have s: "eng_ok e' tab" "eimmutable e' = eimmutable ?e" "ecompact e' = ecompact ?e"
      "efs e' = efs ?e" "contents (ememtable e') = apply_op op ?mem" by auto
  then have rest: "imm_entries e' = imm_entries ?e" "table_entries e' tab = table_entries ?e tab"
    by (simp_all add: imm_entries_def table_entries_def)
  have "plan_ok c' tab" using plan_ok_cong [OF i(2)] s by (simp add: c'_def)
  moreover have "visible (layers e' tab) k = last_write (history c @ [op]) k" for k
    using i(3) [of k] visible_apply_op [of op ?mem ?rest k]
    by (cases op) (auto simp: layers_def s(5) rest)
  ultimately show "inv_at c' tab"
    using inv s by (simp add: inv_at_def Let_def history_def rest c'_def)
  assume o: "ordered_at c tab" "increasing (history c @ [op])"
  then have b: "bounded (history c) (layers ?e tab)" "newer ?mem ?rest" by (simp_all add: ordered_at_def Let_def)
  have new: "sint (Version e2) < sint (op_ver op)" if "e2 \<in> set (layers ?e tab)" for e2
    using that b(1) o(2) by (fastforce simp: bounded_def increasing_def sorted_wrt_append)
  have "newer (apply_op op ?mem) ?rest"
    using b(2) new set_apply_op [of _ op ?mem] by (fastforce simp: newer_def layers_def)
  moreover have "bounded (history c @ [op]) (layers e' tab)"
    using b(1) set_apply_op [of _ op ?mem] by (fastforce simp: bounded_def layers_def s(5) rest)
  ultimately show "ordered_at c' tab"
    using o(1) s by (simp add: ordered_at_def Let_def history_def rest c'_def)
qed

lemma inv_begin_flush:
  fixes s :: bool
  assumes inv: "inv_at c tab" and pc: "cpc c = Idle \<or> cpc c = Failed" and run: "flush_begin (ceng c) = (b, e')"
    and free: "b \<longrightarrow> eimmutable (ceng c) = None"
  defines "c' \<equiv> c\<lparr>ceng := e', cpc := (if b then Writing else cpc c), csound := s\<rparr>"
  shows "inv_at c' tab" "ordered_at c tab \<Longrightarrow> ordered_at c' tab"
proof -
  have i: "eng_ok (ceng c) tab" "plan_ok c tab" "cpc c = Idle \<longleftrightarrow> eimmutable (ceng c) = None" using inv by (auto simp: inv_at_def Let_def)
  have idle: "\<not> b \<Longrightarrow> e' = ceng c" using run by (auto simp: flush_begin_def split: if_splits)
  have begun: "layers e' tab = layers (ceng c) tab \<and> eng_ok e' tab \<and> (\<exists>m. eimmutable e' = Some m \<and> contents m = contents (ememtable (ceng c)) \<and>
      contents (ememtable e') = []) \<and> ecompact e' = ecompact (ceng c) \<and> efs e' = efs (ceng c)" if b
    using flush_begin_ok [OF i(1) _ run] that free by auto
  have "ecompact e' = ecompact (ceng c)" "efs e' = efs (ceng c)"
    using run by (auto simp: flush_begin_def split: if_splits)
  then have "plan_ok c' tab" by (intro plan_ok_cong [OF i(2)]) (simp_all add: c'_def)
  then show "inv_at c' tab"
    using inv i begun by (cases b) (auto simp: inv_at_def Let_def history_def c'_def idle)
  show "ordered_at c' tab" if "ordered_at c tab"
  proof (cases b)
    case True
    then have "eimmutable (ceng c) = None" using free by simp
    then show ?thesis using that begun [OF True] True
      by (auto simp: ordered_at_def Let_def history_def newer_def imm_entries_def table_entries_def c'_def)
  qed (use that in \<open>simp add: ordered_at_def Let_def history_def c'_def idle\<close>)
qed

lemma inv_write_flush:
  fixes s :: bool
  assumes inv: "inv_at c tab" and pc: "cpc c = Writing" and safe: "flush_safe (ceng c) now"
    and run: "flush_write io now (ceng c) = Some (e', err)"
  defines "c' \<equiv> c\<lparr>ceng := e', cpc := (if err = None then Registered else Failed), csound := s\<rparr>"
  shows "\<exists>tab'. inv_at c' tab' \<and> (ordered_at c tab \<longrightarrow> ordered_at c' tab')"
proof -
  let ?e = "ceng c"
  have ok: "eng_ok ?e tab" "plan_ok c tab" using inv by (simp_all add: inv_at_def Let_def)
  obtain m where m: "eimmutable ?e = Some m" using inv pc by (auto simp: inv_at_def Let_def)
  let ?tab = "tab(Flushed now := contents m)"
  have new: "Flushed now \<notin> set (listed ?e)" "sst_fits (contents m)" using safe m by (simp_all add: flush_safe_def imm_entries_def)
  note w = flush_write_ok [OF ok(1) m new(2,1) run]
  note frame = conjunct2 [OF flush_write_frame [OF run]]
  have imm: "imm_entries e' = contents m" "imm_entries ?e = contents m" using w m by (simp_all add: imm_entries_def)
  show ?thesis
  proof (cases err)
    case (Some x)
    have t: "table_entries e' tab = table_entries ?e tab" "layers e' tab = layers ?e tab"
      using w imm Some by (auto simp: layers_def table_entries_def)
    have "plan_ok c' tab" using ok(2) w Some frame unfolding plan_ok_def c'_def by fastforce
    then show ?thesis
      using inv w Some pc imm t by (intro exI [of _ tab]) (simp add: inv_at_def ordered_at_def Let_def history_def c'_def)
  next
    case None
    have t: "table_entries e' ?tab = contents m @ table_entries ?e tab" "eng_ok e' ?tab" "listed e' = Flushed now # listed ?e"
      using w None new by (simp_all add: table_entries_def)
    have lay: "layers e' ?tab = contents (ememtable ?e) @ contents m @ contents m @ table_entries ?e tab"
      "layers ?e tab = contents (ememtable ?e) @ contents m @ table_entries ?e tab"
      using w by (simp_all add: layers_def t imm)
    have "scanned_all ?tab tier = scanned_all tab tier" if "set tier \<subseteq> set (listed ?e)" for tier
      using that new(1) by (intro scanned_all_cong) auto
    then have "plan_ok c' ?tab" using ok(2) t(3) frame unfolding plan_ok_def c'_def by fastforce
    moreover have "visible (layers e' ?tab) k = visible (layers ?e tab) k" for k
      using lay by (auto simp: visible_append split: option.split)
    moreover have "shadows (contents m) (contents m @ table_entries ?e tab)"
      by (simp add: shadows_def visible_append)
    moreover have "fresher ?tab (listed e')" if "ordered_at c tab"
    proof -
      have o: "newer (contents m) (table_entries ?e tab)" "fresher tab (listed ?e)"
        using that pc imm by (simp_all add: ordered_at_def Let_def)
      have "fresher ?tab (listed ?e)" using o(2) new(1) by (subst fresher_cong [of "listed ?e" ?tab tab]) auto
      then show ?thesis using t(3) o(1) new(1) by (simp add: fresher_Cons_iff table_entries_def)
    qed
    ultimately show ?thesis
      using inv t None w m
      by (intro exI [of _ ?tab]) (auto simp: inv_at_def ordered_at_def Let_def history_def imm bounded_def newer_def lay c'_def)
  qed
qed

lemma inv_clear_flush:
  assumes inv: "inv_at c tab" and pc: "cpc c = Registered"
  shows "inv_at (c\<lparr>ceng := flush_clear (ceng c), cpc := Idle\<rparr>) tab"
    "ordered_at c tab \<Longrightarrow> ordered_at (c\<lparr>ceng := flush_clear (ceng c), cpc := Idle\<rparr>) tab"
proof -
  let ?e = "ceng c" and ?c = "c\<lparr>ceng := flush_clear (ceng c), cpc := Idle\<rparr>"
  have e': "imm_entries (flush_clear ?e) = []" "table_entries (flush_clear ?e) tab = table_entries ?e tab"
    "contents (ememtable (flush_clear ?e)) = contents (ememtable ?e)" "eimmutable (flush_clear ?e) = None"
    "efs (flush_clear ?e) = efs ?e" "ecompact (flush_clear ?e) = ecompact ?e"
    by (simp_all add: imm_entries_def table_entries_def flush_clear_def)
  have sh: "shadows (imm_entries ?e) (table_entries ?e tab)" using inv pc by (simp add: inv_at_def Let_def)
  have "visible (layers ?e tab) k = visible (layers (flush_clear ?e) tab) k" for k
    using visible_append_cong [of "imm_entries ?e @ table_entries ?e tab" "table_entries ?e tab"] visible_shadowed [OF sh]
    by (simp add: layers_def e')
  moreover have "eng_ok (flush_clear ?e) tab" using inv by (simp add: inv_at_def Let_def eng_ok_def flush_clear_def)
  moreover have "plan_ok c tab" using inv by (simp add: inv_at_def Let_def)
  then have "plan_ok ?c tab" by (rule plan_ok_cong) (simp_all add: e')
  ultimately show "inv_at ?c tab"
    using inv by (simp add: inv_at_def Let_def history_def e')
  show "ordered_at ?c tab" if "ordered_at c tab"
    using that by (simp add: ordered_at_def Let_def history_def e') (auto simp: bounded_def newer_def layers_def e')
qed

lemma inv_plan:
  fixes s :: bool
  assumes inv: "inv_at c tab" and srt: "sorts_by_size srt" and new: "Compacted now \<notin> set (listed (ceng c))"
    and run: "compact_plan srt (efs (ceng c)) io now (Tables (ecompact (ceng c))) = Some (fs', res)"
  defines "c' \<equiv> c\<lparr>ceng := (ceng c)\<lparr>efs := fs'\<rparr>, cplan := (case res of Inl _ \<Rightarrow> None | Inr p \<Rightarrow> p), csound := s\<rparr>"
  shows "inv_at c' tab" "ordered_at c tab \<Longrightarrow> ordered_at c' tab"
proof -
  let ?e = "ceng c"
  have ok: "eng_ok ?e tab" using inv by (rule inv_at_ok)
  then have holds: "\<forall>p\<in>set (listed ?e). holds_table (efs ?e) p (tab p)" by (simp add: eng_ok_def)
  note plan = compact_plan_ok [OF srt holds new, of io fs' res]
  have run': "compact_plan srt (efs ?e) io now (listed ?e) = Some (fs', res)" using run by (simp add: Tables_def)
  have same: "fs' p = efs ?e p" if "p \<in> set (listed ?e)" for p using plan(1) [OF run', of p] new that by metis
  have ok': "eng_ok (?e\<lparr>efs := fs'\<rparr>) tab" using ok same by (simp add: eng_ok_def holds_table_def)
  have "plan_ok c' tab"
    using plan(2) [OF run'] new by (auto simp: plan_ok_def c'_def split: sum.splits)
  moreover have "layers (?e\<lparr>efs := fs'\<rparr>) tab = layers ?e tab" "imm_entries (?e\<lparr>efs := fs'\<rparr>) = imm_entries ?e"
      "table_entries (?e\<lparr>efs := fs'\<rparr>) tab = table_entries ?e tab" by (simp_all add: layers_def imm_entries_def table_entries_def)
  ultimately show "inv_at c' tab" "ordered_at c tab \<Longrightarrow> ordered_at c' tab"
    using inv ok' by (simp_all add: inv_at_def ordered_at_def Let_def history_def c'_def)
qed

lemma inv_swap:
  fixes s :: bool
  assumes inv: "inv_at c tab" and plan: "cplan c = Some (tier, out)" and safe: "swap_safe (ceng c) tier"
  defines "c' \<equiv> c\<lparr>ceng := (ceng c)\<lparr>ecompact := compact_swap (ecompact (ceng c)) tier out, efs := remove_files (efs (ceng c)) tier\<rparr>,
       cplan := None, csound := s\<rparr>"
  shows "\<exists>tab'. inv_at c' tab' \<and> (ordered_at c tab \<longrightarrow> ordered_at c' tab')"
proof -
  let ?e = "ceng c" and ?e' = "(ceng c)\<lparr>ecompact := compact_swap (ecompact (ceng c)) tier out, efs := remove_files (efs (ceng c)) tier\<rparr>"
  have e: "eng_ok ?e tab" using inv by (rule inv_at_ok)
  have "plan_ok c tab" using inv by (simp add: inv_at_def Let_def)
  then obtain now where p: "set tier \<subseteq> set (listed ?e)" "out = Compacted now" "Compacted now \<notin> set (listed ?e)"
      "efs ?e (Compacted now) = Some (sst_bytes (merged_entries (scanned_all tab tier)))"
    using plan by (auto simp: plan_ok_def)
  let ?tab = "merged_tab tab tier now"
  have t: "tables_ok (efs ?e) (ecompact ?e) tab" "tier_ok tab (listed ?e) tier"
    using safe e swap_safe_iff [OF e p(1)] by (auto simp: tables_ok_def eng_ok_def)
  note sw = swap_ok [OF t p(3,1,4)]
  have t': "set (table_entries ?e' ?tab) \<subseteq> set (table_entries ?e tab)" "visible (table_entries ?e' ?tab) k = visible (table_entries ?e tab) k" for k
    using sw(2,3) by (simp_all add: table_entries_def p(2))
  have imm: "imm_entries ?e' = imm_entries ?e" by (simp add: imm_entries_def)
  have "eng_ok ?e' ?tab" using e sw(1) by (auto simp: eng_ok_def tables_ok_def p(2))
  moreover have "visible (layers ?e' ?tab) k = visible (layers ?e tab) k" for k
    by (simp add: layers_def imm visible_append t'(2) split: option.split)
  moreover have sub: "set (layers ?e' ?tab) \<subseteq> set (layers ?e tab)"
      "set (imm_entries ?e @ table_entries ?e' ?tab) \<subseteq> set (imm_entries ?e @ table_entries ?e tab)"
    using t'(1) by (auto simp: layers_def imm)
  moreover have "shadows (imm_entries ?e) (table_entries ?e' ?tab) \<longleftrightarrow> shadows (imm_entries ?e) (table_entries ?e tab)"
    using t'(2) by (simp add: shadows_def)
  moreover have "fresher ?tab (listed ?e')" using sw(1) by (simp add: tables_ok_def p(2))
  ultimately show ?thesis
    using inv newer_mono [OF _ sub(2)] newer_mono [OF _ t'(1)] bounded_mono [OF _ sub(1) subset_refl]
    by (intro exI [of _ ?tab]) (simp add: inv_at_def ordered_at_def plan_ok_def Let_def history_def imm c'_def)
qed

lemma inv_bg_step:
  assumes "bg_step srt c c'" "sorts_by_size srt" "eng_inv c"
  shows "eng_inv c'"
  unfolding eng_inv_def
proof
  assume sound: "csound c'"
  have same: "history c' = history c" "csound c" using bg_step_keeps [OF assms(1)] sound by (simp_all add: history_def)
  then obtain tab where inv: "inv_at c tab" "increasing (history c) \<longrightarrow> ordered_at c tab" using assms(3) by (auto simp: eng_inv_def)
  from assms(1) have "\<exists>tab'. inv_at c' tab' \<and> (ordered_at c tab \<longrightarrow> ordered_at c' tab')"
  proof cases
    case (begin_flush b e')
    then have "b \<longrightarrow> eimmutable (ceng c) = None" using sound by simp
    then show ?thesis unfolding begin_flush(1) using inv_begin_flush [OF inv(1) begin_flush(2,3)] by blast
  next
    case (write_flush io now e' err)
    then have "flush_safe (ceng c) now" using sound by simp
    then show ?thesis unfolding write_flush(1) by (rule inv_write_flush [OF inv(1) write_flush(2) _ write_flush(3)])
  next
    case clear_flush
    then show ?thesis unfolding clear_flush(1) using inv_clear_flush [OF inv(1)] by blast
  next
    case (plan_compaction io now fs' res)
    then have "Compacted now \<notin> set (listed (ceng c))" using sound by simp
    then show ?thesis unfolding plan_compaction(1) using inv_plan [OF inv(1) assms(2) _ plan_compaction(3)] by blast
  next
    case (swap_compaction tier out)
    then have "swap_safe (ceng c) tier" using sound by simp
    then show ?thesis unfolding swap_compaction(1) by (rule inv_swap [OF inv(1) swap_compaction(2)])
  qed
  then show "\<exists>tab. inv_at c' tab \<and> (increasing (history c') \<longrightarrow> ordered_at c' tab)" using inv(2) same(1) by auto
qed

lemma inv_step:
  assumes "eng_step enc srt c c'" "sorts_by_size srt" "eng_inv c"
  shows "eng_inv c'"
  using assms(1)
proof cases
  case (write_ok draw op e')
  have "increasing (history c)" if "increasing (history c @ [op])" using that by (simp add: increasing_def sorted_wrt_append)
  moreover have "history c' = history c @ [op]" "csound c' = csound c" using write_ok by (simp_all add: history_def)
  ultimately show ?thesis
    using inv_write_ok [OF _ write_ok(2)] assms(3) unfolding eng_inv_def write_ok(1) by metis
next
  case (write_err draw op e' x)
  have "inv_at c' tab \<and> (ordered_at c tab \<longrightarrow> ordered_at c' tab)" if inv: "inv_at c tab" for tab
  proof -
    note s = eng_apply_spec [OF inv_at_ok [OF inv] write_err(2)]
    have "plan_ok c tab" using inv by (simp add: inv_at_def Let_def)
    then have "plan_ok c' tab" by (rule plan_ok_cong) (use s write_err(1) in simp_all)
    then show ?thesis using inv s write_err
      by (simp add: inv_at_def ordered_at_def Let_def history_def layers_def imm_entries_def table_entries_def)
  qed
  moreover have "history c' = history c" "csound c' = csound c" using write_err by (simp_all add: history_def)
  ultimately show ?thesis using assms(3) unfolding eng_inv_def by metis
qed (use inv_bg_step assms in blast)

lemma inv_reach: "eng_reach enc srt c c' \<Longrightarrow> sorts_by_size srt \<Longrightarrow> eng_inv c \<Longrightarrow> eng_inv c'"
  by (induction rule: eng_reach.induct) (auto intro: inv_step)

lemma inv_view:
  assumes "eng_inv c" "csound c"
  shows "eng_view (ceng c) k = last_write (history c) k"
  using assms eng_view_layers by (auto simp: eng_inv_def inv_at_def Let_def)

lemma inv_wf: "eng_inv c \<Longrightarrow> csound c \<Longrightarrow> eng_wf (ceng c)"
  using inv_at_ok by (auto simp: eng_inv_def eng_wf_def)

subsection \<open>The log and crashes\<close>

text \<open>The file tracks what it held at the start and then the records of all writes handed to the log; as long
  as none has failed, it holds exactly that, synced.\<close>

definition records :: "(walRecord \<Rightarrow> bytes) \<Rightarrow> mem_op list \<Rightarrow> bytes list" where
  "records enc ops = map (enc \<circ> op_record) ops"

definition log_inv :: "(walRecord \<Rightarrow> bytes) \<Rightarrow> bytes \<Rightarrow> config \<Rightarrow> bool" where
  "log_inv enc f0 c \<longleftrightarrow> (let w = ewal (ceng c); f = f0 @ log_bytes (records enc (clogged c)) in
     wal_idle w \<and> bw_inv (bw w) \<and> bw.tracks (bw w) f \<and> (cclean c \<longrightarrow> chist c = clogged c \<and> wal_at w f))"

lemma log_inv_opened: "ewal e = wal_Open f script \<Longrightarrow> log_inv enc f (opened ops e)"
  using wal_at_Open [of f script]
  by (simp add: log_inv_def Let_def records_def wal_at_def bw.tracks_def)

lemma log_inv_step:
  assumes "eng_step enc srt c c'" "log_inv enc f0 c"
  shows "log_inv enc f0 c'"
  using assms(1)
proof cases
  case (write_ok draw op e')
  note a = eng_apply_wal [OF write_ok(2)]
  show ?thesis using assms(2) write_ok(1) Append_wait_tracks [OF _ _ _ a] Append_wait_at [OF _ a]
    by (fastforce simp: log_inv_def Let_def records_def)
next
  case (write_err draw op e' x)
  show ?thesis using assms(2) write_err(1) Append_wait_tracks [OF _ _ _ eng_apply_wal [OF write_err(2)]]
    by (fastforce simp: log_inv_def Let_def records_def)
next
  case background
  then show ?thesis using assms(2) bg_step_keeps [OF background] by (simp add: log_inv_def)
qed

lemma reach_invs:
  "eng_reach enc srt c c' \<Longrightarrow> sorts_by_size srt \<Longrightarrow> eng_inv c \<Longrightarrow> log_inv enc f0 c \<Longrightarrow>
   eng_inv c' \<and> log_inv enc f0 c' \<and> cbase c' = cbase c"
proof (induction rule: eng_reach.induct)
  case (extend c c' c'')
  then show ?case using inv_step log_inv_step eng_step_keeps by metis
qed simp

lemma ReadAll_log:
  assumes "\<forall>d\<in>set ds. length d < 2 ^ 32"
  shows "ReadAll (Some (log_bytes ds)) = (ds, None)"
proof -
  have "log_bytes ds \<in> wal_crash (wal_Open (log_bytes ds) [])"
    unfolding wal_crash_def crash_images_def wal_Open_def NewWriterSize_def
    by (auto intro!: exI [of _ "length (log_bytes ds)"])
  then show ?thesis using wal_clean_crash [OF wal_clean_Open assms] by blast
qed

definition survives :: "(walRecord \<Rightarrow> bytes) \<Rightarrow> (bytes \<Rightarrow> walRecord option) \<Rightarrow> mem_op \<Rightarrow> bool" where
  "survives enc dec op \<longleftrightarrow> dec (enc (op_record op)) = Some (op_record op) \<and> length (enc (op_record op)) < 2 ^ 32"

lemma record_op_record: "record_op (op_record op) = Some op"
  by (cases op) (auto simp: record_op_def)

lemma decode_records: "\<forall>op\<in>set ops. survives enc dec op \<Longrightarrow> List.map_filter (decode_op dec) (records enc ops) = ops"
  unfolding records_def by (induction ops) (auto simp: map_filter_simps decode_op_def survives_def record_op_record)

lemma records_short: "\<forall>op\<in>set ops. survives enc dec op \<Longrightarrow> d \<in> set (records enc ops) \<Longrightarrow> length d < 2 ^ 32"
  by (auto simp: records_def survives_def)

lemma log_ops_bytes: "\<forall>d\<in>set ds. length d < 2 ^ 32 \<Longrightarrow> log_ops dec (log_bytes ds) = List.map_filter (decode_op dec) ds"
  by (simp add: log_ops_def ReadAll_log)

lemma log_ops_append:
  assumes "\<forall>d\<in>set ds0. length d < 2 ^ 32" "\<forall>op\<in>set ops. survives enc dec op"
  shows "log_ops dec (log_bytes ds0 @ log_bytes (records enc ops)) = log_ops dec (log_bytes ds0) @ ops"
proof -
  have "\<forall>d\<in>set (ds0 @ records enc ops). length d < 2 ^ 32" using assms records_short by auto
  from log_ops_bytes [OF this, of dec] show ?thesis
    using log_ops_bytes [OF assms(1), of dec] decode_records [OF assms(2)] by (simp add: List.map_filter_def)
qed

lemma run_invs:
  assumes "eng_Open dec draws None script (Some f) tabs mb = Some (Inr e0)" "sorts_by_size srt"
    "eng_reach enc srt (start dec f e0) c"
  shows "eng_inv c" "log_inv enc f c" "cbase c = log_ops dec f"
proof -
  have "ewal e0 = wal_Open f script"
    using eng_Open_ok [of dec draws script f tabs mb] assms(1) by auto
  then have "log_inv enc f (start dec f e0)" unfolding start_def by (rule log_inv_opened)
  from reach_invs [OF assms(3,2) inv_start [OF assms(1)] this]
  show "eng_inv c" "log_inv enc f c" "cbase c = log_ops dec f" by (simp_all add: start_def)
qed

text \<open>Reopening on the log of a run: the new engine shows what the old one showed.\<close>

lemma reopen_view:
  assumes inv: "eng_inv c" "csound c" "cbase c = log_ops dec (log_bytes ds0)"
    and small: "\<forall>d\<in>set ds0. length d < 2 ^ 32" "\<forall>op\<in>set (chist c). survives enc dec op"
  shows "\<exists>e'. eng_Open dec draws None script (Some (log_bytes ds0 @ log_bytes (records enc (chist c)))) tabs mb = Some (Inr e') \<and>
    (\<forall>k. eng_view e' k = eng_view (ceng c) k)"
proof -
  let ?f = "log_bytes ds0 @ log_bytes (records enc (chist c))"
  obtain tab :: "sst_path \<Rightarrow> entry list" where True by simp
  obtain e' where e': "eng_Open dec draws None script (Some ?f) tabs mb = Some (Inr e')" "eng_ok e' tab"
      "layers e' tab = fold apply_op (log_ops dec ?f) []"
    using eng_Open_ok by blast
  have "log_ops dec ?f = history c"
    unfolding log_ops_append [OF small] using inv(3) by (simp add: history_def)
  then have "eng_view e' k = eng_view (ceng c) k" for k
    using eng_view_layers [OF e'(2)] e'(3) inv_view [OF inv(1,2)] by (simp add: visible_fold)
  then show ?thesis using e'(1) by blast
qed

lemma clean_log:
  assumes "log_inv enc f0 c" "cclean c"
  shows "wal_at (ewal (ceng c)) (f0 @ log_bytes (records enc (chist c)))" "clogged c = chist c"
  using assms by (simp_all add: log_inv_def Let_def)

lemma wal_at_crash: "wal_at w f \<Longrightarrow> f' \<in> wal_crash w \<Longrightarrow> f' = f"
  by (auto simp: wal_at_def wal_crash_def crash_images_def stored_def durable_def)

lemma crash_view:
  assumes inv: "eng_inv c" "csound c" "log_inv enc (log_bytes ds0) c" "cclean c" "cbase c = log_ops dec (log_bytes ds0)"
    and small: "\<forall>d\<in>set ds0. length d < 2 ^ 32" "\<forall>op\<in>set (chist c). survives enc dec op"
    and crash: "f \<in> wal_crash (ewal (ceng c))"
  shows "\<exists>e'. eng_Open dec draws None script (Some f) tabs mb = Some (Inr e') \<and> (\<forall>k. eng_view e' k = eng_view (ceng c) k)"
  using reopen_view [OF inv(1,2,5) small] wal_at_crash [OF clean_log(1) [OF inv(3,4)] crash] by simp

text \<open>A crash at any moment of a run on a log of complete records, also inside an append and after failed writes,
  leaves a log from which the replay recovers a beginning of all records handed to it.\<close>

lemma crash_replay:
  assumes "log_inv enc (log_bytes ds0) c'" "f \<in> crash_between w (ewal (ceng c'))"
    and small: "\<forall>d\<in>set ds0. length d < 2 ^ 32" "\<forall>op\<in>set (clogged c'). survives enc dec op"
  shows "\<exists>j. ReadAll (Some f) = (take j (ds0 @ records enc (clogged c')), None)"
proof -
  let ?ds = "ds0 @ records enc (clogged c')"
  have "bw.tracks (bw (ewal (ceng c'))) (log_bytes ?ds)" using assms(1) by (simp add: log_inv_def Let_def)
  from crash_between_prefix [OF this assms(2)] obtain n where f: "f = take n (log_bytes ?ds)" by blast
  have "\<forall>d\<in>set ?ds. length d < 2 ^ 32" using small(1) records_short [OF small(2)] by auto
  from ReadAll_prefix [OF this, of n "[]"] show ?thesis by (auto simp: ReadAll_def f)
qed

subsection \<open>Properties\<close>

text \<open>C2. Reads are correct in every sound run. Open the engine on any log file and let writes that succeed or
  fail, the parts of flushes and the parts of compactions interleave in any order, with any failing system
  calls. As long as the run is sound (no flush has begun while the memtable of a failed flush was waiting,
  flushed memtables fit the format and file names were new, and every compaction was harmless when it swapped
  its tables), a \<open>Get\<close> that no swap interrupts returns the last write of the key among those recovered
  from the log and those acknowledged since, and reports the key as absent exactly when that write is a
  delete or does not exist.\<close>

theorem get_returns_last_write:
  assumes "eng_Open dec draws None script (Some f) tabs mb = Some (Inr e0)" "sorts_by_size srt"
    "eng_reach enc srt (start dec f e0) c" "csound c"
  shows "\<exists>en. eng_Get (ceng c) k = Some (en, last_write (history c) k \<noteq> None) \<and>
    (\<forall>x. last_write (history c) k = Some x \<longrightarrow> en = x)"
proof -
  have inv: "eng_inv c" using inv_reach [OF assms(3,2) inv_start [OF assms(1)]] .
  show ?thesis using eng.get_law [OF inv_wf [OF inv assms(4)], of k] inv_view [OF inv assms(4)] by simp
qed

text \<open>The tables stay in version order. In every sound run in which the versions written increase (a node
  that has not restarted), a newer listed table holds newer versions of the keys it shares with an older one,
  also where a flush registered a table between the two parts of a compaction; so the swap of a planned
  compaction is safe exactly when its tier is harmless, and the order need not be asked for.\<close>

theorem tables_in_order:
  assumes "eng_Open dec draws None script (Some f) tabs mb = Some (Inr e0)" "sorts_by_size srt"
    "eng_reach enc srt (start dec f e0) c" "csound c" "increasing (history c)" "eng_ok (ceng c) tab"
  shows "fresher tab (listed (ceng c)) \<and>
    (\<forall>tier out. cplan c = Some (tier, out) \<longrightarrow> (swap_safe (ceng c) tier \<longleftrightarrow> tier_ok tab (listed (ceng c)) tier))"
proof -
  have "eng_inv c" using inv_reach [OF assms(3,2) inv_start [OF assms(1)]] .
  then obtain t where t: "inv_at c t" "ordered_at c t" using assms(4,5) by (auto simp: eng_inv_def)
  have "fresher t (listed (ceng c))" using t(2) by (simp add: ordered_at_def Let_def)
  then have f: "fresher tab (listed (ceng c))"
    using fresher_cong [of "listed (ceng c)" tab t] eng_ok_unique [OF assms(6) inv_at_ok [OF t(1)]] by blast
  moreover have "set tier \<subseteq> set (listed (ceng c))" if "cplan c = Some (tier, out)" for tier out
    using that t(1) by (auto simp: inv_at_def Let_def plan_ok_def)
  ultimately show ?thesis using swap_safe_iff [OF assms(6)] by blast
qed

text \<open>Crash safety. Take any sound run on a log of complete records in which no write has been
  answered with an error, and crash between two writes, whatever the disk keeps beyond the synced bytes.
  Reopening succeeds, and the new engine shows for every key the last of all acknowledged writes.\<close>

theorem crash_keeps_acknowledged_writes:
  assumes "eng_Open dec draws None script (Some (log_bytes ds0)) tabs mb = Some (Inr e0)" "sorts_by_size srt"
    "eng_reach enc srt (start dec (log_bytes ds0) e0) c" "csound c" "cclean c"
    "\<forall>d\<in>set ds0. length d < 2 ^ 32" "\<forall>op\<in>set (chist c). survives enc dec op"
    "f \<in> wal_crash (ewal (ceng c))"
  shows "\<exists>e'. eng_Open dec draws' None script' (Some f) tabs' mb' = Some (Inr e') \<and>
    (\<forall>k. eng_view e' k = last_write (history c) k)"
proof -
  note inv = run_invs [OF assms(1-3)]
  show ?thesis
    using crash_view [OF inv(1) assms(4) inv(2) assms(5) inv(3) assms(6-8)] inv_view [OF inv(1) assms(4)] by auto
qed

text \<open>A short run: one write on an empty log, which a flush then moves to a table.\<close>

definition demo_op :: mem_op where
  "demo_op = MPut [1] [2] 3"

definition demo_dec :: "bytes \<Rightarrow> walRecord option" where
  "demo_dec raw = Some (op_record demo_op)"

lemma log_ops_Nil [simp]: "log_ops dec [] = []"
  by (simp add: log_ops_def ReadAll_log [of "[]", simplified] map_filter_simps)

lemma demo_run:
  "\<exists>e0 c. eng_Open demo_dec (\<lambda>_ _. 1) None [] (Some (log_bytes [])) (\<lambda>_. None) 1 = Some (Inr e0) \<and>
     eng_reach (\<lambda>_. []) (sort_key snd) (start demo_dec (log_bytes []) e0) c \<and> cclean c \<and> csound c \<and> history c = [demo_op] \<and>
     chist c = [demo_op] \<and> cpc c = Idle \<and> eng_ok (ceng c) (\<lambda>_. []) \<and> contents (ememtable (ceng c)) = [live [1] [2] 3] \<and>
     eimmutable (ceng c) = None \<and> listed (ceng c) = []"
proof -
  obtain e0 where e0: "eng_Open demo_dec (\<lambda>_ _. 1) None [] (Some []) (\<lambda>_. None) 1 = Some (Inr e0)"
      "eng_ok e0 (\<lambda>_. [])" "ewal e0 = wal_Open [] []" "contents (ememtable e0) = []" "eimmutable e0 = None" "listed e0 = []"
    using eng_Open_ok [of demo_dec "\<lambda>_ _. 1" "[]" "[]" "\<lambda>_. None" 1 "\<lambda>_. []"] by auto
  have "calm (bw (ewal e0))" by (simp add: e0(3) calm_def wal_Open_def NewWriterSize_def)
  then obtain e1 where e1: "eng_apply (\<lambda>_. []) (\<lambda>_. 1) e0 demo_op = Some (e1, None)"
    using eng_apply_calm [OF e0(2)] by blast
  let ?c0 = "start demo_dec [] e0" and ?c1 = "(start demo_dec [] e0)\<lparr>ceng := e1, chist := [demo_op], clogged := [demo_op]\<rparr>"
  have "eng_step (\<lambda>_. []) (sort_key snd) ?c0 ?c1"
    using eng_step.write_ok [of "\<lambda>_. []" "\<lambda>_. 1" ?c0 demo_op e1 "sort_key snd"] e1 by (simp add: start_def)
  then have "eng_reach (\<lambda>_. []) (sort_key snd) ?c0 ?c1" by (meson eng_reach.intros)
  then show ?thesis using e0 eng_apply_spec [OF e0(2) e1]
    by (intro exI [of _ e0] exI [of _ ?c1]) (simp add: start_def history_def demo_op_def)
qed

lemma demo_flushed:
  "\<exists>e0 c. eng_Open demo_dec (\<lambda>_ _. 1) None [] (Some (log_bytes [])) (\<lambda>_. None) 1 = Some (Inr e0) \<and>
     eng_reach (\<lambda>_. []) (sort_key snd) (start demo_dec (log_bytes []) e0) c \<and> csound c \<and> history c = [demo_op] \<and>
     listed (ceng c) = [Flushed 5]"
proof -
  obtain e0 c where r: "eng_Open demo_dec (\<lambda>_ _. 1) None [] (Some (log_bytes [])) (\<lambda>_. None) 1 = Some (Inr e0)"
     "eng_reach (\<lambda>_. []) (sort_key snd) (start demo_dec (log_bytes []) e0) c" "csound c" "history c = [demo_op]" "cpc c = Idle"
     "eng_ok (ceng c) (\<lambda>_. [])" "contents (ememtable (ceng c)) = [live [1] [2] 3]" "eimmutable (ceng c) = None" "listed (ceng c) = []"
    using demo_run by blast
  have len: "sl_Len (ememtable (ceng c)) \<noteq> 0"
    using sl.size_law [of "ememtable (ceng c)"] r(6,7) by (simp add: eng_ok_def)
  obtain e1 where b: "flush_begin (ceng c) = (True, e1)" using len by (simp add: flush_begin_def)
  note e1 = flush_begin_ok [OF r(6,8) b]
  let ?c1 = "c\<lparr>ceng := e1, cpc := Writing, csound := True\<rparr>"
  obtain m where m: "eimmutable e1 = Some m" "contents m = [live [1] [2] 3]" "listed e1 = []" using e1 r(7,9) by auto
  have s1: "bg_step (sort_key snd) c ?c1" using bg_step.begin_flush [of c True e1 "sort_key snd"] r(3,5,8) b by simp
  obtain e2 where w: "flush_write no_io_error 5 e1 = Some (e2, None)"
    using flush_write_calm [of e1 "\<lambda>_. []" m no_io_error 5] e1 m(1) by (auto simp: no_io_error_def)
  let ?c2 = "?c1\<lparr>ceng := e2, cpc := Registered, csound := True\<rparr>"
  have fits: "sst_fits (contents m)" using m(2) one_entry_fits by simp
  then have "flush_safe e1 5" using m by (simp add: flush_safe_def imm_entries_def)
  then have s2: "bg_step (sort_key snd) ?c1 ?c2"
    using bg_step.write_flush [of ?c1 no_io_error 5 e2 None "sort_key snd"] w r(3) by simp
  have "listed e2 = [Flushed 5]" using flush_write_ok [of e1 "\<lambda>_. []" m 5 no_io_error e2 None] e1 m fits w by simp
  moreover have "eng_reach (\<lambda>_. []) (sort_key snd) (start demo_dec (log_bytes []) e0) ?c2"
    using r(2) s1 s2 by (meson eng_reach.extend eng_step.background)
  ultimately show ?thesis using r(1,3,4) by (intro exI [of _ e0] exI [of _ ?c2]) (simp add: history_def)
qed

lemma demo_put_view:
  "\<exists>e. eng_apply enc draw (fresh_engine fs []) (MPut k v ver) = Some (e, None) \<and> eng_ok e (\<lambda>_. []) \<and>
     (\<forall>k'. eng_view e k' = last_write [MPut k v ver] k')"
proof -
  have ok: "eng_ok (fresh_engine fs []) (\<lambda>_. [])" "calm (bw (ewal (fresh_engine fs [])))" "layers (fresh_engine fs []) (\<lambda>_. []) = []"
    using fresh_engine_ok [of "[]"] by simp_all
  obtain e where e: "eng_apply enc draw (fresh_engine fs []) (MPut k v ver) = Some (e, None)"
    using eng_apply_calm [OF ok(1,2)] by blast
  have "eng_view (fresh_engine fs []) k' = None" for k' using eng_view_layers [OF ok(1)] ok(3) by (simp add: visible_def)
  then show ?thesis using eng_apply_view [OF ok(1) e] e by (auto simp: last_write_def)
qed

theorem get_returns_last_write_witness:
  "\<exists>e0 c. eng_Open demo_dec (\<lambda>_ _. 1) None [] (Some (log_bytes [])) (\<lambda>_. None) 1 = Some (Inr e0) \<and>
     eng_reach (\<lambda>_. []) (sort_key snd) (start demo_dec (log_bytes []) e0) c \<and> csound c \<and> listed (ceng c) = [Flushed 5] \<and>
     eng_Get (ceng c) [1] = Some (live [1] [2] 3, True)"
proof -
  obtain e0 c where r: "eng_Open demo_dec (\<lambda>_ _. 1) None [] (Some (log_bytes [])) (\<lambda>_. None) 1 = Some (Inr e0)"
     "eng_reach (\<lambda>_. []) (sort_key snd) (start demo_dec (log_bytes []) e0) c" "csound c" "history c = [demo_op]" "listed (ceng c) = [Flushed 5]"
    using demo_flushed by blast
  have "last_write (history c) [1] = Some (live [1] [2] 3)" by (simp add: r(4) demo_op_def last_write_def)
  then show ?thesis using get_returns_last_write [OF r(1) sort_by_size r(2,3), of "[1]"] r by auto
qed

theorem tables_in_order_witness:
  "\<exists>e0 c tab. eng_reach (\<lambda>_. []) (sort_key snd) (start demo_dec (log_bytes []) e0) c \<and> increasing (history c) \<and>
     eng_ok (ceng c) tab \<and> listed (ceng c) = [Flushed 5] \<and> fresher tab (listed (ceng c))"
proof -
  obtain e0 c where r: "eng_Open demo_dec (\<lambda>_ _. 1) None [] (Some (log_bytes [])) (\<lambda>_. None) 1 = Some (Inr e0)"
     "eng_reach (\<lambda>_. []) (sort_key snd) (start demo_dec (log_bytes []) e0) c" "csound c" "history c = [demo_op]" "listed (ceng c) = [Flushed 5]"
    using demo_flushed by blast
  have "eng_inv c" by (rule inv_reach [OF r(2) sort_by_size inv_start [OF r(1)]])
  then obtain tab where ok: "eng_ok (ceng c) tab" using inv_wf [OF _ r(3)] by (auto simp: eng_wf_def)
  moreover have i: "increasing (history c)" by (simp add: r(4) increasing_def)
  ultimately show ?thesis using conjunct1 [OF tables_in_order [OF r(1) sort_by_size r(2,3) i ok]] r(2,5) by blast
qed

theorem crash_keeps_acknowledged_writes_witness:
  "\<exists>e0 c f e'. eng_Open demo_dec (\<lambda>_ _. 1) None [] (Some (log_bytes [])) (\<lambda>_. None) 1 = Some (Inr e0) \<and>
     eng_reach (\<lambda>_. []) (sort_key snd) (start demo_dec (log_bytes []) e0) c \<and> f \<in> wal_crash (ewal (ceng c)) \<and>
     eng_Open demo_dec (\<lambda>_ _. 0) None [] (Some f) (\<lambda>_. None) 1 = Some (Inr e') \<and> eng_view e' [1] = Some (live [1] [2] 3)"
proof -
  obtain e0 c where r: "eng_Open demo_dec (\<lambda>_ _. 1) None [] (Some (log_bytes [])) (\<lambda>_. None) 1 = Some (Inr e0)"
     "eng_reach (\<lambda>_. []) (sort_key snd) (start demo_dec (log_bytes []) e0) c" "csound c" "cclean c" "history c = [demo_op]" "chist c = [demo_op]"
    using demo_run by blast
  have "last_write (history c) [1] = Some (live [1] [2] 3)" by (simp add: r(5) demo_op_def last_write_def)
  moreover have "\<forall>op\<in>set (chist c). survives (\<lambda>_. []) demo_dec op" by (simp add: r(6) survives_def demo_dec_def)
  ultimately obtain e' where e': "eng_Open demo_dec (\<lambda>_ _. 0) None [] (Some (fdata (bfile (bw (ewal (ceng c)))))) (\<lambda>_. None) 1 =
      Some (Inr e')" "eng_view e' [1] = Some (live [1] [2] 3)"
    using crash_keeps_acknowledged_writes [OF r(1) sort_by_size r(2-4) _ _ crash_keeps_file, of "\<lambda>_ _. 0" "[]" "\<lambda>_. None" 1]
    by auto
  show ?thesis by (intro exI conjI) (rule r(1), rule r(2), rule crash_keeps_file, rule e'(1), rule e'(2))
qed

end
