(* ===== verification/Router.thy ===== *)
theory Router
  imports EngineRuns
begin

text \<open>
  \<open>internal/consistency/router.go\<close>: reads with a consistency mode. What the reader observes of
  Raft, of the request's context and of the engine is its environment: at the \<open>i\<close>-th poll
  \<open>rapplied i\<close> is the applied index, \<open>rdone i\<close> tells whether the \<open>select\<close> takes the
  context's \<open>Done\<close> case and with which error, and \<open>rstore i\<close> is the engine a read made after
  that poll sees; \<open>rverify\<close> is the outcome of \<open>VerifyLeader\<close>. The polling loop may run forever;
  then the result is \<open>None\<close>.

  Raft's applied index is the index of the last entry it has handed to the state machine; its documentation
  says that the state machine may not have consumed that entry yet. Nothing here relates the two: what the
  state machine has consumed when the read after the \<open>i\<close>-th poll is made is a separate function \<open>fsm\<close>.
\<close>

record renv =
  rapplied :: "nat \<Rightarrow> u64"
  rdone :: "nat \<Rightarrow> goerror option"
  rverify :: "goerror option"
  rstore :: "nat \<Rightarrow> engine"

datatype mode = Strong | Eventual | ReadYourWrites | Monotonic | OtherMode string

text \<open>\<open>consistency.Mode\<close> of a string.\<close>

definition Mode :: "string \<Rightarrow> mode" where
  "Mode s = (if s = ''strong'' then Strong else if s = ''eventual'' then Eventual
     else if s = ''read-your-writes'' then ReadYourWrites else if s = ''monotonic'' then Monotonic else OtherMode s)"

definition readIndex :: "renv \<Rightarrow> goerror option" where
  "readIndex env = rverify env"

text \<open>The loop of \<open>waitForIndex\<close>: the poll at which it returned, and its error.\<close>

partial_function (option) wait_loop :: "renv \<Rightarrow> u64 \<Rightarrow> nat \<Rightarrow> (nat \<times> goerror option) option" where
  "wait_loop env index i =
     (if rapplied env i \<ge> index then Some (i, None)
      else (case rdone env i of Some e \<Rightarrow> Some (i, Some e) | None \<Rightarrow> wait_loop env index (i + 1)))"

definition waitForIndex :: "renv \<Rightarrow> u64 \<Rightarrow> (nat \<times> goerror option) option" where
  "waitForIndex env index = (if index = 0 then Some (0, None) else wait_loop env index 0)"

text \<open>\<open>Get\<close>: the conversion \<open>uint64(sessionIndex)\<close> keeps the bits, so it is the same word.\<close>

definition router_Get :: "renv \<Rightarrow> bytes \<Rightarrow> mode \<Rightarrow> i64 \<Rightarrow> i64 \<Rightarrow> (entry \<times> bool \<times> goerror option) option" where
  "router_Get env key m sessionIndex minVersion = do {
     (i, err) \<leftarrow> (case m of
         Strong \<Rightarrow> Some (0, readIndex env)
       | ReadYourWrites \<Rightarrow> waitForIndex env sessionIndex
       | Monotonic \<Rightarrow> waitForIndex env minVersion
       | Eventual \<Rightarrow> Some (0, None)
       | OtherMode s \<Rightarrow> Some (0, None));
     (case err of
        Some e \<Rightarrow> Some (zeroEntry, False, Some e)
      | None \<Rightarrow> do {
          (en, found) \<leftarrow> eng_Get (rstore env i) key;
          Some (en, found, None)
        })
   }"

subsection \<open>Waiting\<close>

lemma wait_loop_returns:
  assumes "rapplied env j \<ge> index \<or> rdone env j \<noteq> None" "i \<le> j"
  shows "\<exists>k err. wait_loop env index i = Some (k, err) \<and> i \<le> k \<and> k \<le> j \<and>
    (err = None \<longleftrightarrow> index \<le> rapplied env k) \<and> (\<forall>e. err = Some e \<longrightarrow> rdone env k = Some e)"
  using assms
proof (induction "j - i" arbitrary: i)
  case 0
  then show ?case by (subst wait_loop.simps) (auto split: option.splits)
next
  case (Suc n)
  show ?case
  proof (cases "index \<le> rapplied env i \<or> rdone env i \<noteq> None")
    case True
    then show ?thesis using Suc.prems by (subst wait_loop.simps) (auto split: option.splits)
  next
    case False
    then have "wait_loop env index i = wait_loop env index (i + 1)" by (subst wait_loop.simps) simp
    moreover have "n = j - (i + 1)" "i + 1 \<le> j" using Suc by auto
    ultimately show ?thesis using Suc.hyps(1) [of "i + 1"] Suc.prems by fastforce
  qed
qed

definition waited :: "renv \<Rightarrow> u64 \<Rightarrow> nat \<Rightarrow> nat \<times> goerror option \<Rightarrow> bool" where
  "waited env index i y \<longleftrightarrow> i \<le> fst y \<and> (\<forall>j. i \<le> j \<and> j < fst y \<longrightarrow> rapplied env j < index \<and> rdone env j = None) \<and>
     (snd y = None \<longrightarrow> index \<le> rapplied env (fst y)) \<and> (\<forall>e. snd y = Some e \<longrightarrow> rdone env (fst y) = Some e)"

lemma wait_loop_result:
  assumes "wait_loop env index i = Some y"
  shows "waited env index i y"
proof (rule wait_loop.raw_induct [OF _ assms, of waited])
  fix wl env index i y
  assume IH: "\<And>env index i y. wl env index i = Some y \<Longrightarrow> waited env index i y"
    and eq: "(if index \<le> rapplied env i then Some (i, None)
      else case rdone env i of None \<Rightarrow> wl env index (i + 1) | Some e \<Rightarrow> Some (i, Some e)) = Some y"
  show "waited env index i y"
  proof (cases "index \<le> rapplied env i \<or> rdone env i \<noteq> None")
    case True
    then show ?thesis using eq by (auto simp: waited_def split: if_splits option.splits)
  next
    case False
    then have "waited env index (i + 1) y" using IH [of env index "i + 1" y] eq by (auto split: option.splits)
    moreover have "i \<le> j \<and> j < fst y \<longrightarrow> j = i \<or> i + 1 \<le> j \<and> j < fst y" for j by auto
    ultimately show ?thesis using False unfolding waited_def by (metis Suc_eq_plus1 Suc_leD linorder_not_le)
  qed
qed

lemma waitForIndex_result:
  "waitForIndex env index = Some (k, None) \<Longrightarrow> index \<le> rapplied env k \<and> (\<forall>j<k. rapplied env j < index \<and> rdone env j = None)"
  using wait_loop_result [of env index 0 "(k, None)"] by (auto simp: waitForIndex_def waited_def split: if_splits)

text \<open>The committed log, as writes with their indices, and the stores the environment offers: each
  shows every key as a prefix of the log leaves it that contains every write that the state machine has
  consumed. The prefix may depend on the key: a node that applies entries again after a restart already shows
  later writes of the keys it has not come to.\<close>

definition serves :: "mem_op list \<Rightarrow> (nat \<Rightarrow> u64) \<Rightarrow> renv \<Rightarrow> bool" where
  "serves ops fsm env \<longleftrightarrow> (\<forall>i. eng_wf (rstore env i) \<and>
     (\<exists>n. (\<forall>k. \<exists>m. n \<le> m \<and> eng_view (rstore env i) k = last_write (take m ops) k) \<and>
       (\<forall>op\<in>set (drop n ops). fsm i < op_ver op)))"

definition awaited :: "mode \<Rightarrow> i64 \<Rightarrow> i64 \<Rightarrow> u64" where
  "awaited m sessionIndex minVersion =
     (case m of ReadYourWrites \<Rightarrow> sessionIndex | Monotonic \<Rightarrow> minVersion | _ \<Rightarrow> 0)"

subsection \<open>Properties\<close>

lemma router_Get_poll:
  assumes "router_Get env key m sessionIndex minVersion = Some (en, found, None)"
  shows "\<exists>i. eng_Get (rstore env i) key = Some (en, found) \<and> awaited m sessionIndex minVersion \<le> rapplied env i \<and>
    (\<forall>j<i. rapplied env j < awaited m sessionIndex minVersion \<and> rdone env j = None)"
  using assms waitForIndex_result
  by (cases m) (fastforce simp: router_Get_def awaited_def split: Option.bind_splits option.splits)+


definition poll_env :: "u64 \<Rightarrow> engine \<Rightarrow> renv" where
  "poll_env applied e = \<lparr>rapplied = \<lambda>_. applied, rdone = \<lambda>_. None, rverify = None, rstore = \<lambda>_. e\<rparr>"

lemma poll_env_simps [simp]:
  "rapplied (poll_env a e) = (\<lambda>_. a)" "rdone (poll_env a e) = (\<lambda>_. None)" "rverify (poll_env a e) = None" "rstore (poll_env a e) = (\<lambda>_. e)"
  by (simp_all add: poll_env_def)

lemma poll_env_wait: "waitForIndex (poll_env a e) a = Some (0, None)"
  by (simp add: waitForIndex_def wait_loop.simps [of "poll_env a e"])


text \<open>C37. A session read can miss the write it waits for. \<open>waitForIndex\<close> is meant to block until the local state
  machine has applied the index, but it polls Raft's applied index, which runs ahead of the state machine.
  With the entry of a put at index 3 handed over and not yet consumed, a \<open>read-your-writes\<close> read with
  session index 3 returns at once, without an error, and does not find the key.\<close>

theorem session_read_can_be_stale:
  "\<exists>env. serves [MPut [1] [2] 3] (\<lambda>_. 0) env \<and> rapplied env 0 = 3 \<and>
     router_Get env [1] ReadYourWrites 3 0 = Some (zeroEntry, False, None)"
proof -
  let ?e = "fresh_engine (\<lambda>_. None) []"
  have ok: "eng_ok ?e (\<lambda>_. [])" "layers ?e (\<lambda>_. []) = []" using fresh_engine_ok [of "[]"] by simp_all
  then have v: "eng_view ?e k = None" for k using eng_view_layers [OF ok(1)] by (simp add: visible_def)
  have g: "eng_Get ?e [1] = Some (zeroEntry, False)" by (simp add: eng_Get_layers [OF ok(1)] ok(2) hit_result_def)
  have "serves [MPut [1] [2] 3] (\<lambda>_. 0) (poll_env 3 ?e)"
    using empty_engine_wf v by (auto simp: serves_def intro!: exI [of _ 0])
  moreover have "router_Get (poll_env 3 ?e) [1] ReadYourWrites 3 0 = Some (zeroEntry, False, None)"
    by (simp add: router_Get_def poll_env_wait g)
  ultimately show ?thesis by (intro exI [of _ "poll_env 3 ?e"]) simp
qed

text \<open>C22. \<open>waitForIndex\<close> returns exactly when at some poll the applied index has reached the awaited
  one or the context is done; in particular a negative session index, converted to a huge
  \<open>uint64\<close>, makes the read wait until its context ends.\<close>

theorem wait_returns_iff:
  "(\<exists>r. waitForIndex env index = Some r) \<longleftrightarrow> index = 0 \<or> (\<exists>j. index \<le> rapplied env j \<or> (\<exists>e. rdone env j = Some e))"
proof
  assume "\<exists>r. waitForIndex env index = Some r"
  then obtain y where "index = 0 \<or> wait_loop env index 0 = Some y" by (auto simp: waitForIndex_def split: if_splits)
  then show "index = 0 \<or> (\<exists>j. index \<le> rapplied env j \<or> (\<exists>e. rdone env j = Some e))"
    using wait_loop_result [of env index 0 y] by (cases "snd y") (auto simp: waited_def)
next
  assume "index = 0 \<or> (\<exists>j. index \<le> rapplied env j \<or> (\<exists>e. rdone env j = Some e))"
  then show "\<exists>r. waitForIndex env index = Some r"
    using wait_loop_returns [of index env _ 0] by (fastforce simp: waitForIndex_def)
qed

text \<open>A strong read asks Raft to confirm leadership and then reads the local engine at once,
  whatever its applied index: it shows some prefix of the committed log, and nothing relates that prefix
  to what was committed, or answered by an earlier leader, before the read began.\<close>

theorem strong_read_does_not_wait:
  "router_Get env key Strong sessionIndex minVersion =
     (case rverify env of
        Some e \<Rightarrow> Some (zeroEntry, False, Some e)
      | None \<Rightarrow> map_option (\<lambda>(en, found). (en, found, None)) (eng_Get (rstore env 0) key))"
  by (cases "rverify env"; cases "eng_Get (rstore env 0) key") (auto simp: router_Get_def readIndex_def)

end
