(* ===== verification/Strconv.thy ===== *)
theory Strconv
  imports Prelude
begin

text \<open>
  What the handlers use of Go's \<open>strconv\<close>: \<open>FormatInt(v, 10)\<close>, and the value that
  \<open>ParseInt(s, 10, 64)\<close> and \<open>Atoi(s)\<close> return (every caller drops the error). A string that
  is no number gives 0, a number out of range the nearest \<open>int64\<close>; digits behind an overflow are
  not looked at.
\<close>

definition digit_char :: "nat \<Rightarrow> char" where
  "digit_char d = char_of (48 + d)"

definition digit_value :: "char \<Rightarrow> nat option" where
  "digit_value c = (let n = of_char c :: nat in if 48 \<le> n \<and> n \<le> 57 then Some (n - 48) else None)"

fun show_nat :: "nat \<Rightarrow> string" where
  "show_nat n = (if n < 10 then [digit_char n] else show_nat (n div 10) @ [digit_char (n mod 10)])"

declare show_nat.simps [simp del]

definition FormatInt :: "i64 \<Rightarrow> string" where
  "FormatInt v = (if sint v < 0 then CHR ''-'' # show_nat (nat (- sint v)) else show_nat (nat (sint v)))"

definition maxUint64 :: nat where
  "maxUint64 = 2 ^ 64 - 1"

text \<open>\<open>ParseUint\<close> on the digits: \<open>None\<close> is a syntax error, \<open>False\<close> marks a range error.\<close>

fun parse_uint :: "string \<Rightarrow> nat \<Rightarrow> (nat \<times> bool) option" where
  "parse_uint [] n = Some (n, True)"
| "parse_uint (c # cs) n =
     (case digit_value c of
        None \<Rightarrow> None
      | Some d \<Rightarrow>
          if n \<ge> maxUint64 div 10 + 1 then Some (maxUint64, False)
          else if n * 10 + d > maxUint64 then Some (maxUint64, False)
          else parse_uint cs (n * 10 + d))"

definition ParseUint :: "string \<Rightarrow> (nat \<times> bool) option" where
  "ParseUint s = (if s = [] then None else parse_uint s 0)"

definition parse_magnitude :: "bool \<Rightarrow> string \<Rightarrow> int \<times> bool" where
  "parse_magnitude neg s =
     (case ParseUint s of
        None \<Rightarrow> (0, False)
      | Some (un, ok) \<Rightarrow>
          if \<not> neg \<and> un \<ge> 2 ^ 63 then (2 ^ 63 - 1, False)
          else if neg \<and> un > 2 ^ 63 then (- (2 ^ 63), False)
          else (if neg then - int un else int un, True))"

definition parse_int :: "string \<Rightarrow> int \<times> bool" where
  "parse_int s =
     (case s of
        [] \<Rightarrow> (0, False)
      | c # cs \<Rightarrow>
          if c = CHR ''+'' then parse_magnitude False cs
          else if c = CHR ''-'' then parse_magnitude True cs
          else parse_magnitude False s)"

text \<open>The value of \<open>ParseInt\<close> when its error is dropped, and when it is not.\<close>

definition ParseInt :: "string \<Rightarrow> i64" where
  "ParseInt s = word_of_int (fst (parse_int s))"

definition ParseInt_checked :: "string \<Rightarrow> i64 option" where
  "ParseInt_checked s = (if snd (parse_int s) then Some (word_of_int (fst (parse_int s))) else None)"

subsection \<open>Round trip\<close>

lemma digit_value_char: "d < 10 \<Longrightarrow> digit_value (digit_char d) = Some d"
  by (simp add: digit_value_def digit_char_def Let_def)

lemma digit_char_neq: "d < 10 \<Longrightarrow> digit_char d \<noteq> CHR ''+'' \<and> digit_char d \<noteq> CHR ''-''"
proof -
  assume "d < 10"
  then have "digit_value (digit_char d) \<noteq> None" by (simp add: digit_value_char)
  moreover have "digit_value (CHR ''+'') = None" "digit_value (CHR ''-'') = None" by (simp_all add: digit_value_def)
  ultimately show ?thesis by metis
qed

lemma parse_digit:
  assumes "n \<le> 2 ^ 63"
  shows "parse_uint (digit_char (n mod 10) # rest) (n div 10) = parse_uint rest n"
proof -
  have "n div 10 < maxUint64 div 10 + 1" "n div 10 * 10 + n mod 10 \<le> maxUint64"
    using assms by (simp_all add: maxUint64_def)
  then show ?thesis using digit_value_char [of "n mod 10"] by simp
qed

lemma parse_show: "n \<le> 2 ^ 63 \<Longrightarrow> parse_uint (show_nat n @ rest) 0 = parse_uint rest n"
proof (induction n arbitrary: rest rule: show_nat.induct)
  case (1 n)
  show ?case
  proof (cases "n < 10")
    case True
    then show ?thesis using parse_digit [OF "1.prems", of rest] by (simp add: show_nat.simps [of n])
  next
    case False
    have "n div 10 \<le> 2 ^ 63" using "1.prems" by simp
    then have "parse_uint (show_nat n @ rest) 0 = parse_uint (digit_char (n mod 10) # rest) (n div 10)"
      using "1.IH" [OF False, of "digit_char (n mod 10) # rest"] False by (simp add: show_nat.simps [of n])
    then show ?thesis using parse_digit [OF "1.prems", of rest] by simp
  qed
qed

lemma show_nat_head: "\<exists>d cs. d < 10 \<and> show_nat n = digit_char d # cs"
proof (induction n rule: show_nat.induct)
  case (1 n)
  then show ?case by (cases "n < 10") (auto simp: show_nat.simps [of n])
qed

lemma parse_magnitude_show: "n \<le> 2 ^ 63 \<Longrightarrow> \<not> neg \<longrightarrow> n < 2 ^ 63 \<Longrightarrow>
    parse_magnitude neg (show_nat n) = (if neg then - int n else int n, True)"
  using parse_show [of n "[]"] show_nat_head [of n] by (auto simp: parse_magnitude_def ParseUint_def)

lemma parse_int_FormatInt: "parse_int (FormatInt v) = (sint v, True)"
proof -
  have r: "- (2 ^ 63) \<le> sint v" "sint v < 2 ^ 63"
    using sint_ge [of v] sint_lt [of v] by simp_all
  show ?thesis
  proof (cases "sint v < 0")
    case True
    then show ?thesis
      using r parse_magnitude_show [of "nat (- sint v)" True] by (simp add: parse_int_def FormatInt_def)
  next
    case False
    obtain d cs where d: "d < 10" "show_nat (nat (sint v)) = digit_char d # cs" using show_nat_head by blast
    have "parse_magnitude False (show_nat (nat (sint v))) = (sint v, True)"
      using False r parse_magnitude_show [of "nat (sint v)" False] by simp
    then show ?thesis using False d digit_char_neq [OF d(1)] by (simp add: parse_int_def FormatInt_def)
  qed
qed

lemma ParseInt_FormatInt [simp]: "ParseInt (FormatInt v) = v" "ParseInt_checked (FormatInt v) = Some v"
  by (simp_all add: ParseInt_def ParseInt_checked_def parse_int_FormatInt)

lemma FormatInt_0: "FormatInt 0 = ''0''"
  by (simp add: FormatInt_def show_nat.simps digit_char_def) code_simp

lemma ParseUint_show: "n \<le> 2 ^ 63 \<Longrightarrow> ParseUint (show_nat n) = Some (n, True)"
  using parse_show [of n "[]"] show_nat_head [of n] by (auto simp: ParseUint_def)

end
