(* ===== verification/Cluster.thy ===== *)
theory Cluster
  imports Batch Router
begin

text \<open>
  The node around the state machine. A replica is an engine configuration of \<open>EngineRuns\<close>
  with its watch hub, the log entries it has applied and the responses it gave. It applies the next
  committed entry (\<open>FSM.Apply\<close>), whether the store takes the write or fails, serves its hub, or lets the
  flush or the compaction goroutine take a step; the order is free. Raft itself is not modelled: the
  committed log is a list, and a replica applies it from the front. A replica is sound (\<open>rsound\<close>) as
  long as the run of its engine is and its store has failed no write.

  Readers (\<open>Router\<close>) see engines that reflect the log (\<open>tracks\<close>); \<open>Lifetime\<close> shows that the engine of a
  node does, also after restarts.
\<close>

record replica =
  rconf :: config
  rhub :: hub
  rlog :: "raftlog list"
  rresp :: "response list"

definition applied_config :: "(bytes \<Rightarrow> command option) \<Rightarrow> engine \<Rightarrow> raftlog \<Rightarrow> bool \<Rightarrow> config \<Rightarrow> config" where
  "applied_config cdec e l failed c =
     (case log_op cdec l of
        None \<Rightarrow> c\<lparr>ceng := e\<rparr>
      | Some op \<Rightarrow>
          if failed then c\<lparr>ceng := e, clogged := clogged c @ [op], cclean := False\<rparr>
          else c\<lparr>ceng := e, chist := chist c @ [op], clogged := clogged c @ [op]\<rparr>)"

inductive replica_step ::
  "(walRecord \<Rightarrow> bytes) \<Rightarrow> (bytes \<Rightarrow> command option) \<Rightarrow> size_sort \<Rightarrow> replica \<Rightarrow> replica \<Rightarrow> bool"
  for enc cdec srt where
  apply_entry: "fsm_Apply enc cdec draw (NewFSM (ceng (rconf r)) (rhub r)) l = Some (f, resp) \<Longrightarrow>
     replica_step enc cdec srt r
       (r\<lparr>rconf := applied_config cdec (fstore f) l (store_failed resp) (rconf r), rhub := fwatcher f,
          rlog := rlog r @ [l], rresp := rresp r @ [resp]\<rparr>)"
| background: "bg_step srt (rconf r) c \<Longrightarrow> replica_step enc cdec srt r (r\<lparr>rconf := c\<rparr>)"
| watching: "hub_exec (rhub r) hop = Some h \<Longrightarrow> replica_step enc cdec srt r (r\<lparr>rhub := h\<rparr>)"

inductive replica_reach ::
  "(walRecord \<Rightarrow> bytes) \<Rightarrow> (bytes \<Rightarrow> command option) \<Rightarrow> size_sort \<Rightarrow> replica \<Rightarrow> replica \<Rightarrow> bool"
  for enc cdec srt where
  here: "replica_reach enc cdec srt r r"
| extend: "replica_reach enc cdec srt r r' \<Longrightarrow> replica_step enc cdec srt r' r'' \<Longrightarrow> replica_reach enc cdec srt r r''"

definition new_replica :: "(bytes \<Rightarrow> walRecord option) \<Rightarrow> bytes \<Rightarrow> engine \<Rightarrow> replica" where
  "new_replica dec f e = \<lparr>rconf = start dec f e, rhub = NewHub, rlog = [], rresp = []\<rparr>"

text \<open>The writes of a list of log entries.\<close>

definition log_writes :: "(bytes \<Rightarrow> command option) \<Rightarrow> raftlog list \<Rightarrow> mem_op list" where
  "log_writes cdec ls = List.map_filter (log_op cdec) ls"

lemma log_writes_simps [simp]:
  "log_writes cdec [] = []"
  "log_writes cdec (ls @ ms) = log_writes cdec ls @ log_writes cdec ms"
  "log_writes cdec [l] = (case log_op cdec l of None \<Rightarrow> [] | Some op \<Rightarrow> [op])"
  by (simp_all add: log_writes_def map_filter_def split: option.split)

definition rsound :: "replica \<Rightarrow> bool" where
  "rsound r \<longleftrightarrow> csound (rconf r) \<and> cclean (rconf r)"

definition replica_inv :: "(bytes \<Rightarrow> command option) \<Rightarrow> mem_op list \<Rightarrow> replica \<Rightarrow> bool" where
  "replica_inv cdec base r \<longleftrightarrow> eng_inv (rconf r) \<and> hub_ok (rhub r) \<and> cbase (rconf r) = base \<and>
     clogged (rconf r) = log_writes cdec (rlog r) \<and>
     list_all2 (\<lambda>l resp. resp = log_response cdec l \<or> store_failed resp) (rlog r) (rresp r) \<and>
     (cclean (rconf r) \<longrightarrow> chist (rconf r) = clogged (rconf r) \<and> rresp r = map (log_response cdec) (rlog r))"

subsection \<open>Replicas\<close>

lemma log_response_ok [simp]: "\<not> store_failed (log_response cdec l)"
  by (auto simp: store_failed_def log_response_def split: option.splits)

lemma Notify_keeps: "hub_ok h \<Longrightarrow> Notify h ev = Some h' \<Longrightarrow> hub_ok h'"
  using Notify_ok [of h ev] by auto

lemma fsm_Apply_result:
  assumes "fsm_Apply enc cdec draw f l = Some (f', resp)"
  shows "case log_op cdec l of
       None \<Rightarrow> f' = f \<and> resp = log_response cdec l \<and> \<not> store_failed resp
     | Some op \<Rightarrow> \<exists>err. eng_apply enc draw (fstore f) op = Some (fstore f', err) \<and> (store_failed resp \<longleftrightarrow> err \<noteq> None) \<and>
         (if err = None then resp = log_response cdec l \<and> Notify (fwatcher f) (op_event op) = Some (fwatcher f')
          else fwatcher f' = fwatcher f)"
proof (cases "log_op cdec l")
  case None
  then show ?thesis using assms fsm_Apply_none [OF None] by auto
next
  case (Some op)
  then obtain e err where e: "eng_apply enc draw (fstore f) op = Some (e, err)"
    using assms by (auto simp: fsm_Apply_some [OF Some] split: Option.bind_splits)
  show ?thesis
  proof (cases err)
    case None
    then show ?thesis using assms e Some by (auto simp: fsm_Apply_some [OF Some] split: Option.bind_splits)
  next
    case (Some x)
    then show ?thesis using assms e \<open>log_op cdec l = Some op\<close>
      by (auto simp: fsm_Apply_some [OF \<open>log_op cdec l = Some op\<close>] store_failed_def)
  qed
qed

text \<open>A step of a replica is none or one of its engine.\<close>

lemma replica_step_config:
  assumes "replica_step enc cdec srt r r'"
  shows "rconf r' = rconf r \<or> eng_step enc srt (rconf r) (rconf r')"
  using assms
proof cases
  case (apply_entry draw l f resp)
  note res = fsm_Apply_result [OF apply_entry(2)]
  show ?thesis
  proof (cases "log_op cdec l")
    case None
    then show ?thesis using res apply_entry(1) by (simp add: applied_config_def NewFSM_def)
  next
    case (Some op)
    obtain err where e: "eng_apply enc draw (ceng (rconf r)) op = Some (fstore f, err)" "store_failed resp \<longleftrightarrow> err \<noteq> None"
      using res Some by (auto simp: NewFSM_def)
    then show ?thesis
      using eng_step.write_ok [of enc draw "rconf r" op "fstore f" srt] eng_step.write_err [of enc draw "rconf r" op "fstore f" _ srt]
        apply_entry(1) Some by (cases err) (auto simp: applied_config_def)
  qed
qed (auto intro: eng_step.background)

lemma replica_step_inv:
  assumes "replica_step enc cdec srt r r'" "sorts_by_size srt" "replica_inv cdec base r"
  shows "replica_inv cdec base r'"
proof -
  have inv: "eng_inv (rconf r')" "cbase (rconf r') = base"
    using replica_step_config [OF assms(1)] assms(2,3) inv_step eng_step_keeps by (fastforce simp: replica_inv_def)+
  from assms(1) show ?thesis
  proof cases
    case (apply_entry draw l f resp)
    note res = fsm_Apply_result [OF apply_entry(2)]
    have hub: "hub_ok (fwatcher f)"
      using res assms(3) Notify_keeps [of "rhub r" _ "fwatcher f"]
      by (auto simp: replica_inv_def NewFSM_def split: option.splits if_splits)
    show ?thesis
      using inv hub res assms(3) apply_entry(1)
      by (cases "log_op cdec l")
        (auto simp: replica_inv_def applied_config_def list_all2_appendI split: if_splits)
  next
    case (background c)
    then show ?thesis using inv assms(3) bg_step_keeps by (fastforce simp: replica_inv_def)
  next
    case (watching hop h)
    then show ?thesis using hub_exec_ok [of "rhub r" hop] assms(3) by (auto simp: replica_inv_def)
  qed
qed

lemma replica_step_keeps:
  assumes "replica_step enc cdec srt r r'"
  shows "(rsound r' \<longrightarrow> rsound r) \<and> (\<exists>more more'. rlog r' = rlog r @ more \<and> rresp r' = rresp r @ more' \<and> length more = length more')"
proof -
  have "rsound r' \<longrightarrow> rsound r" using replica_step_config [OF assms] eng_step_keeps by (fastforce simp: rsound_def)
  moreover from assms have "\<exists>more more'. rlog r' = rlog r @ more \<and> rresp r' = rresp r @ more' \<and> length more = length more'"
    by cases auto
  ultimately show ?thesis by blast
qed

lemma replica_reach_inv:
  "replica_reach enc cdec srt r r' \<Longrightarrow> sorts_by_size srt \<Longrightarrow> replica_inv cdec base r \<Longrightarrow> replica_inv cdec base r'"
  by (induction rule: replica_reach.induct) (auto intro: replica_step_inv)

lemma new_replica_inv:
  "eng_Open dec draws None script (Some f) tabs mb = Some (Inr e) \<Longrightarrow> replica_inv cdec (log_ops dec f) (new_replica dec f e)"
  using inv_start [of dec draws script f tabs mb e] hub_ok_New
  by (simp add: replica_inv_def new_replica_def) (simp add: start_def)

lemma replica_view:
  "replica_inv cdec base r \<Longrightarrow> rsound r \<Longrightarrow> eng_view (ceng (rconf r)) k = last_write (base @ log_writes cdec (rlog r)) k"
  using inv_view [of "rconf r" k] by (auto simp: replica_inv_def rsound_def history_def)

lemma replica_wf: "replica_inv cdec base r \<Longrightarrow> rsound r \<Longrightarrow> eng_wf (ceng (rconf r))"
  using inv_wf by (auto simp: replica_inv_def rsound_def)

subsection \<open>Readers of a replica\<close>

text \<open>An engine that reflects the first \<open>p\<close> entries of the committed log: it shows every key as a prefix of
  the log leaves it that is at least this long. \<open>tracks\<close> connects such engines to the environment of a
  reader: an entry counts as consumed only after its \<open>Apply\<close> has returned.\<close>

definition reflects :: "(bytes \<Rightarrow> command option) \<Rightarrow> raftlog list \<Rightarrow> nat \<Rightarrow> engine \<Rightarrow> bool" where
  "reflects cdec ls p e \<longleftrightarrow> eng_wf e \<and> (\<forall>k. \<exists>m. p \<le> m \<and> eng_view e k = last_write (log_writes cdec (take m ls)) k)"

definition tracks :: "(bytes \<Rightarrow> command option) \<Rightarrow> raftlog list \<Rightarrow> (nat \<Rightarrow> u64) \<Rightarrow> renv \<Rightarrow> bool" where
  "tracks cdec ls fsm env \<longleftrightarrow> (\<forall>i. \<exists>p. reflects cdec ls p (rstore env i) \<and> (\<forall>l\<in>set (drop p ls). fsm i < lIndex l))"

lemma tracks_read:
  assumes "tracks cdec ls fsm env" "eng_Get (rstore env i) k = Some (en, found)"
  shows "\<exists>m. (case last_write (log_writes cdec (take m ls)) k of None \<Rightarrow> \<not> found | Some x \<Rightarrow> found \<and> en = x) \<and>
    (\<forall>l\<in>set (drop m ls). fsm i < lIndex l)"
proof -
  obtain p m where p: "eng_wf (rstore env i)" "p \<le> m" "eng_view (rstore env i) k = last_write (log_writes cdec (take m ls)) k"
      "\<forall>l\<in>set (drop p ls). fsm i < lIndex l"
    using assms(1) unfolding tracks_def reflects_def by blast
  then show ?thesis
    using eng.get_law [OF p(1), of k] assms(2) set_drop_subset_set_drop [OF p(2), of ls]
    by (intro exI [of _ m]) (auto split: option.split)
qed

lemma log_op_ver: "log_op cdec l = Some op \<Longrightarrow> op_ver op = lIndex l"
  by (auto simp: log_op_def split: if_splits option.splits)

lemma log_writes_ver: "op \<in> set (log_writes cdec ls) \<Longrightarrow> \<exists>l\<in>set ls. op_ver op = lIndex l"
  using log_op_ver by (fastforce simp: log_writes_def map_filter_def)

text \<open>The environment of a reader of a replica has what \<open>Router\<close> assumes of it.\<close>

lemma tracks_serves:
  assumes "tracks cdec ls fsm env"
  shows "serves (log_writes cdec ls) fsm env"
  unfolding serves_def
proof
  fix i
  obtain p where p: "reflects cdec ls p (rstore env i)" "\<forall>l\<in>set (drop p ls). fsm i < lIndex l"
    using assms unfolding tracks_def by blast
  let ?n = "\<lambda>m. length (log_writes cdec (take m ls))"
  have split: "log_writes cdec ls = log_writes cdec (take m ls) @ log_writes cdec (drop m ls)" for m
    by (metis append_take_drop_id log_writes_simps(2))
  have take: "take (?n m) (log_writes cdec ls) = log_writes cdec (take m ls)" for m by (simp add: split [of m])
  have "?n p \<le> ?n m" if "p \<le> m" for m
  proof -
    have "take m ls = take p ls @ take (m - p) (drop p ls)" using that by (metis le_add_diff_inverse take_add)
    then show ?thesis by simp
  qed
  then have "\<forall>k. \<exists>n. ?n p \<le> n \<and> eng_view (rstore env i) k = last_write (take n (log_writes cdec ls)) k"
    using p(1) take unfolding reflects_def by metis
  moreover have "\<forall>op\<in>set (drop (?n p) (log_writes cdec ls)). fsm i < op_ver op"
    using log_writes_ver [of _ cdec "drop p ls"] p(2) by (fastforce simp: split [of p])
  ultimately show "eng_wf (rstore env i) \<and> (\<exists>n. (\<forall>k. \<exists>m. n \<le> m \<and> eng_view (rstore env i) k = last_write (take m (log_writes cdec ls)) k) \<and>
      (\<forall>op\<in>set (drop n (log_writes cdec ls)). fsm i < op_ver op))"
    using p(1) by (auto simp: reflects_def)
qed

text \<open>What an answer without an error and with a version other than 0 tells: the state machine applied
  a log entry with the command's bytes at that index.\<close>

lemma propose_version:
  assumes "propose marshal rapply r req = (r', \<lparr>brVersion = v, brErr = None\<rparr>)" "v \<noteq> 0"
  shows "\<exists>d. marshal (brCmd req) = Inr d \<and> rapply r d = (r', None, ApplyResult v)"
  using assms by (auto simp: propose_def split: sum.splits prod.splits option.splits response.splits)

lemma fsm_Apply_version:
  assumes "fsm_Apply enc cdec draw f l = Some (f', ApplyResult v)"
  shows "v = lIndex l \<and> log_op cdec l \<noteq> None"
  using fsm_Apply_result [OF assms] by (auto simp: store_failed_def log_response_def split: if_splits option.splits)

lemma replica_answer:
  assumes "replica_inv cdec base r" "(l, ApplyResult v) \<in> set (zip (rlog r) (rresp r))"
  shows "v = lIndex l \<and> log_op cdec l \<noteq> None"
proof -
  have "ApplyResult v = log_response cdec l"
    using assms unfolding replica_inv_def list_all2_iff by (fastforce simp: store_failed_def)
  then show ?thesis by (auto simp: log_response_def split: if_splits option.splits)
qed

subsection \<open>Write endpoints\<close>

text \<open>What a handler that takes writes promises: a reply that carries a version stands for a command that
  was proposed last, got that version and left Raft in the state that the handler leaves.\<close>

locale write_endpoint =
  fixes marshal :: "command \<Rightarrow> bytes result" and rapply :: "'r raft_apply" and raft_of :: "'n \<Rightarrow> 'r"
    and call :: "'n \<Rightarrow> 'q \<Rightarrow> ('n \<times> 'p) option" and version_of :: "'p \<Rightarrow> i64 option" and cmd_of :: "'q \<Rightarrow> command"
  assumes acknowledged: "call n q = Some (n', p) \<Longrightarrow> version_of p = Some v \<Longrightarrow>
    \<exists>b s. brCmd b = cmd_of q \<and> propose marshal rapply s b = (raft_of n', \<lparr>brVersion = v, brErr = None\<rparr>)"
begin

lemma answered:
  assumes "call n q = Some (n', p)" "version_of p = Some v" "v \<noteq> 0"
  shows "\<exists>s d. marshal (cmd_of q) = Inr d \<and> rapply s d = (raft_of n', None, ApplyResult v)"
  using acknowledged [OF assms(1,2)] propose_version [OF _ assms(3)] by metis

lemma committed:
  assumes raft: "\<And>s s' d resp. rapply s d = (s', None, resp) \<Longrightarrow> \<exists>l\<in>set ls. lType l = LogCommand \<and> lData l = d \<and>
      (\<exists>draw f f'. fsm_Apply enc cdec draw f l = Some (f', resp))"
    and "call n q = Some (n', p)" "version_of p = Some v" "v \<noteq> 0"
  shows "\<exists>l\<in>set ls. lIndex l = v \<and> marshal (cmd_of q) = Inr (lData l) \<and> log_op cdec l \<noteq> None"
  using answered [OF assms(2-4)] raft fsm_Apply_version by metis

text \<open>A read that waited for the version of an acknowledged command shows the state after a prefix of the
  committed log with the command in it, unless the state machine lagged behind the applied index. Raft is
  assumed to answer \<open>Apply\<close> without an error only for a command in the committed log, with what the
  state machine returned for it.\<close>

lemma read_back:
  assumes raft: "\<And>s s' d resp. rapply s d = (s', None, resp) \<Longrightarrow> \<exists>l\<in>set ls. lType l = LogCommand \<and> lData l = d \<and>
      (\<exists>draw f f'. fsm_Apply enc cdec draw f l = Some (f', resp))"
    and wrote: "call n q = Some (n', p)" "version_of p = Some v" "v \<noteq> 0"
    and replica: "tracks cdec ls fsm env"
    and read: "router_Get env key ReadYourWrites v minVersion = Some (en, found, None)"
  shows "\<exists>i j l. l \<in> set ls \<and> lIndex l = v \<and> marshal (cmd_of q) = Inr (lData l) \<and> log_op cdec l \<noteq> None \<and>
    (case last_write (log_writes cdec (take i ls)) key of None \<Rightarrow> \<not> found | Some x \<Rightarrow> found \<and> en = x) \<and>
    v \<le> rapplied env j \<and> (l \<in> set (take i ls) \<or> fsm j < v)"
proof -
  obtain l where l: "l \<in> set ls" "lIndex l = v" "marshal (cmd_of q) = Inr (lData l)" "log_op cdec l \<noteq> None"
    using committed [OF _ wrote] raft by metis
  obtain j where j: "eng_Get (rstore env j) key = Some (en, found)" "v \<le> rapplied env j"
    using router_Get_poll [OF read] by (auto simp: awaited_def)
  obtain m where m: "case last_write (log_writes cdec (take m ls)) key of None \<Rightarrow> \<not> found | Some x \<Rightarrow> found \<and> en = x"
      "\<forall>l\<in>set (drop m ls). fsm j < lIndex l"
    using tracks_read [OF replica j(1)] by blast
  have "l \<in> set (take m ls) \<or> fsm j < v"
    using m(2) l(1,2) by (metis Un_iff append_take_drop_id set_append)
  then show ?thesis using l j(2) m(1) by blast
qed

end

subsection \<open>A short run\<close>

definition demo_cmd :: command where
  "demo_cmd = \<lparr>cType = CmdPut, cKey = [1], cValue = [2], cTTL = 0\<rparr>"

definition demo_entry :: raftlog where
  "demo_entry = \<lparr>lType = LogCommand, lIndex = 3, lData = []\<rparr>"

lemma demo_log_op: "log_op (\<lambda>_. Some demo_cmd) demo_entry = Some (MPut [1] [2] 3)"
  by (simp add: log_op_def demo_entry_def demo_cmd_def)

lemma one_entry_applied:
  assumes "eng_Open dec draws None [] (Some img) tabs mb = Some (Inr e)" "log_op cdec l = Some op"
  shows "\<exists>f r. fsm_Apply enc cdec draw (NewFSM e NewHub) l = Some (f, ApplyResult (lIndex l)) \<and>
     replica_step enc cdec srt (new_replica dec img e) r \<and>
     rlog r = [l] \<and> rresp r = [ApplyResult (lIndex l)] \<and> cpc (rconf r) = Idle \<and> rsound r \<and>
     eng_ok (ceng (rconf r)) (\<lambda>_. []) \<and> contents (ememtable (ceng (rconf r))) = apply_op op (fold apply_op (log_ops dec img) []) \<and>
     eimmutable (ceng (rconf r)) = None \<and> ctables (ecompact (ceng (rconf r))) = []"
proof -
  have e: "eng_ok e (\<lambda>_. [])" "ewal e = wal_Open img []" "contents (ememtable e) = fold apply_op (log_ops dec img) []"
      "eimmutable e = None" "ctables (ecompact e) = []"
    using eng_Open_ok [of dec draws "[]" img tabs mb "\<lambda>_. []"] assms(1) by auto
  have "calm (bw (ewal e))" by (simp add: e(2) calm_def wal_Open_def NewWriterSize_def)
  then obtain e1 where e1: "eng_apply enc draw e op = Some (e1, None)" using eng_apply_calm [OF e(1)] by blast
  obtain h where h: "Notify NewHub (op_event op) = Some h" using Notify_ok [OF hub_ok_New] by blast
  have resp: "log_response cdec l = ApplyResult (lIndex l)"
    using assms(2) by (auto simp: log_response_def log_op_def split: if_splits option.splits)
  have run: "fsm_Apply enc cdec draw (NewFSM e NewHub) l = Some (NewFSM e1 h, ApplyResult (lIndex l))"
    using e1 h resp by (simp add: fsm_Apply_some [OF assms(2)] NewFSM_def)
  then obtain r where "replica_step enc cdec srt (new_replica dec img e) r" "rlog r = [l]" "rresp r = [ApplyResult (lIndex l)]"
      "cpc (rconf r) = Idle" "rsound r" "ceng (rconf r) = e1"
    using replica_step.apply_entry [of enc cdec draw "new_replica dec img e" l "NewFSM e1 h" "ApplyResult (lIndex l)" srt]
    by (fastforce simp: new_replica_def start_def applied_config_def store_failed_def NewFSM_def rsound_def assms(2))
  then show ?thesis using e run eng_apply_spec [OF e(1) e1] by (intro exI [of _ "NewFSM e1 h"] exI [of _ r]) simp
qed

lemma one_entry_replica:
  assumes "log_op cdec l = Some op"
  shows "\<exists>e f r. eng_Open dec draws None [] (Some []) (\<lambda>_. None) 1 = Some (Inr e) \<and>
     fsm_Apply enc cdec draw (NewFSM e NewHub) l = Some (f, ApplyResult (lIndex l)) \<and>
     replica_reach enc cdec srt (new_replica dec [] e) r \<and>
     rlog r = [l] \<and> rresp r = [ApplyResult (lIndex l)] \<and> cpc (rconf r) = Idle \<and> rsound r \<and>
     eng_ok (ceng (rconf r)) (\<lambda>_. []) \<and> contents (ememtable (ceng (rconf r))) = apply_op op [] \<and>
     eimmutable (ceng (rconf r)) = None \<and> ctables (ecompact (ceng (rconf r))) = []"
proof -
  obtain e where e: "eng_Open dec draws None [] (Some []) (\<lambda>_. None) 1 = Some (Inr e)" using eng_Open_ok by blast
  have "replica_reach enc cdec srt (new_replica dec [] e) r" if "replica_step enc cdec srt (new_replica dec [] e) r" for r
    using that by (meson replica_reach.intros)
  then show ?thesis using one_entry_applied [OF e assms, of enc draw srt] e by fastforce
qed

lemma demo_replica:
  "\<exists>e f r. eng_Open demo_dec draws None [] (Some []) (\<lambda>_. None) 1 = Some (Inr e) \<and>
     fsm_Apply (\<lambda>_. []) (\<lambda>_. Some demo_cmd) draw (NewFSM e NewHub) demo_entry = Some (f, ApplyResult 3) \<and>
     replica_reach (\<lambda>_. []) (\<lambda>_. Some demo_cmd) srt (new_replica demo_dec [] e) r \<and>
     rlog r = [demo_entry] \<and> cpc (rconf r) = Idle \<and> rsound r \<and> eimmutable (ceng (rconf r)) = None"
  using one_entry_replica [OF demo_log_op, of demo_dec draws "\<lambda>_. []" draw srt] by (auto simp: demo_entry_def)

lemma replica_flush:
  assumes "replica_reach enc cdec srt r0 r" "cpc (rconf r) = Idle" "rsound r" "eimmutable (ceng (rconf r)) = None"
  shows "\<exists>r'. replica_reach enc cdec srt r0 r' \<and> rlog r' = rlog r \<and> ceng (rconf r') = snd (flush_begin (ceng (rconf r))) \<and> rsound r'"
proof -
  obtain b e where fb: "flush_begin (ceng (rconf r)) = (b, e)" by fastforce
  let ?r = "r\<lparr>rconf := (rconf r)\<lparr>ceng := e, cpc := (if b then Writing else cpc (rconf r)),
    csound := (csound (rconf r) \<and> (b \<longrightarrow> eimmutable (ceng (rconf r)) = None))\<rparr>\<rparr>"
  have "replica_step enc cdec srt r ?r"
    by (rule replica_step.background) (rule bg_step.begin_flush [OF disjI1 [OF assms(2)] fb])
  then have "replica_reach enc cdec srt r0 ?r" by (rule replica_reach.extend [OF assms(1)])
  moreover have "rsound ?r" using assms(3,4) by (simp add: rsound_def)
  ultimately show ?thesis using fb by (intro exI [of _ ?r]) simp
qed

end
