(* ===== verification/Grpc.thy ===== *)
theory Grpc
  imports Node Router Strconv Cluster
begin

text \<open>
  \<open>internal/api/grpc/server.go\<close>: the handlers of the KVService. A handler returns a status error
  (\<open>Inl\<close>) or a response; metrics and logging are left out. The batch writer is the node's, reads
  go through the router's environment, and \<open>Watch\<close> is split at its blocking receive.
\<close>

datatype code = InvalidArgument | Unavailable | Internal

datatype status_msg = KeyMustNotBeEmpty | NotLeaderContact string | OpFailed string goerror

type_synonym 'a rpc = "(code \<times> status_msg) + 'a"

record putRequest =
  prKey :: bytes
  prValue :: bytes
  prTtlSeconds :: i64

record writeResponse =
  wrSuccess :: bool
  wrRaftIndex :: i64

record getRequest =
  grKey :: bytes
  grConsistency :: string
  grSessionIndex :: i64
  grMinVersion :: i64

record getResponse =
  gpFound :: bool
  gpValue :: bytes
  gpVersion :: i64

record keyValue =
  kvKey :: bytes
  kvValue :: bytes
  kvVersion :: i64

definition grpc_Put ::
  "(command \<Rightarrow> bytes result) \<Rightarrow> 'r raft_apply \<Rightarrow> 'r node \<Rightarrow> putRequest \<Rightarrow> ('r node \<times> writeResponse rpc) option" where
  "grpc_Put marshal rapply n req =
     (if prKey req = [] then Some (n, Inl (InvalidArgument, KeyMustNotBeEmpty))
      else if \<not> IsLeader n then Some (n, Inl (Unavailable, NotLeaderContact (LeaderAddr n)))
      else do {
        (b, res) \<leftarrow> Submit_wait marshal rapply (nBatch n)
          \<lparr>cType = CmdPut, cKey = prKey req, cValue = prValue req, cTTL = prTtlSeconds req\<rparr>;
        Some (n\<lparr>nBatch := b\<rparr>,
          case brErr res of
            Some e \<Rightarrow> Inl (Internal, OpFailed ''put failed'' e)
          | None \<Rightarrow> Inr \<lparr>wrSuccess = True, wrRaftIndex = brVersion res\<rparr>)
      })"

definition grpc_Delete ::
  "(command \<Rightarrow> bytes result) \<Rightarrow> 'r raft_apply \<Rightarrow> 'r node \<Rightarrow> bytes \<Rightarrow> ('r node \<times> writeResponse rpc) option" where
  "grpc_Delete marshal rapply n key =
     (if key = [] then Some (n, Inl (InvalidArgument, KeyMustNotBeEmpty))
      else if \<not> IsLeader n then Some (n, Inl (Unavailable, NotLeaderContact (LeaderAddr n)))
      else do {
        (b, res) \<leftarrow> Submit_wait marshal rapply (nBatch n)
          \<lparr>cType = CmdDelete, cKey = key, cValue = [], cTTL = 0\<rparr>;
        Some (n\<lparr>nBatch := b\<rparr>,
          case brErr res of
            Some e \<Rightarrow> Inl (Internal, OpFailed ''delete failed'' e)
          | None \<Rightarrow> Inr \<lparr>wrSuccess = True, wrRaftIndex = brVersion res\<rparr>)
      })"

text \<open>The mode of a request: its own field, else the first value of the \<open>x-consistency\<close> metadata,
  else eventual. \<open>None\<close> is a context without metadata.\<close>

definition consistencyMode :: "string list option \<Rightarrow> string \<Rightarrow> mode" where
  "consistencyMode md fromRequest =
     (if fromRequest \<noteq> '''' then Mode fromRequest
      else (case md of Some (v # vals) \<Rightarrow> Mode v | _ \<Rightarrow> Eventual))"

definition grpc_Get :: "renv \<Rightarrow> string list option \<Rightarrow> getRequest \<Rightarrow> getResponse rpc option" where
  "grpc_Get env md req = do {
     (en, found, err) \<leftarrow> router_Get env (grKey req) (consistencyMode md (grConsistency req))
       (grSessionIndex req) (grMinVersion req);
     Some (case err of
        Some e \<Rightarrow> Inl (Internal, OpFailed ''get failed'' e)
      | None \<Rightarrow> Inr \<lparr>gpFound = found, gpValue = Value en, gpVersion = Version en\<rparr>)
   }"

definition grpc_Scan :: "(entry list \<Rightarrow> entry list) \<Rightarrow> engine \<Rightarrow> bytes \<Rightarrow> 32 word \<Rightarrow> keyValue list option" where
  "grpc_Scan order e pfx limit = do {
     entries \<leftarrow> eng_Scan order e pfx (sint limit);
     Some (map (\<lambda>en. \<lparr>kvKey = Key en, kvValue = Value en, kvVersion = Version en\<rparr>) entries)
   }"

subsection \<open>Watch\<close>

datatype pbType = PUT | DELETE

record watchEvent =
  weType :: pbType
  weKey :: bytes
  weValue :: bytes
  weVersion :: i64

definition watch_event :: "event \<Rightarrow> watchEvent" where
  "watch_event evt = \<lparr>weType = (if evType evt = EventDelete then DELETE else PUT), weKey = evKey evt,
     weValue = evValue evt, weVersion = evVersion evt\<rparr>"

text \<open>A turn of the loop of \<open>Watch\<close>: the hub, what has been sent, and the result once the handler has
  returned. \<open>ctxDone\<close> tells that the \<open>select\<close> takes the context's case, \<open>sendErr\<close> is the
  outcome of \<open>Send\<close>. The deferred \<open>Unsubscribe\<close> runs at every return.\<close>

definition Watch_turn ::
  "hub \<Rightarrow> u64 \<Rightarrow> nat \<Rightarrow> watchEvent list \<Rightarrow> bool \<Rightarrow> goerror option \<Rightarrow>
   (hub \<times> watchEvent list \<times> goerror option option) option" where
  "Watch_turn h sid ch sent ctxDone sendErr =
     (if ctxDone then do { h' \<leftarrow> Unsubscribe h sid; Some (h', sent, Some None) }
      else (case receive h ch of
          (h1, Blocked) \<Rightarrow> Some (h1, sent, None)
        | (h1, Ended) \<Rightarrow> do { h' \<leftarrow> Unsubscribe h1 sid; Some (h', sent, Some None) }
        | (h1, Received evt) \<Rightarrow>
            (case sendErr of
               None \<Rightarrow> Some (h1, sent @ [watch_event evt], None)
             | Some e \<Rightarrow> do { h' \<leftarrow> Unsubscribe h1 sid; Some (h', sent, Some (Some e)) })))"

subsection \<open>Status\<close>

record statusResponse =
  stNodeId :: string
  stLeader :: string
  stState :: string
  stCommitIndex :: i64
  stAppliedIndex :: i64
  stPeers :: "string list"

definition grpc_Status :: "'r node \<Rightarrow> statusResponse" where
  "grpc_Status n = \<lparr>stNodeId = nID n, stLeader = LeaderAddr n, stState = state_String (nState n),
     stCommitIndex = ParseInt (map_get (Stats n) ''commit_index''),
     stAppliedIndex = ParseInt (map_get (Stats n) ''applied_index''),
     stPeers = map svAddress (nServers n)\<rparr>"

subsection \<open>A watch stream\<close>

text \<open>Events are notified and the handler takes turns, in any order, while the stream stays open.\<close>

datatype watch_op = WNotify event | WTurn

fun watch_exec :: "u64 \<Rightarrow> nat \<Rightarrow> hub \<times> watchEvent list \<Rightarrow> watch_op \<Rightarrow> (hub \<times> watchEvent list) option" where
  "watch_exec sid ch (h, sent) (WNotify e) = do { h' \<leftarrow> Notify h e; Some (h', sent) }"
| "watch_exec sid ch (h, sent) WTurn =
     (case Watch_turn h sid ch sent False None of Some (h', sent', None) \<Rightarrow> Some (h', sent') | _ \<Rightarrow> None)"

fun notified :: "bytes \<Rightarrow> watch_op list \<Rightarrow> event list" where
  "notified p [] = []"
| "notified p (WNotify e # ops) = (if HasPrefix (evKey e) p then e # notified p ops else notified p ops)"
| "notified p (WTurn # ops) = notified p ops"

text \<open>No matching event finds the channel full.\<close>

fun keeps_up :: "bytes \<Rightarrow> nat \<Rightarrow> watch_op list \<Rightarrow> bool" where
  "keeps_up p n [] = True"
| "keeps_up p n (WNotify e # ops) =
     (if HasPrefix (evKey e) p then n < chanCap \<and> keeps_up p (n + 1) ops else keeps_up p n ops)"
| "keeps_up p n (WTurn # ops) = keeps_up p (n - 1) ops"

definition watching_at :: "u64 \<Rightarrow> nat \<Rightarrow> bytes \<Rightarrow> hub \<Rightarrow> bool" where
  "watching_at sid ch p h \<longleftrightarrow> hub_ok h \<and> (sid, \<lparr>sprefix = p, sch = ch\<rparr>) \<in> set (subs h)"

lemma watch_notify:
  assumes "watching_at sid ch p h"
  shows "\<exists>h'. watch_exec sid ch (h, sent) (WNotify e) = Some (h', sent) \<and> watching_at sid ch p h' \<and>
    chbuf (chans h' ! ch) = chbuf (chans h ! ch) @
      (if HasPrefix (evKey e) p \<and> length (chbuf (chans h ! ch)) < chanCap then [e] else [])"
proof -
  have w: "hub_ok h" "(sid, \<lparr>sprefix = p, sch = ch\<rparr>) \<in> set (subs h)" using assms by (simp_all add: watching_at_def)
  then have "ch < length (chans h)" by (auto simp: hub_ok_def)
  then obtain h' where "Notify h e = Some h'" "hub_ok h'" "subs h' = subs h"
      "chans h' ! ch = delivered e (subs h) ch (chans h ! ch)" using Notify_ok [OF w(1), of e] by blast
  then show ?thesis using w delivered_sub [OF w, of e "chans h ! ch"] by (auto simp: watching_at_def)
qed

lemma watch_take_turn:
  assumes "watching_at sid ch p h"
  shows "\<exists>h' sent'. watch_exec sid ch (h, sent) WTurn = Some (h', sent') \<and> watching_at sid ch p h' \<and>
    chbuf (chans h' ! ch) = tl (chbuf (chans h ! ch)) \<and>
    sent' @ map watch_event (chbuf (chans h' ! ch)) = sent @ map watch_event (chbuf (chans h ! ch))"
proof -
  have w: "hub_ok h" "(sid, \<lparr>sprefix = p, sch = ch\<rparr>) \<in> set (subs h)" using assms by (simp_all add: watching_at_def)
  then have ch: "ch < length (chans h)" "\<not> chclosed (chans h ! ch)" by (auto simp: hub_ok_def)
  have ok: "hub_ok (fst (receive h ch))" using hub_exec_ok [OF w(1), of "OpReceive ch"] ch(1) by (simp split: prod.splits)
  show ?thesis
  proof (cases "chbuf (chans h ! ch)")
    case Nil
    then show ?thesis using ch assms by (simp add: Watch_turn_def receive_def)
  next
    case (Cons e es)
    then show ?thesis using ok ch(1) w by (auto simp: Watch_turn_def receive_def watching_at_def)
  qed
qed

lemma watch_run:
  assumes "watching_at sid ch p h"
  shows "\<exists>h' sent' es. foldM (watch_exec sid ch) (h, sent) ops = Some (h', sent') \<and> watching_at sid ch p h' \<and>
    sent' @ map watch_event (chbuf (chans h' ! ch)) = sent @ map watch_event (chbuf (chans h ! ch)) @ map watch_event es \<and>
    subseq es (notified p ops) \<and> (keeps_up p (length (chbuf (chans h ! ch))) ops \<longrightarrow> es = notified p ops)"
  using assms
proof (induction ops arbitrary: h sent)
  case Nil
  then show ?case by (auto intro: exI [of _ "[]"])
next
  case (Cons op ops)
  show ?case
  proof (cases op)
    case (WNotify e)
    obtain h1 where h1: "watch_exec sid ch (h, sent) op = Some (h1, sent)" "watching_at sid ch p h1"
        "chbuf (chans h1 ! ch) = chbuf (chans h ! ch) @
          (if HasPrefix (evKey e) p \<and> length (chbuf (chans h ! ch)) < chanCap then [e] else [])"
      using watch_notify [OF Cons.prems, of sent e] WNotify by blast
    obtain h' sent' es where IH: "foldM (watch_exec sid ch) (h1, sent) ops = Some (h', sent')" "watching_at sid ch p h'"
        "sent' @ map watch_event (chbuf (chans h' ! ch)) = sent @ map watch_event (chbuf (chans h1 ! ch)) @ map watch_event es"
        "subseq es (notified p ops)" "keeps_up p (length (chbuf (chans h1 ! ch))) ops \<longrightarrow> es = notified p ops"
      using Cons.IH [OF h1(2)] by blast
    let ?es = "(if HasPrefix (evKey e) p \<and> length (chbuf (chans h ! ch)) < chanCap then [e] else []) @ es"
    show ?thesis using IH h1(1,3) WNotify by (intro exI [of _ h'] exI [of _ sent'] exI [of _ ?es]) auto
  next
    case WTurn
    obtain h1 sent1 where h1: "watch_exec sid ch (h, sent) op = Some (h1, sent1)" "watching_at sid ch p h1"
        "chbuf (chans h1 ! ch) = tl (chbuf (chans h ! ch))"
        "sent1 @ map watch_event (chbuf (chans h1 ! ch)) = sent @ map watch_event (chbuf (chans h ! ch))"
      using watch_take_turn [OF Cons.prems, of sent] WTurn by blast
    obtain h' sent' es where IH: "foldM (watch_exec sid ch) (h1, sent1) ops = Some (h', sent')" "watching_at sid ch p h'"
        "sent' @ map watch_event (chbuf (chans h' ! ch)) = sent1 @ map watch_event (chbuf (chans h1 ! ch)) @ map watch_event es"
        "subseq es (notified p ops)" "keeps_up p (length (chbuf (chans h1 ! ch))) ops \<longrightarrow> es = notified p ops"
      using Cons.IH [OF h1(2)] by blast
    have "sent' @ map watch_event (chbuf (chans h' ! ch)) = sent @ map watch_event (chbuf (chans h ! ch)) @ map watch_event es"
      using IH(3) h1(4) by (metis append_assoc)
    then show ?thesis using IH(1,2,4,5) h1(1,3) WTurn by (intro exI [of _ h'] exI [of _ sent'] exI [of _ es]) auto
  qed
qed

subsection \<open>Write handlers\<close>

text \<open>A successful reply carries the version the batch writer was given for exactly this command.\<close>

definition rpc_version :: "writeResponse rpc \<Rightarrow> i64 option" where
  "rpc_version r = (case r of Inr resp \<Rightarrow> Some (wrRaftIndex resp) | Inl _ \<Rightarrow> None)"

definition put_cmd :: "putRequest \<Rightarrow> command" where
  "put_cmd req = \<lparr>cType = CmdPut, cKey = prKey req, cValue = prValue req, cTTL = prTtlSeconds req\<rparr>"

definition delete_cmd :: "bytes \<Rightarrow> command" where
  "delete_cmd key = \<lparr>cType = CmdDelete, cKey = key, cValue = [], cTTL = 0\<rparr>"

lemma batch_reply:
  assumes "Submit_wait marshal rapply b cmd = Some (b', res)" "brErr res = None"
  shows "\<exists>q s. brCmd q = cmd \<and> propose marshal rapply s q = (braft b', \<lparr>brVersion = brVersion res, brErr = None\<rparr>)"
  using Submit_wait_answer [OF assms(1)] assms(2) by (cases res) auto

interpretation grpc_put: write_endpoint marshal rapply "\<lambda>n. braft (nBatch n)" "grpc_Put marshal rapply" rpc_version put_cmd for marshal rapply
proof
  fix n n' :: "'a node" and q p v
  assume "grpc_Put marshal rapply n q = Some (n', p)" "rpc_version p = Some v"
  then show "\<exists>b s. brCmd b = put_cmd q \<and> propose marshal rapply s b = (braft (nBatch n'), \<lparr>brVersion = v, brErr = None\<rparr>)"
    using batch_reply [of marshal rapply "nBatch n" "put_cmd q"]
    by (fastforce simp: grpc_Put_def rpc_version_def put_cmd_def split: if_splits Option.bind_splits option.splits)
qed

interpretation grpc_delete: write_endpoint marshal rapply "\<lambda>n. braft (nBatch n)" "grpc_Delete marshal rapply" rpc_version delete_cmd for marshal rapply
proof
  fix n n' :: "'a node" and q p v
  assume "grpc_Delete marshal rapply n q = Some (n', p)" "rpc_version p = Some v"
  then show "\<exists>b s. brCmd b = delete_cmd q \<and> propose marshal rapply s b = (braft (nBatch n'), \<lparr>brVersion = v, brErr = None\<rparr>)"
    using batch_reply [of marshal rapply "nBatch n" "delete_cmd q"]
    by (fastforce simp: grpc_Delete_def rpc_version_def delete_cmd_def split: if_splits Option.bind_splits option.splits)
qed

lemma grpc_Put_returns:
  assumes "\<not> bexited (nBatch n)" "length (bch (nBatch n)) < batchMaxSize * 4"
  shows "\<exists>n' r. grpc_Put marshal rapply n req = Some (n', r)"
  using Submit_wait_returns [OF assms, of marshal rapply "\<lparr>cType = CmdPut, cKey = prKey req, cValue = prValue req, cTTL = prTtlSeconds req\<rparr>"]
  by (auto simp: grpc_Put_def)

subsection \<open>Properties\<close>

text \<open>C19. A watch stream, with events notified and the handler sending in any order, never ends by itself.
  What it has sent, followed by what waits in its channel, is in order a part of the events with its
  prefix since it subscribed, and all of them if none found 64 others waiting.\<close>

theorem watch_streams_events:
  assumes "hub_ok h" "Subscribe h p = (h0, sid, ch)"
  shows "\<exists>h' sent. foldM (watch_exec sid ch) (h0, []) ops = Some (h', sent) \<and>
    subseq (sent @ map watch_event (chbuf (chans h' ! ch))) (map watch_event (notified p ops)) \<and>
    (keeps_up p 0 ops \<longrightarrow> sent @ map watch_event (chbuf (chans h' ! ch)) = map watch_event (notified p ops))"
proof -
  have h0: "watching_at sid ch p h0" "chbuf (chans h0 ! ch) = []"
    using hub_ok_Subscribe [OF assms] by (auto simp: watching_at_def dest: map_of_SomeD)
  from watch_run [OF h0(1), of "[]" ops] h0(2) show ?thesis by (auto intro: subseq_map)
qed

theorem watch_streams_events_witness:
  "\<exists>h sid ch h' sent. Subscribe NewHub [7] = (h, sid, ch) \<and>
     foldM (watch_exec sid ch) (h, []) [WTurn, WNotify \<lparr>evType = EventPut, evKey = [7, 1], evValue = [5], evVersion = 3\<rparr>,
       WNotify \<lparr>evType = EventDelete, evKey = [8], evValue = [], evVersion = 4\<rparr>, WTurn] = Some (h', sent) \<and>
     sent @ map watch_event (chbuf (chans h' ! ch)) = [\<lparr>weType = PUT, weKey = [7, 1], weValue = [5], weVersion = 3\<rparr>]"
proof -
  obtain h sid ch where h: "Subscribe NewHub [7] = (h, sid, ch)" by (metis prod_cases3)
  from watch_streams_events [OF hub_ok_New h, of "[WTurn, WNotify \<lparr>evType = EventPut, evKey = [7, 1], evValue = [5], evVersion = 3\<rparr>,
       WNotify \<lparr>evType = EventDelete, evKey = [8], evValue = [], evVersion = 4\<rparr>, WTurn]"] h
  show ?thesis by (auto simp: HasPrefix_def watch_event_def chanCap_def)
qed

text \<open>C40. A deleted value can still be read. When a \<open>Put\<close> of a key is directly followed by its \<open>Delete\<close> and the
  memtable has not been flushed in between or since, a gRPC \<open>Get\<close> in the default mode reports the key as not
  found and still returns the value, with the version of the delete: the tombstone in the memtable keeps
  the value, and the handler copies it into the response without looking at \<open>found\<close>.\<close>

theorem get_returns_deleted_value:
  assumes "eng_wf e" "eng_Put enc d1 e k v ver = Some (e1, None)" "eng_Delete enc d2 e1 k ver2 = Some (e2, None)" "rstore env 0 = e2"
  shows "grpc_Get env None \<lparr>grKey = k, grConsistency = '''', grSessionIndex = s, grMinVersion = m\<rparr> =
    Some (Inr \<lparr>gpFound = False, gpValue = v, gpVersion = ver2\<rparr>)"
proof -
  obtain tab where ok: "eng_ok e tab" using assms(1) by (auto simp: eng_wf_def)
  have e1: "eng_ok e1 tab" "contents (ememtable e1) = upsert (live k v ver) (contents (ememtable e))"
    using eng_apply_spec [OF ok, of enc d1 "MPut k v ver" e1 None] assms(2) by simp_all
  have e2: "eng_ok e2 tab" "contents (ememtable e2) = entomb k ver2 (contents (ememtable e1))"
    using eng_apply_spec [OF e1(1), of enc d2 "MDel k ver2" e2 None] assms(3) by simp_all
  have "find_key k (layers e2 tab) = Some \<lparr>Key = k, Value = v, Version = ver2, Deleted = True\<rparr>"
    by (simp add: layers_def find_key_append e1(2) e2(2) tombstone_def live_def)
  then have "eng_Get e2 k = Some (\<lparr>Key = k, Value = v, Version = ver2, Deleted = True\<rparr>, False)"
    by (simp add: eng_Get_layers [OF e2(1)] hit_result_def)
  then show ?thesis by (simp add: grpc_Get_def consistencyMode_def router_Get_def assms(4))
qed

theorem get_returns_deleted_value_witness:
  "\<exists>e1 e2. eng_Put (\<lambda>_. []) (\<lambda>_. 1) (fresh_engine (\<lambda>_. None) []) [1] [2] 3 = Some (e1, None) \<and>
     eng_Delete (\<lambda>_. []) (\<lambda>_. 1) e1 [1] 4 = Some (e2, None) \<and>
     grpc_Get \<lparr>rapplied = \<lambda>_. 4, rdone = \<lambda>_. None, rverify = None, rstore = \<lambda>_. e2\<rparr> None
       \<lparr>grKey = [1], grConsistency = '''', grSessionIndex = 0, grMinVersion = 0\<rparr> =
       Some (Inr \<lparr>gpFound = False, gpValue = [2], gpVersion = 4\<rparr>)"
proof -
  have ok: "eng_ok (fresh_engine (\<lambda>_. None) []) (\<lambda>_. [])" "calm (bw (ewal (fresh_engine (\<lambda>_. None) [])))"
    using fresh_engine_ok [of "[]"] by simp_all
  obtain e1 where e1: "eng_apply (\<lambda>_. []) (\<lambda>_. 1) (fresh_engine (\<lambda>_. None) []) (MPut [1] [2] 3) = Some (e1, None)" "calm (bw (ewal e1))"
    using eng_apply_calm [OF ok] by blast
  have "eng_ok e1 (\<lambda>_. [])" using eng_apply_spec [OF ok(1) e1(1)] by simp
  then obtain e2 where e2: "eng_apply (\<lambda>_. []) (\<lambda>_. 1) e1 (MDel [1] 4) = Some (e2, None)"
    using eng_apply_calm e1(2) by blast
  let ?env = "\<lparr>rapplied = \<lambda>_. 4, rdone = \<lambda>_. None, rverify = None, rstore = \<lambda>_. e2\<rparr>"
  have "grpc_Get ?env None \<lparr>grKey = [1], grConsistency = '''', grSessionIndex = 0, grMinVersion = 0\<rparr> =
      Some (Inr \<lparr>gpFound = False, gpValue = [2], gpVersion = 4\<rparr>)"
    using e1(1) e2 by (intro get_returns_deleted_value [OF empty_engine_wf]) simp_all
  then show ?thesis using e1(1) e2 by auto
qed

end
