(* ===== verification/Utf8.thy ===== *)
theory Utf8
  imports Prelude
begin

text \<open>
  What \<open>encoding/json\<close> uses of \<open>unicode/utf8\<close> and \<open>unicode/utf16\<close>. \<open>rune_len\<close> is
  the width \<open>DecodeRune\<close> reports for a well-formed rune at the front, 0 for a byte it rejects
  (the code sees \<open>RuneError\<close> with width 1 there). \<open>to_valid\<close> replaces every rejected byte by
  the replacement character, which is what a string looks like after it has been through JSON.
\<close>

definition cont :: "byte \<Rightarrow> bool" where
  "cont b \<longleftrightarrow> 0x80 \<le> b \<and> b \<le> 0xBF"

text \<open>The range of the second byte, by the first.\<close>

definition second_ok :: "byte \<Rightarrow> byte \<Rightarrow> bool" where
  "second_ok b0 b1 \<longleftrightarrow> cont b1 \<and> (b0 = 0xE0 \<longrightarrow> 0xA0 \<le> b1) \<and> (b0 = 0xED \<longrightarrow> b1 \<le> 0x9F) \<and>
     (b0 = 0xF0 \<longrightarrow> 0x90 \<le> b1) \<and> (b0 = 0xF4 \<longrightarrow> b1 \<le> 0x8F)"

definition rune_width :: "byte \<Rightarrow> nat" where
  "rune_width b0 =
     (if b0 < 0x80 then 1
      else if 0xC2 \<le> b0 \<and> b0 \<le> 0xDF then 2
      else if 0xE0 \<le> b0 \<and> b0 \<le> 0xEF then 3
      else if 0xF0 \<le> b0 \<and> b0 \<le> 0xF4 then 4 else 0)"

definition tail_ok :: "byte \<Rightarrow> bytes \<Rightarrow> bool" where
  "tail_ok b0 t \<longleftrightarrow> (\<forall>c\<in>set t. cont c) \<and> (case t of [] \<Rightarrow> True | b1 # _ \<Rightarrow> second_ok b0 b1)"

definition rune_len :: "bytes \<Rightarrow> nat" where
  "rune_len s =
     (case s of
        [] \<Rightarrow> 0
      | b0 # bs \<Rightarrow>
          if rune_width b0 \<le> length s \<and> tail_ok b0 (take (rune_width b0 - 1) bs) then rune_width b0 else 0)"

definition replacement :: bytes where
  "replacement = [0xEF, 0xBF, 0xBD]"

text \<open>\<open>EncodeRune\<close> for a code point; surrogates become the replacement character.\<close>

definition EncodeRune :: "nat \<Rightarrow> bytes" where
  "EncodeRune r =
     (if r < 0x80 then [of_nat r]
      else if r < 0x800 then [of_nat (0xC0 + r div 64), of_nat (0x80 + r mod 64)]
      else if (0xD800 \<le> r \<and> r < 0xE000) \<or> r > 0x10FFFF then replacement
      else if r < 0x10000 then [of_nat (0xE0 + r div 4096), of_nat (0x80 + r div 64 mod 64), of_nat (0x80 + r mod 64)]
      else [of_nat (0xF0 + r div 262144), of_nat (0x80 + r div 4096 mod 64),
        of_nat (0x80 + r div 64 mod 64), of_nat (0x80 + r mod 64)])"

function to_valid :: "bytes \<Rightarrow> bytes" where
  "to_valid [] = []"
| "to_valid (b # bs) =
     (if rune_len (b # bs) = 0 then replacement @ to_valid bs
      else b # take (rune_len (b # bs) - 1) bs @ to_valid (drop (rune_len (b # bs) - 1) bs))"
  by pat_completeness auto
termination
  by (relation "measure length") auto

definition valid_utf8 :: "bytes \<Rightarrow> bool" where
  "valid_utf8 s \<longleftrightarrow> to_valid s = s"

subsection \<open>Runes\<close>

lemma rune_len_le: "rune_len s \<le> length s"
  by (simp add: rune_len_def split: list.split)

lemma rune_len_ascii: "b < 0x80 \<Longrightarrow> rune_len (b # bs) = 1"
  by (simp add: rune_len_def rune_width_def tail_ok_def)

lemma rune_len_append: "rune_len s \<noteq> 0 \<Longrightarrow> rune_len (take (rune_len s) s @ r) = rune_len s"
  by (cases s) (auto simp: rune_len_def take_Cons' split: if_splits)

lemma cont_high: "cont c \<Longrightarrow> \<not> c < 0x80"
  by (auto simp: cont_def not_less)

lemma rune_len_high: "c \<in> set (take (rune_len (b # bs) - 1) bs) \<Longrightarrow> \<not> c < 0x80"
  using cont_high by (auto simp: rune_len_def tail_ok_def split: if_splits)

text \<open>A byte that is no rune before some bytes is none either when an ASCII byte follows them.\<close>

lemma rune_len_zero_append:
  assumes "rune_len (b # bs) = 0" "c < 0x80"
  shows "rune_len (b # bs @ c # r) = 0"
proof (cases "rune_width b \<le> Suc (length bs)")
  case True
  then have "take (rune_width b - 1) (bs @ c # r) = take (rune_width b - 1) bs" by simp
  then show ?thesis using assms(1) True by (auto simp: rune_len_def split: if_splits)
next
  case False
  then have "c \<in> set (take (rune_width b - 1) (bs @ c # r))" by (auto simp: take_Cons')
  then show ?thesis using assms(2) cont_high by (auto simp: rune_len_def tail_ok_def)
qed

lemma to_valid_ascii [simp]: "b < 0x80 \<Longrightarrow> to_valid (b # bs) = b # to_valid bs"
  by (simp add: rune_len_ascii)

declare to_valid.simps(2) [simp del]

lemma valid_utf8_ascii: "\<forall>b\<in>set s. b < 0x80 \<Longrightarrow> valid_utf8 s"
  unfolding valid_utf8_def by (induction s) auto

lemma to_valid_replacement: "to_valid (replacement @ s) = replacement @ to_valid s"
proof -
  have "rune_len (0xEF # 0xBF # 0xBD # s) = 3" by (simp add: rune_len_def rune_width_def tail_ok_def second_ok_def cont_def)
  then show ?thesis by (simp add: replacement_def to_valid.simps(2) eval_nat_numeral)
qed

lemma to_valid_to_valid: "to_valid (to_valid s) = to_valid s"
proof (induction s rule: to_valid.induct)
  case (2 b bs)
  let ?n = "rune_len (b # bs)"
  show ?case
  proof (cases "?n = 0")
    case True
    then show ?thesis using 2 by (simp add: to_valid.simps(2) [of b bs] to_valid_replacement)
  next
    case False
    then obtain m where m: "?n = Suc m" by (cases ?n) auto
    let ?t = "to_valid (drop m bs)"
    have e: "to_valid (b # bs) = b # take m bs @ ?t" using m by (simp add: to_valid.simps(2))
    have "rune_len (b # take m bs @ ?t) = Suc m" using rune_len_append [of "b # bs" ?t] m by simp
    moreover have "length (take m bs) = m" using rune_len_le [of "b # bs"] m by simp
    ultimately have "to_valid (b # take m bs @ ?t) = b # take m bs @ to_valid ?t" by (simp add: to_valid.simps(2))
    then show ?thesis using 2(2) m e by simp
  qed
qed simp

lemma valid_to_valid [simp]: "valid_utf8 (to_valid s)"
  by (simp add: valid_utf8_def to_valid_to_valid)

end
