(* ===== verification/Base64.thy ===== *)
theory Base64
  imports Prelude
begin

text \<open>
  \<open>encoding/base64\<close>, standard alphabet with padding, which \<open>encoding/json\<close> uses for
  \<open>[]byte\<close> values. Decoding skips carriage returns and newlines and ignores the unused bits
  of the last symbol.
\<close>

definition b64_char :: "nat \<Rightarrow> byte" where
  "b64_char n = of_nat
     (if n < 26 then 65 + n else if n < 52 then 97 + (n - 26) else if n < 62 then 48 + (n - 52)
      else if n = 62 then 43 else 47)"

definition b64_value :: "byte \<Rightarrow> nat option" where
  "b64_value b = (let n = unat b in
     if 65 \<le> n \<and> n \<le> 90 then Some (n - 65)
     else if 97 \<le> n \<and> n \<le> 122 then Some (n - 97 + 26)
     else if 48 \<le> n \<and> n \<le> 57 then Some (n - 48 + 52)
     else if n = 43 then Some 62 else if n = 47 then Some 63 else None)"

definition b64_pad :: byte where
  "b64_pad = 61"

fun b64_encode :: "bytes \<Rightarrow> bytes" where
  "b64_encode [] = []"
| "b64_encode [a] = [b64_char (unat a div 4), b64_char (unat a mod 4 * 16), b64_pad, b64_pad]"
| "b64_encode [a, b] =
     [b64_char (unat a div 4), b64_char (unat a mod 4 * 16 + unat b div 16), b64_char (unat b mod 16 * 4), b64_pad]"
| "b64_encode (a # b # c # rest) =
     b64_char (unat a div 4) # b64_char (unat a mod 4 * 16 + unat b div 16) #
     b64_char (unat b mod 16 * 4 + unat c div 64) # b64_char (unat c mod 64) # b64_encode rest"

text \<open>A group of four symbols; padding is allowed only in the last one.\<close>

fun b64_groups :: "bytes \<Rightarrow> bytes option" where
  "b64_groups [] = Some []"
| "b64_groups (p # q # r # s # rest) = do {
     i \<leftarrow> b64_value p;
     j \<leftarrow> b64_value q;
     (if r = b64_pad then
        (if s = b64_pad \<and> rest = [] then Some [of_nat (i * 4 + j div 16)] else None)
      else do {
        k \<leftarrow> b64_value r;
        (if s = b64_pad then
           (if rest = [] then Some [of_nat (i * 4 + j div 16), of_nat (j mod 16 * 16 + k div 4)] else None)
         else do {
           l \<leftarrow> b64_value s;
           ds \<leftarrow> b64_groups rest;
           Some (of_nat (i * 4 + j div 16) # of_nat (j mod 16 * 16 + k div 4) # of_nat (k mod 4 * 64 + l) # ds)
         })
      })
   }"
| "b64_groups _ = None"

definition b64_decode :: "bytes \<Rightarrow> bytes option" where
  "b64_decode s = b64_groups (filter (\<lambda>b. b \<noteq> 10 \<and> b \<noteq> 13) s)"

subsection \<open>Round trip\<close>

lemma unat_byte_less [simp]: "unat (b :: byte) < 256"
  using unsigned_less [of b] by simp

lemma unat_of_nat_byte: "n < 256 \<Longrightarrow> unat (of_nat n :: byte) = n"
  by (simp add: unat_of_nat take_bit_eq_mod)

lemma unat_b64_char: "n < 64 \<Longrightarrow> unat (b64_char n) =
    (if n < 26 then 65 + n else if n < 52 then 97 + (n - 26) else if n < 62 then 48 + (n - 52) else if n = 62 then 43 else 47)"
  unfolding b64_char_def by (rule unat_of_nat_byte) (auto; arith)

lemma b64_value_char [simp]: "n < 64 \<Longrightarrow> b64_value (b64_char n) = Some n"
  by (simp add: b64_value_def unat_b64_char Let_def) arith

lemma b64_value_pad: "b64_value b64_pad = None"
  by (simp add: b64_value_def b64_pad_def)

lemma b64_char_not_pad [simp]: "n < 64 \<Longrightarrow> b64_char n \<noteq> b64_pad"
  using b64_value_char b64_value_pad by fastforce

text \<open>The bytes of an encoding are printable ASCII other than quotes and backslashes.\<close>

definition plain :: "byte \<Rightarrow> bool" where
  "plain b \<longleftrightarrow> unat b \<in> {43, 47, 61} \<union> {48..57} \<union> {65..90} \<union> {97..122}"

lemma b64_char_plain: "n < 64 \<Longrightarrow> plain (b64_char n)"
  by (simp add: plain_def unat_b64_char) arith

lemma byte_bounds [simp]:
  "unat (a :: byte) div 4 < 64" "unat a mod 4 * 16 + unat (b :: byte) div 16 < 64" "unat a mod 4 * 16 < 64"
  "unat b mod 16 * 4 + unat (c :: byte) div 64 < 64" "unat b mod 16 * 4 < 64" "unat c mod 64 < 64"
  using unat_byte_less [of a] unat_byte_less [of b] unat_byte_less [of c] by linarith+

lemma b64_encode_plain: "b \<in> set (b64_encode s) \<Longrightarrow> plain b"
  by (induction s rule: b64_encode.induct) (auto simp: b64_char_plain, simp_all add: plain_def b64_pad_def)

lemma of_nat_unat_byte [simp]: "of_nat (unat b) = (b :: byte)"
  by (simp add: of_nat_unat)

lemma digits: "y < k \<Longrightarrow> (x * k + y) div k = x" "y < k \<Longrightarrow> (x * k + y) mod k = y" for x y k :: nat
  by simp_all

lemma byte_div [simp]: "unat (b :: byte) div 16 < 16" "unat b div 64 < 4"
  using unat_byte_less [of b] by linarith+

lemma join_bytes:
  "unat (a :: byte) div 4 * 4 + (unat a mod 4 * 16 + unat (b :: byte) div 16) div 16 = unat a"
  "unat a div 4 * 4 + unat a mod 4 * 16 div 16 = unat a"
  "(unat a mod 4 * 16 + unat b div 16) mod 16 * 16 + (unat b mod 16 * 4 + unat (c :: byte) div 64) div 4 = unat b"
  "(unat a mod 4 * 16 + unat b div 16) mod 16 * 16 + unat b mod 16 * 4 div 4 = unat b"
  "(unat b mod 16 * 4 + unat c div 64) mod 4 * 64 + unat c mod 64 = unat c"
  by (simp_all only: digits byte_div div_mult_mod_eq nonzero_mult_div_cancel_right zero_neq_numeral not_False_eq_True)

lemma b64_groups_encode: "b64_groups (b64_encode s) = Some s"
proof (induction s rule: b64_encode.induct)
  case (4 a b c rest)
  then show ?case
    by (simp only: b64_encode.simps b64_groups.simps b64_value_char byte_bounds Option.bind.simps b64_char_not_pad if_False
        join_bytes of_nat_unat_byte)
qed (simp_all only: b64_encode.simps b64_groups.simps b64_value_char byte_bounds Option.bind.simps b64_char_not_pad
      if_False if_True join_bytes simp_thms of_nat_unat_byte)

lemma b64_decode_encode [simp]: "b64_decode (b64_encode s) = Some s"
proof -
  have "filter (\<lambda>b. b \<noteq> 10 \<and> b \<noteq> 13) (b64_encode s) = b64_encode s"
    by (rule filter_True) (use b64_encode_plain in \<open>fastforce simp: plain_def\<close>)
  then show ?thesis by (simp add: b64_decode_def b64_groups_encode)
qed

end
