(* ===== verification/Json.thy ===== *)
theory Json
  imports Utf8 Base64 Strconv
begin

text \<open>
  \<open>encoding/json\<close> as far as the sources use it. \<open>jprint\<close> is what \<open>Marshal\<close> writes for a
  value (no spaces, strings escaped as with HTML escaping on); \<open>jparse\<close> reads one value and returns
  the rest of the input. Strings are Go strings, so bytes; a byte that is not part of a well-formed rune
  is written as an escaped U+FFFD and read as the replacement character. The parser recurses on a fuel
  argument; every call consumes input, so the length of the input plus one is enough
  (\<open>jparse_jprint\<close>). The nesting limit of 10000 of the Go parser is not modelled.
\<close>

definition str :: "string \<Rightarrow> bytes" where
  "str s = map (\<lambda>c. of_nat (of_char c)) s"

definition unstr :: "bytes \<Rightarrow> string" where
  "unstr bs = map (\<lambda>b. char_of (unat b)) bs"

subsection \<open>Strings\<close>

definition hex_digit :: "nat \<Rightarrow> byte" where
  "hex_digit n = of_nat (if n < 10 then 48 + n else 87 + n)"

definition escape :: "byte \<Rightarrow> bytes" where
  "escape b =
     (if b = 34 \<or> b = 92 then [92, b]
      else if b = 8 then [92, 98] else if b = 12 then [92, 102] else if b = 10 then [92, 110]
      else if b = 13 then [92, 114] else if b = 9 then [92, 116]
      else if b < 32 \<or> b = 60 \<or> b = 62 \<or> b = 38
        then [92, 117, 48, 48, hex_digit (unat b div 16), hex_digit (unat b mod 16)]
      else [b])"

definition escape_rune :: "bytes \<Rightarrow> bytes" where
  "escape_rune r =
     (if r = [0xE2, 0x80, 0xA8] then [92, 117, 50, 48, 50, 56]
      else if r = [0xE2, 0x80, 0xA9] then [92, 117, 50, 48, 50, 57] else r)"

function quote_body :: "bytes \<Rightarrow> bytes" where
  "quote_body [] = []"
| "quote_body (b # bs) =
     (if b < 0x80 then escape b @ quote_body bs
      else if rune_len (b # bs) = 0 then [92, 117, 102, 102, 102, 100] @ quote_body bs
      else escape_rune (take (rune_len (b # bs)) (b # bs)) @ quote_body (drop (rune_len (b # bs) - 1) bs))"
  by pat_completeness auto
termination
  by (relation "measure length") auto

definition quote :: "bytes \<Rightarrow> bytes" where
  "quote s = 34 # quote_body s @ [34]"

definition unhex :: "byte \<Rightarrow> nat option" where
  "unhex b = (let n = unat b in
     if 48 \<le> n \<and> n \<le> 57 then Some (n - 48)
     else if 97 \<le> n \<and> n \<le> 102 then Some (n - 87)
     else if 65 \<le> n \<and> n \<le> 70 then Some (n - 55) else None)"

fun getu4 :: "bytes \<Rightarrow> (nat \<times> bytes) option" where
  "getu4 (a # b # c # d # rest) = do {
     w \<leftarrow> unhex a; x \<leftarrow> unhex b; y \<leftarrow> unhex c; z \<leftarrow> unhex d;
     Some (((w * 16 + x) * 16 + y) * 16 + z, rest)
   }"
| "getu4 _ = None"

lemma getu4_length: "getu4 s = Some (r, rest) \<Longrightarrow> length rest < length s"
  by (cases s rule: getu4.cases) (auto split: Option.bind_splits)

definition simple_escape :: "byte \<Rightarrow> byte option" where
  "simple_escape e =
     (if e = 34 \<or> e = 92 \<or> e = 47 then Some e
      else if e = 98 then Some 8 else if e = 102 then Some 12 else if e = 110 then Some 10
      else if e = 114 then Some 13 else if e = 116 then Some 9 else None)"

text \<open>The second half of a surrogate pair: the code point and what follows it.\<close>

definition low_surrogate :: "nat \<Rightarrow> bytes \<Rightarrow> (nat \<times> bytes) option" where
  "low_surrogate hi s =
     (case s of
        a # b # t \<Rightarrow>
          if a = 92 \<and> b = 117 then
            (case getu4 t of
               Some (lo, rest) \<Rightarrow>
                 if hi < 0xDC00 \<and> 0xDC00 \<le> lo \<and> lo < 0xE000
                 then Some ((hi - 0xD800) * 1024 + (lo - 0xDC00) + 0x10000, rest) else None
             | None \<Rightarrow> None)
          else None
      | _ \<Rightarrow> None)"

lemma low_surrogate_length: "low_surrogate hi s = Some (r, rest) \<Longrightarrow> length rest < length s"
  by (auto simp: low_surrogate_def split: list.splits if_splits option.splits dest!: getu4_length)

definition prepend :: "bytes \<Rightarrow> (bytes \<times> bytes) option \<Rightarrow> (bytes \<times> bytes) option" where
  "prepend p r = map_option (\<lambda>(s, rest). (p @ s, rest)) r"

lemma prepend_Some [simp]: "prepend p (Some (s, rest)) = Some (p @ s, rest)"
  by (simp add: prepend_def)

text \<open>A string from behind its opening quote: its value and the rest behind the closing one.\<close>

function unquote :: "bytes \<Rightarrow> (bytes \<times> bytes) option" where
  "unquote [] = None"
| "unquote (b # bs) =
     (if b = 34 then Some ([], bs)
      else if b < 32 then None
      else if b = 92 then
        (case bs of
           [] \<Rightarrow> None
         | e # es \<Rightarrow>
             (case simple_escape e of
                Some c \<Rightarrow> prepend [c] (unquote es)
              | None \<Rightarrow>
                  if e \<noteq> 117 then None
                  else (case getu4 es of
                     None \<Rightarrow> None
                   | Some (r, rest) \<Rightarrow>
                       if 0xD800 \<le> r \<and> r < 0xE000 then
                         (case low_surrogate r rest of
                            Some (r', rest') \<Rightarrow> prepend (EncodeRune r') (unquote rest')
                          | None \<Rightarrow> prepend replacement (unquote rest))
                       else prepend (EncodeRune r) (unquote rest))))
      else if b < 0x80 then prepend [b] (unquote bs)
      else if rune_len (b # bs) = 0 then prepend replacement (unquote bs)
      else prepend (take (rune_len (b # bs)) (b # bs)) (unquote (drop (rune_len (b # bs) - 1) bs)))"
  by pat_completeness auto
termination
  by (relation "measure length") (auto dest!: getu4_length low_surrogate_length)

declare unquote.simps(2) [simp del] quote_body.simps(2) [simp del]

lemma unquote_ascii:
  assumes "\<not> b < 32" "b < 0x80" "b \<noteq> 34" "b \<noteq> 92"
  shows "unquote (b # s) = prepend [b] (unquote s)"
  using assms by (simp add: unquote.simps(2))

lemma unhex_digit: "n < 16 \<Longrightarrow> unhex (hex_digit n) = Some n"
  unfolding unhex_def hex_digit_def by (subst unat_of_nat_byte) (auto simp: Let_def)

lemma unquote_simple: "simple_escape e = Some c \<Longrightarrow> unquote (92 # e # s) = prepend [c] (unquote s)"
  by (simp add: unquote.simps(2))

lemma unquote_u:
  "getu4 h = Some (r, s) \<Longrightarrow> \<not> (0xD800 \<le> r \<and> r < 0xE000) \<Longrightarrow>
   unquote (92 # 117 # h) = prepend (EncodeRune r) (unquote s)"
  by (auto simp: unquote.simps(2) simple_escape_def)

lemma unquote_control:
  assumes "b < 0x80"
  shows "unquote (92 # 117 # 48 # 48 # hex_digit (unat b div 16) # hex_digit (unat b mod 16) # s) = prepend [b] (unquote s)"
proof -
  have n: "unat b < 128" using assms by (simp add: word_less_nat_alt)
  have "unhex 48 = Some 0" by (simp add: unhex_def)
  then have "getu4 (48 # 48 # hex_digit (unat b div 16) # hex_digit (unat b mod 16) # s) = Some (unat b, s)"
    using n by (simp add: unhex_digit)
  then show ?thesis using n unquote_u by (simp add: EncodeRune_def)
qed

lemma unquote_escape:
  assumes "b < 0x80"
  shows "unquote (escape b @ s) = prepend [b] (unquote s)"
proof -
  consider (special) "b = 34 \<or> b = 92" | (named) "b \<in> {8, 12, 10, 13, 9}"
    | (control) "b \<notin> {34, 92, 8, 12, 10, 13, 9}" "b < 32 \<or> b = 60 \<or> b = 62 \<or> b = 38"
    | (plain) "b \<notin> {34, 92, 8, 12, 10, 13, 9}" "\<not> (b < 32 \<or> b = 60 \<or> b = 62 \<or> b = 38)" by blast
  then show ?thesis
  proof cases
    case special
    then show ?thesis by (auto simp: escape_def unquote_simple simple_escape_def)
  next
    case named
    then show ?thesis by (auto simp: escape_def unquote_simple simple_escape_def)
  next
    case control
    then have "escape b = [92, 117, 48, 48, hex_digit (unat b div 16), hex_digit (unat b mod 16)]"
      by (auto simp: escape_def)
    then show ?thesis using unquote_control [OF assms, of s] by simp
  next
    case plain
    then have "escape b = [b]" by (simp add: escape_def)
    then show ?thesis using unquote_ascii [of b s] plain assms by simp
  qed
qed

lemma unquote_rejected: "unquote ([92, 117, 102, 102, 102, 100] @ s) = prepend replacement (unquote s)"
proof -
  have "getu4 (102 # 102 # 102 # 100 # s) = Some (0xFFFD, s)" by (simp add: unhex_def)
  moreover have "EncodeRune 0xFFFD = replacement" by (simp add: EncodeRune_def replacement_def)
  ultimately show ?thesis using unquote_u [of "102 # 102 # 102 # 100 # s" "0xFFFD" s] by simp
qed

lemma unquote_separator:
  "unquote ([92, 117, 50, 48, 50, 56] @ s) = prepend [0xE2, 0x80, 0xA8] (unquote s)"
  "unquote ([92, 117, 50, 48, 50, 57] @ s) = prepend [0xE2, 0x80, 0xA9] (unquote s)"
proof -
  have "getu4 (50 # 48 # 50 # 56 # s) = Some (0x2028, s)" "getu4 (50 # 48 # 50 # 57 # s) = Some (0x2029, s)"
    by (simp_all add: unhex_def)
  moreover have "EncodeRune 0x2028 = [0xE2, 0x80, 0xA8]" "EncodeRune 0x2029 = [0xE2, 0x80, 0xA9]"
    by (simp_all add: EncodeRune_def)
  ultimately show "unquote ([92, 117, 50, 48, 50, 56] @ s) = prepend [0xE2, 0x80, 0xA8] (unquote s)"
    "unquote ([92, 117, 50, 48, 50, 57] @ s) = prepend [0xE2, 0x80, 0xA9] (unquote s)"
    using unquote_u [of "50 # 48 # 50 # 56 # s" "0x2028" s] unquote_u [of "50 # 48 # 50 # 57 # s" "0x2029" s] by simp_all
qed

lemma high_byte: "\<not> b < 0x80 \<Longrightarrow> b \<noteq> 34 \<and> b \<noteq> 92 \<and> \<not> b < (32 :: byte)"
  by (auto simp: word_less_nat_alt)

lemma unquote_rune:
  assumes "rune_len (b # bs) \<noteq> 0" "\<not> b < 0x80"
  shows "unquote (escape_rune (take (rune_len (b # bs)) (b # bs)) @ s) = prepend (take (rune_len (b # bs)) (b # bs)) (unquote s)"
proof -
  let ?n = "rune_len (b # bs)"
  obtain m where m: "?n = Suc m" using assms(1) by (cases ?n) auto
  have "rune_len (b # take m bs @ s) = Suc m" using rune_len_append [of "b # bs" s] m by simp
  moreover have "length (take m bs) = m" using rune_len_le [of "b # bs"] m by simp
  ultimately have "unquote (b # take m bs @ s) = prepend (b # take m bs) (unquote s)"
    using high_byte [OF assms(2)] assms(2) by (simp add: unquote.simps(2))
  then show ?thesis using unquote_separator [of s] m by (auto simp: escape_rune_def)
qed

lemma unquote_quote_body: "unquote (quote_body s @ 34 # rest) = Some (to_valid s, rest)"
proof (induction s rule: quote_body.induct)
  case 1
  then show ?case by (simp add: unquote.simps(2))
next
  case (2 b bs)
  show ?case
  proof (cases "b < 0x80")
    case True
    then show ?thesis using 2(1) by (simp add: quote_body.simps(2) unquote_escape)
  next
    case high: False
    show ?thesis
    proof (cases "rune_len (b # bs) = 0")
      case True
      then have "quote_body (b # bs) = [92, 117, 102, 102, 102, 100] @ quote_body bs"
        using high by (simp add: quote_body.simps(2))
      then show ?thesis using 2(2) [OF high True] True unquote_rejected [of "quote_body bs @ 34 # rest"]
        by (simp add: to_valid.simps(2))
    next
      case False
      let ?n = "rune_len (b # bs)"
      obtain m where m: "?n = Suc m" using False by (cases ?n) auto
      have "quote_body (b # bs) = escape_rune (take ?n (b # bs)) @ quote_body (drop m bs)"
        using high False m by (simp add: quote_body.simps(2))
      then show ?thesis
        using 2(3) [OF high False] unquote_rune [OF False high, of "quote_body (drop m bs) @ 34 # rest"] m
        by (simp add: to_valid.simps(2))
    qed
  qed
qed

text \<open>The symbols of a base 64 string are not escaped.\<close>

lemma quote_body_plain: "\<forall>b\<in>set s. plain b \<Longrightarrow> quote_body s = s"
proof (induction s)
  case (Cons b s)
  then have "unat b \<in> {43, 47, 61} \<union> {48..57} \<union> {65..90} \<union> {97..122}" by (simp add: plain_def)
  then have "b < 0x80" "escape b = [b]" by (auto simp: escape_def word_less_nat_alt word_unat_eq_iff)
  then show ?case using Cons by (simp add: quote_body.simps(2))
qed simp

subsection \<open>Numbers\<close>

definition is_digit :: "char \<Rightarrow> bool" where
  "is_digit c \<longleftrightarrow> digit_value c \<noteq> None"

definition number_char :: "byte \<Rightarrow> bool" where
  "number_char b \<longleftrightarrow> unat b \<in> {43, 45, 46, 69, 101} \<union> {48..57}"

definition int_part :: "string \<Rightarrow> string option" where
  "int_part s =
     (case s of
        [] \<Rightarrow> None
      | c # cs \<Rightarrow> if c = CHR ''0'' then Some cs else if is_digit c then Some (dropWhile is_digit cs) else None)"

definition digits_part :: "string \<Rightarrow> string option" where
  "digits_part s = (case s of c # cs \<Rightarrow> if is_digit c then Some (dropWhile is_digit cs) else None | [] \<Rightarrow> None)"

definition frac_part :: "string \<Rightarrow> string option" where
  "frac_part s = (case s of c # cs \<Rightarrow> if c = CHR ''.'' then digits_part cs else Some s | [] \<Rightarrow> Some s)"

definition exp_part :: "string \<Rightarrow> string option" where
  "exp_part s =
     (case s of
        c # cs \<Rightarrow>
          if c = CHR ''e'' \<or> c = CHR ''E'' then
            digits_part (case cs of d # ds \<Rightarrow> if d = CHR ''+'' \<or> d = CHR ''-'' then ds else cs | [] \<Rightarrow> cs)
          else Some s
      | [] \<Rightarrow> Some s)"

definition number_ok :: "string \<Rightarrow> bool" where
  "number_ok s =
     (case Option.bind (Option.bind (int_part (case s of c # cs \<Rightarrow> if c = CHR ''-'' then cs else s | [] \<Rightarrow> s)) frac_part) exp_part of
        Some [] \<Rightarrow> True
      | _ \<Rightarrow> False)"

definition lex_number :: "bytes \<Rightarrow> (string \<times> bytes) option" where
  "lex_number s = (let t = unstr (takeWhile number_char s) in
     if number_ok t then Some (t, dropWhile number_char s) else None)"

lemma unstr_str [simp]: "unstr (str s) = s"
  by (simp add: unstr_def str_def unat_of_nat_byte comp_def)

lemma is_digit_char [simp]: "d < 10 \<Longrightarrow> is_digit (digit_char d)"
  by (simp add: is_digit_def digit_value_char)

lemma show_nat_digits: "c \<in> set (show_nat n) \<Longrightarrow> is_digit c"
proof (induction n rule: show_nat.induct)
  case (1 n)
  then show ?case by (cases "n < 10") (auto simp: show_nat.simps [of n])
qed

lemma digit_char_0: "d < 10 \<Longrightarrow> digit_char d = CHR ''0'' \<longleftrightarrow> d = 0"
proof -
  have "digit_value (CHR ''0'') = Some 0" "char_of (48 :: nat) = CHR ''0''" by (simp add: digit_value_def) code_simp
  then show "d < 10 \<Longrightarrow> digit_char d = CHR ''0'' \<longleftrightarrow> d = 0"
    using digit_value_char [of d] digit_value_char [of 0] by (auto simp: digit_char_def)
qed

lemma show_nat_first: "\<exists>d cs. d < 10 \<and> show_nat n = digit_char d # cs \<and> (d = 0 \<longrightarrow> cs = [] \<and> n = 0)"
proof (induction n rule: show_nat.induct)
  case (1 n)
  show ?case
  proof (cases "n < 10")
    case True
    then show ?thesis by (auto simp: show_nat.simps [of n])
  next
    case False
    then obtain d cs where d: "d < 10" "show_nat (n div 10) = digit_char d # cs" "d = 0 \<longrightarrow> cs = [] \<and> n div 10 = 0"
      using 1 by blast
    have "d \<noteq> 0" using d(3) False by auto
    then show ?thesis using d False by (auto simp: show_nat.simps [of n])
  qed
qed

lemma int_part_show: "int_part (show_nat n) = Some []"
proof -
  obtain d cs where d: "d < 10" "show_nat n = digit_char d # cs" "d = 0 \<longrightarrow> cs = []" using show_nat_first by blast
  have "\<forall>c\<in>set cs. is_digit c" using show_nat_digits [of _ n] d(2) by simp
  then show ?thesis using d by (auto simp: int_part_def digit_char_0 dropWhile_eq_Nil_conv)
qed

lemma number_ok_FormatInt: "number_ok (FormatInt v)"
proof -
  obtain d cs where d: "d < 10" "show_nat (nat (sint v)) = digit_char d # cs" using show_nat_head by blast
  then show ?thesis using digit_char_neq [OF d(1)] int_part_show [of "nat (sint v)"] int_part_show [of "nat (- sint v)"]
    by (simp add: number_ok_def FormatInt_def frac_part_def exp_part_def)
qed

lemma number_ok_show: "number_ok (show_nat n)"
proof -
  obtain d cs where d: "d < 10" "show_nat n = digit_char d # cs" using show_nat_head by blast
  then show ?thesis using digit_char_neq [OF d(1)] int_part_show [of n]
    by (simp add: number_ok_def frac_part_def exp_part_def)
qed

definition number_text :: "string \<Rightarrow> bool" where
  "number_text t \<longleftrightarrow> number_ok t \<and> (\<forall>b\<in>set (str t). number_char b)"

lemma digit_number_char: "is_digit c \<Longrightarrow> number_char (of_nat (of_char c))"
  by (auto simp: is_digit_def digit_value_def number_char_def Let_def unat_of_nat_byte split: if_splits)

lemma number_text_show [simp]: "number_text (show_nat n)"
  using number_ok_show digit_number_char show_nat_digits by (auto simp: number_text_def str_def)

lemma number_text_FormatInt [simp]: "number_text (FormatInt v)"
  using number_ok_FormatInt digit_number_char show_nat_digits
  by (auto simp: number_text_def str_def FormatInt_def, simp add: number_char_def)

lemma lex_number_text:
  assumes "number_text t" "rest = [] \<or> \<not> number_char (hd rest)"
  shows "lex_number (str t @ rest) = Some (t, rest)"
proof -
  have "takeWhile number_char (str t @ rest) = str t" "dropWhile number_char (str t @ rest) = rest"
    using assms by (cases rest; auto simp: number_text_def takeWhile_append dropWhile_append dropWhile_eq_Nil_conv)+
  then show ?thesis using assms(1) by (simp add: lex_number_def number_text_def)
qed

subsection \<open>Values\<close>

datatype jval = JNull | JBool bool | JNum string | JStr bytes | JArr "jval list" | JObj "(bytes \<times> jval) list"

fun commas :: "bytes list \<Rightarrow> bytes" where
  "commas [] = []"
| "commas [x] = x"
| "commas (x # y # ys) = x @ 44 # commas (y # ys)"

fun jprint :: "jval \<Rightarrow> bytes" where
  "jprint JNull = str ''null''"
| "jprint (JBool b) = (if b then str ''true'' else str ''false'')"
| "jprint (JNum t) = str t"
| "jprint (JStr s) = quote s"
| "jprint (JArr vs) = 91 # commas (map jprint vs) @ [93]"
| "jprint (JObj ms) = 123 # commas (map (\<lambda>(k, v). quote k @ 58 # jprint v) ms) @ [125]"

text \<open>What is read back: all strings made well-formed.\<close>

fun jclean :: "jval \<Rightarrow> jval" where
  "jclean (JStr s) = JStr (to_valid s)"
| "jclean (JArr vs) = JArr (map jclean vs)"
| "jclean (JObj ms) = JObj (map (\<lambda>(k, v). (to_valid k, jclean v)) ms)"
| "jclean v = v"

fun jok :: "jval \<Rightarrow> bool" where
  "jok (JNum t) = number_text t"
| "jok (JArr vs) = (\<forall>v\<in>set vs. jok v)"
| "jok (JObj ms) = (\<forall>(k, v)\<in>set ms. jok v)"
| "jok v = True"

definition space :: "byte \<Rightarrow> bool" where
  "space b \<longleftrightarrow> b = 32 \<or> b = 9 \<or> b = 10 \<or> b = 13"

definition skip :: "bytes \<Rightarrow> bytes" where
  "skip s = dropWhile space s"

definition literal :: "string \<Rightarrow> jval \<Rightarrow> bytes \<Rightarrow> (jval \<times> bytes) option" where
  "literal l v s = (if take (length l) s = str l then Some (v, drop (length l) s) else None)"

fun jparse :: "nat \<Rightarrow> bytes \<Rightarrow> (jval \<times> bytes) option"
  and jelems :: "nat \<Rightarrow> bytes \<Rightarrow> (jval list \<times> bytes) option"
  and jmembers :: "nat \<Rightarrow> bytes \<Rightarrow> ((bytes \<times> jval) list \<times> bytes) option" where
  "jparse 0 s = None"
| "jparse (Suc f) s =
     (case skip s of
        [] \<Rightarrow> None
      | b # bs \<Rightarrow>
          if b = 34 then do { (t, r) \<leftarrow> unquote bs; Some (JStr t, r) }
          else if b = 91 then
            (if skip bs \<noteq> [] \<and> hd (skip bs) = 93 then Some (JArr [], tl (skip bs))
             else do { (vs, r) \<leftarrow> jelems f bs; Some (JArr vs, r) })
          else if b = 123 then
            (if skip bs \<noteq> [] \<and> hd (skip bs) = 125 then Some (JObj [], tl (skip bs))
             else do { (ms, r) \<leftarrow> jmembers f bs; Some (JObj ms, r) })
          else if b = 110 then literal ''null'' JNull (b # bs)
          else if b = 116 then literal ''true'' (JBool True) (b # bs)
          else if b = 102 then literal ''false'' (JBool False) (b # bs)
          else do { (t, r) \<leftarrow> lex_number (b # bs); Some (JNum t, r) })"
| "jelems 0 s = None"
| "jelems (Suc f) s = do {
     (v, r) \<leftarrow> jparse f s;
     (case skip r of
        [] \<Rightarrow> None
      | b # bs \<Rightarrow>
          if b = 44 then do { (vs, r') \<leftarrow> jelems f bs; Some (v # vs, r') }
          else if b = 93 then Some ([v], bs) else None)
   }"
| "jmembers 0 s = None"
| "jmembers (Suc f) s =
     (case skip s of
        [] \<Rightarrow> None
      | q # qs \<Rightarrow>
          if q \<noteq> 34 then None
          else do {
            (k, r) \<leftarrow> unquote qs;
            (case skip r of
               [] \<Rightarrow> None
             | c # cs \<Rightarrow>
                 if c \<noteq> 58 then None
                 else do {
                   (v, r2) \<leftarrow> jparse f cs;
                   (case skip r2 of
                      [] \<Rightarrow> None
                    | b # bs \<Rightarrow>
                        if b = 44 then do { (ms, r') \<leftarrow> jmembers f bs; Some ((k, v) # ms, r') }
                        else if b = 125 then Some ([(k, v)], bs) else None)
                 })
          })"

text \<open>\<open>Unmarshal\<close> wants one value and nothing but space behind it; a \<open>Decoder\<close> leaves the rest.\<close>

definition json_value :: "bytes \<Rightarrow> jval option" where
  "json_value s = (case jparse (length s + 1) s of Some (v, r) \<Rightarrow> if skip r = [] then Some v else None | None \<Rightarrow> None)"

definition json_decode :: "bytes \<Rightarrow> jval option" where
  "json_decode s = map_option fst (jparse (length s + 1) s)"

subsection \<open>Round trip of values\<close>

definition delim :: "bytes \<Rightarrow> bool" where
  "delim rest \<longleftrightarrow> rest = [] \<or> \<not> number_char (hd rest)"

lemma delim_simps [simp]: "delim []" "delim (44 # r)" "delim (93 # r)" "delim (125 # r)"
  by (simp_all add: delim_def number_char_def)

lemma skip_Cons [simp]: "\<not> space b \<Longrightarrow> skip (b # s) = b # s" "skip [] = []"
  by (simp_all add: skip_def)

lemma space_simps [simp]: "\<not> space 34" "\<not> space 91" "\<not> space 123" "\<not> space 44" "\<not> space 93" "\<not> space 125" "\<not> space 58"
    "\<not> space 110" "\<not> space 116" "\<not> space 102"
  by (simp_all add: space_def)

lemma literal_str [simp]: "literal l v (str l @ r) = Some (v, r)"
  by (simp add: literal_def str_def)

lemma str_literals: "str ''null'' = [110, 117, 108, 108]" "str ''true'' = [116, 114, 117, 101]"
    "str ''false'' = [102, 97, 108, 115, 101]"
  by (simp_all add: str_def)

lemma number_char_special: "number_char b \<Longrightarrow> b \<notin> {34, 91, 123, 110, 116, 102} \<and> \<not> space b"
  by (auto simp: number_char_def space_def)

lemma number_text_head: "number_text t \<Longrightarrow> \<exists>b bs. str t = b # bs \<and> number_char b"
  by (cases "str t") (auto simp: number_text_def str_def number_ok_def int_part_def)

lemma jparse_number:
  assumes "number_text t" "delim rest"
  shows "jparse (Suc f) (str t @ rest) = Some (JNum t, rest)"
proof -
  obtain b bs where b: "str t = b # bs" "number_char b" using number_text_head [OF assms(1)] by blast
  have "lex_number (b # bs @ rest) = Some (t, rest)" using lex_number_text [of t rest] assms b(1) by (simp add: delim_def)
  then show ?thesis using b number_char_special [OF b(2)] by simp
qed

lemma jparse_string: "jparse (Suc f) (quote s @ rest) = Some (JStr (to_valid s), rest)"
  by (simp add: quote_def unquote_quote_body)

lemma jprint_nonempty: "jok v \<Longrightarrow> \<exists>b bs. jprint v = b # bs \<and> \<not> space b \<and> b \<noteq> 93 \<and> b \<noteq> 125"
proof (cases v)
  case (JNum t)
  assume "jok v"
  then show ?thesis using JNum number_text_head [of t] number_char_special by (fastforce simp: number_char_def)
qed (auto simp: str_literals quote_def)

lemma jelems_print:
  assumes "\<And>v f rest. v \<in> set (v0 # vs) \<Longrightarrow> length (jprint v) \<le> f \<Longrightarrow> delim rest \<Longrightarrow> jparse f (jprint v @ rest) = Some (jclean v, rest)"
    and "length (commas (map jprint (v0 # vs))) < f"
  shows "jelems f (commas (map jprint (v0 # vs)) @ 93 # rest) = Some (map jclean (v0 # vs), rest)"
  using assms
proof (induction vs arbitrary: v0 f)
  case Nil
  then show ?case by (cases f) (auto simp: Nil.prems(1))
next
  case (Cons v1 vs)
  obtain g where g: "f = Suc g" using Cons.prems(2) by (cases f) auto
  have "jparse g (jprint v0 @ 44 # commas (map jprint (v1 # vs)) @ 93 # rest) =
      Some (jclean v0, 44 # commas (map jprint (v1 # vs)) @ 93 # rest)"
    using Cons.prems(2) g by (intro Cons.prems(1)) auto
  moreover have "jelems g (commas (map jprint (v1 # vs)) @ 93 # rest) = Some (map jclean (v1 # vs), rest)"
    using Cons.prems(2) g by (intro Cons.IH) (auto intro: Cons.prems(1))
  ultimately show ?case using g by simp
qed

abbreviation print_member :: "bytes \<times> jval \<Rightarrow> bytes" where
  "print_member \<equiv> \<lambda>(k, v). quote k @ 58 # jprint v"

lemma jmembers_step:
  assumes "jparse f (jprint v @ b # r) = Some (w, b # r)" "\<not> space b"
  shows "jmembers (Suc f) (quote k @ 58 # jprint v @ b # r) =
    (if b = 44 then do { (ms, r') \<leftarrow> jmembers f r; Some ((to_valid k, w) # ms, r') }
     else if b = 125 then Some ([(to_valid k, w)], r) else None)"
  using assms by (simp add: quote_def unquote_quote_body)

lemma jmembers_print:
  assumes "\<And>k v f rest. (k, v) \<in> set (m0 # ms) \<Longrightarrow> length (jprint v) \<le> f \<Longrightarrow> delim rest \<Longrightarrow> jparse f (jprint v @ rest) = Some (jclean v, rest)"
    and "length (commas (map print_member (m0 # ms))) < f"
  shows "jmembers f (commas (map print_member (m0 # ms)) @ 125 # rest) = Some (map (\<lambda>(k, v). (to_valid k, jclean v)) (m0 # ms), rest)"
  using assms
proof (induction ms arbitrary: m0 f)
  case Nil
  obtain k v g where kv: "m0 = (k, v)" "f = Suc g" using Nil.prems(2) by (cases m0; cases f) auto
  have "jparse g (jprint v @ 125 # rest) = Some (jclean v, 125 # rest)"
    using Nil.prems(2) kv by (intro Nil.prems(1)) auto
  then show ?case using kv jmembers_step [of g v 125 rest "jclean v" k] by simp
next
  case (Cons m1 ms)
  obtain k v g where kv: "m0 = (k, v)" "f = Suc g" using Cons.prems(2) by (cases m0; cases f) auto
  let ?r = "commas (map print_member (m1 # ms)) @ 125 # rest"
  have "jparse g (jprint v @ 44 # ?r) = Some (jclean v, 44 # ?r)"
    using Cons.prems(2) kv by (intro Cons.prems(1)) auto
  moreover have "jmembers g ?r = Some (map (\<lambda>(k, v). (to_valid k, jclean v)) (m1 # ms), rest)"
    using Cons.prems(2) kv by (intro Cons.IH) (auto intro: Cons.prems(1))
  ultimately show ?case using kv jmembers_step [of g v 44 ?r "jclean v" k] by simp
qed

lemma jparse_jprint: "jok v \<Longrightarrow> length (jprint v) \<le> f \<Longrightarrow> delim rest \<Longrightarrow> jparse f (jprint v @ rest) = Some (jclean v, rest)"
proof (induction v arbitrary: f rest rule: jprint.induct)
  case (3 t)
  then obtain g where "f = Suc g" using number_text_head [of t] by (cases f) auto
  then show ?case using 3 jparse_number by simp
next
  case (4 s)
  then obtain g where "f = Suc g" by (cases f) (auto simp: quote_def)
  then show ?case using jparse_string by simp
next
  case (5 vs)
  then obtain g where g: "f = Suc g" by (cases f) auto
  show ?case
  proof (cases vs)
    case Nil
    then show ?thesis using g by simp
  next
    case (Cons v0 vs')
    then obtain b bs where b: "jprint v0 = b # bs" "\<not> space b" "b \<noteq> 93" using jprint_nonempty [of v0] "5.prems"(1) by auto
    have "jelems g (commas (map jprint (v0 # vs')) @ 93 # rest) = Some (map jclean (v0 # vs'), rest)"
      using "5.prems" "5.IH" g Cons by (intro jelems_print) auto
    moreover obtain cs where "commas (map jprint (v0 # vs')) = b # cs" using b(1) by (cases vs') auto
    ultimately show ?thesis using g Cons b(2,3) by simp
  qed
next
  case (6 ms)
  then obtain g where g: "f = Suc g" by (cases f) auto
  show ?case
  proof (cases ms)
    case Nil
    then show ?thesis using g by simp
  next
    case (Cons m0 ms')
    have "jmembers g (commas (map print_member (m0 # ms')) @ 125 # rest) =
        Some (map (\<lambda>(k, v). (to_valid k, jclean v)) (m0 # ms'), rest)"
      using "6.prems" "6.IH" g Cons by (intro jmembers_print) fastforce+
    moreover obtain cs where "commas (map print_member (m0 # ms')) = 34 # cs"
      by (cases m0; cases ms') (auto simp: quote_def)
    ultimately show ?thesis using g Cons by simp
  qed
next
  case 1
  then obtain g where "f = Suc g" by (cases f) (auto simp: str_def)
  then show ?case using literal_str [of "''null''" JNull rest] by (simp add: str_literals)
next
  case (2 b)
  then obtain g where "f = Suc g" by (cases f) (auto simp: str_def split: if_splits)
  then show ?case using literal_str [of "''true''" "JBool True" rest] literal_str [of "''false''" "JBool False" rest]
    by (simp add: str_literals)
qed

lemma json_value_jprint: "jok v \<Longrightarrow> json_value (jprint v) = Some (jclean v)"
  using jparse_jprint [of v "length (jprint v) + 1" "[]"] by (simp add: json_value_def)

lemma json_value_line: "jok v \<Longrightarrow> json_value (jprint v @ [10]) = Some (jclean v)"
  using jparse_jprint [of v "length (jprint v) + 2" "[10]"]
  by (simp add: json_value_def delim_def number_char_def skip_def space_def)

lemma json_decode_jprint: "jok v \<Longrightarrow> delim rest \<Longrightarrow> json_decode (jprint v @ rest) = Some (jclean v)"
  using jparse_jprint [of v "length (jprint v @ rest) + 1" rest] by (simp add: json_decode_def)

subsection \<open>Strings that are read are well-formed\<close>

definition rune :: "bytes \<Rightarrow> bool" where
  "rune p \<longleftrightarrow> p \<noteq> [] \<and> rune_len p = length p"

lemma to_valid_rune: "rune p \<Longrightarrow> to_valid (p @ t) = p @ to_valid t"
proof -
  assume p: "rune p"
  then obtain b bs where b: "p = b # bs" by (cases p) (auto simp: rune_def)
  have "rune_len (b # bs @ t) = Suc (length bs)" using rune_len_append [of p t] p b by (simp add: rune_def)
  then show ?thesis using b by (simp add: to_valid.simps(2))
qed

lemma rune_ascii: "b < 0x80 \<Longrightarrow> rune [b]"
  by (simp add: rune_def rune_len_ascii)

lemma rune_replacement: "rune replacement"
  by (simp add: rune_def replacement_def rune_len_def rune_width_def tail_ok_def second_ok_def cont_def)

lemma rune_take: "rune_len s \<noteq> 0 \<Longrightarrow> rune (take (rune_len s) s)"
  using rune_len_append [of s "[]"] rune_len_le [of s] by (auto simp: rune_def)

lemma of_nat_byte_cmp:
  assumes "n < 256"
  shows "(of_nat n :: byte) < numeral w \<longleftrightarrow> n < unat (numeral w :: byte)" "(of_nat n :: byte) \<le> numeral w \<longleftrightarrow> n \<le> unat (numeral w :: byte)"
    "numeral w \<le> (of_nat n :: byte) \<longleftrightarrow> unat (numeral w :: byte) \<le> n" "(of_nat n :: byte) = numeral w \<longleftrightarrow> n = unat (numeral w :: byte)"
  using unat_of_nat_byte [OF assms] by (auto simp: word_less_nat_alt word_le_nat_alt word_unat_eq_iff)

lemma cont_of_nat: "0x80 \<le> n \<Longrightarrow> n < 0xC0 \<Longrightarrow> cont (of_nat n)"
  by (simp add: cont_def of_nat_byte_cmp)

lemma rune_two: "0xC2 \<le> m \<Longrightarrow> m < 0xE0 \<Longrightarrow> cont y \<Longrightarrow> rune [of_nat m, y]"
  by (simp add: rune_def rune_len_def rune_width_def tail_ok_def second_ok_def of_nat_byte_cmp)

lemma rune_three:
  "0xE0 \<le> m \<Longrightarrow> m < 0xF0 \<Longrightarrow> 0x80 \<le> n \<Longrightarrow> n < 0xC0 \<Longrightarrow> (m = 0xE0 \<longrightarrow> 0xA0 \<le> n) \<Longrightarrow> (m = 0xED \<longrightarrow> n \<le> 0x9F) \<Longrightarrow>
   cont y \<Longrightarrow> rune [of_nat m, of_nat n, y]"
  by (simp add: rune_def rune_len_def rune_width_def tail_ok_def second_ok_def of_nat_byte_cmp cont_of_nat)

lemma rune_four:
  "0xF0 \<le> m \<Longrightarrow> m \<le> 0xF4 \<Longrightarrow> 0x80 \<le> n \<Longrightarrow> n < 0xC0 \<Longrightarrow> (m = 0xF0 \<longrightarrow> 0x90 \<le> n) \<Longrightarrow> (m = 0xF4 \<longrightarrow> n \<le> 0x8F) \<Longrightarrow>
   cont y \<Longrightarrow> cont z \<Longrightarrow> rune [of_nat m, of_nat n, y, z]"
  by (simp add: rune_def rune_len_def rune_width_def tail_ok_def second_ok_def of_nat_byte_cmp cont_of_nat)

lemma prepend_eq_Some: "prepend p x = Some (t, r) \<longleftrightarrow> (\<exists>s. x = Some (s, r) \<and> t = p @ s)"
  by (auto simp: prepend_def)

lemma three_range:
  fixes x y :: nat
  assumes "32 \<le> 64 * x + y" "64 * x + y < 1024" "64 * x + y < 864 \<or> 896 \<le> 64 * x + y" "y < 64"
  shows "x < 16" "x = 0 \<Longrightarrow> 32 \<le> y" "x = 13 \<Longrightarrow> y \<le> 31"
  using assms by linarith+

lemma four_range:
  fixes x y :: nat
  assumes "16 \<le> 64 * x + y" "64 * x + y < 272" "y < 64"
  shows "x \<le> 4" "x = 0 \<Longrightarrow> 16 \<le> y" "x = 4 \<Longrightarrow> y \<le> 15"
  using assms by linarith+

lemma rune_EncodeRune: "rune (EncodeRune c)"
proof -
  have cont6: "cont (of_nat (0x80 + n mod 64))" for n by (rule cont_of_nat) (use mod_less_divisor [of 64 n] in linarith)+
  consider (one) "c < 0x80" | (two) "0x80 \<le> c" "c < 0x800" | (bad) "0x800 \<le> c" "(0xD800 \<le> c \<and> c < 0xE000) \<or> c > 0x10FFFF"
    | (three) "0x800 \<le> c" "c < 0x10000" "\<not> (0xD800 \<le> c \<and> c < 0xE000)" | (four) "0x10000 \<le> c" "c \<le> 0x10FFFF"
    by linarith
  then show ?thesis
  proof cases
    case one
    then show ?thesis by (simp add: EncodeRune_def rune_ascii of_nat_byte_cmp)
  next
    case two
    then have "EncodeRune c = [of_nat (0xC0 + c div 64), of_nat (0x80 + c mod 64)]" by (simp add: EncodeRune_def)
    moreover have "rune [of_nat (0xC0 + c div 64), of_nat (0x80 + c mod 64)]"
      by (rule rune_two [OF _ _ cont6]) (use two in linarith)+
    ultimately show ?thesis by simp
  next
    case bad
    then show ?thesis using rune_replacement by (auto simp: EncodeRune_def)
  next
    case three
    then have "EncodeRune c = [of_nat (0xE0 + c div 4096), of_nat (0x80 + c div 64 mod 64), of_nat (0x80 + c mod 64)]"
      by (auto simp: EncodeRune_def)
    moreover have "rune [of_nat (0xE0 + c div 4096), of_nat (0x80 + c div 64 mod 64), of_nat (0x80 + c mod 64)]"
    proof (rule rune_three [OF _ _ _ _ _ _ cont6])
      have q: "c div 4096 = c div 64 div 64" "32 \<le> c div 64" "c div 64 < 1024" "c div 64 < 864 \<or> 896 \<le> c div 64"
        using three by (auto simp: div_mult2_eq [symmetric])
      show "0xE0 \<le> 0xE0 + c div 4096" "0xE0 + c div 4096 < 0xF0" "0x80 \<le> 0x80 + c div 64 mod 64" "0x80 + c div 64 mod 64 < 0xC0"
        "0xE0 + c div 4096 = 0xE0 \<longrightarrow> 0xA0 \<le> 0x80 + c div 64 mod 64" "0xE0 + c div 4096 = 0xED \<longrightarrow> 0x80 + c div 64 mod 64 \<le> 0x9F"
        using three_range [of "c div 64 div 64" "c div 64 mod 64", unfolded mult_div_mod_eq, OF q(2-4)] unfolding q(1) by simp_all
    qed
    ultimately show ?thesis by simp
  next
    case four
    then have "EncodeRune c = [of_nat (0xF0 + c div 262144), of_nat (0x80 + c div 4096 mod 64),
        of_nat (0x80 + c div 64 mod 64), of_nat (0x80 + c mod 64)]"
      by (simp add: EncodeRune_def)
    moreover have "rune [of_nat (0xF0 + c div 262144), of_nat (0x80 + c div 4096 mod 64),
        of_nat (0x80 + c div 64 mod 64), of_nat (0x80 + c mod 64)]"
    proof (rule rune_four [OF _ _ _ _ _ _ cont6 cont6])
      have q: "c div 262144 = c div 4096 div 64" "16 \<le> c div 4096" "c div 4096 < 272"
        using four by (auto simp: div_mult2_eq [symmetric])
      show "0xF0 \<le> 0xF0 + c div 262144" "0xF0 + c div 262144 \<le> 0xF4" "0x80 \<le> 0x80 + c div 4096 mod 64" "0x80 + c div 4096 mod 64 < 0xC0"
        "0xF0 + c div 262144 = 0xF0 \<longrightarrow> 0x90 \<le> 0x80 + c div 4096 mod 64" "0xF0 + c div 262144 = 0xF4 \<longrightarrow> 0x80 + c div 4096 mod 64 \<le> 0x8F"
        using four_range [of "c div 4096 div 64" "c div 4096 mod 64", unfolded mult_div_mod_eq, OF q(2,3)] unfolding q(1) by simp_all
    qed
    ultimately show ?thesis by simp
  qed
qed

lemma length_EncodeRune: "length (EncodeRune c) \<le> 4"
  by (simp add: EncodeRune_def replacement_def)

lemma unquote_chunk:
  assumes "unquote (b # bs) = Some (t, r)"
  shows "t = [] \<and> r = bs \<or> (\<exists>x p t'. unquote x = Some (t', r) \<and> t = p @ t' \<and> rune p \<and> length x \<le> length bs \<and>
    length p + 3 * length x \<le> 3 * Suc (length bs))"
proof (cases "b = 92")
  case True
  then obtain e es where bs: "bs = e # es" using assms by (cases bs) (auto simp: unquote.simps(2))
  show ?thesis
  proof (cases "simple_escape e")
    case None
    then obtain c x where x: "getu4 es = Some (c, x)"
      using assms True bs by (auto simp: unquote.simps(2) split: if_splits option.splits)
    have "\<exists>y p t'. unquote y = Some (t', r) \<and> t = p @ t' \<and> rune p \<and> length p \<le> 4 \<and> length y \<le> length x"
    proof (cases "low_surrogate c x")
      case (Some q)
      then obtain c' y where y: "low_surrogate c x = Some (c', y)" by (cases q) auto
      then have "length y \<le> length x" using low_surrogate_length by (simp add: less_imp_le)
      then show ?thesis using assms True bs None x y rune_EncodeRune length_EncodeRune
        by (fastforce simp: unquote.simps(2) prepend_eq_Some split: if_splits)
    next
      case none: None
      have "\<exists>p t'. unquote x = Some (t', r) \<and> t = p @ t' \<and> p \<in> {EncodeRune c, replacement}"
        using assms True bs None x none by (auto simp: unquote.simps(2) prepend_eq_Some split: if_splits)
      moreover have "rune p \<and> length p \<le> 4" if "p \<in> {EncodeRune c, replacement}" for p
        using that rune_EncodeRune rune_replacement length_EncodeRune by (auto simp: replacement_def)
      ultimately show ?thesis by blast
    qed
    then obtain y p t' where y: "unquote y = Some (t', r)" "t = p @ t'" "rune p" "length p \<le> 4" "length y \<le> length x" by blast
    have "length p + 3 * length y \<le> 3 * Suc (length bs)" "length y \<le> length bs"
      using y(4,5) getu4_length [OF x] bs by simp_all
    then show ?thesis using y(1-3) by blast
  next
    case (Some c)
    then have "c < 0x80" by (auto simp: simple_escape_def split: if_splits)
    then have "rune [c]" by (rule rune_ascii)
    moreover obtain t' where "unquote es = Some (t', r)" "t = [c] @ t'"
      using Some assms True bs by (auto simp: unquote.simps(2) prepend_eq_Some)
    moreover have "length es \<le> length bs" "length [c] + 3 * length es \<le> 3 * Suc (length bs)" by (simp_all add: bs)
    ultimately show ?thesis by blast
  qed
next
  case False
  let ?n = "rune_len (b # bs)"
  consider "b = 34" | "b \<noteq> 34" "b < 0x80" | "\<not> b < 0x80" "?n = 0" | "\<not> b < 0x80" "?n \<noteq> 0" by blast
  then show ?thesis
  proof cases
    case 1
    then show ?thesis using assms by (auto simp: unquote.simps(2))
  next
    case 2
    then obtain t' where "unquote bs = Some (t', r)" "t = [b] @ t'"
      using assms False by (auto simp: unquote.simps(2) prepend_eq_Some split: if_splits)
    moreover have "length [b] + 3 * length bs \<le> 3 * Suc (length bs)" by simp
    ultimately show ?thesis using rune_ascii [OF 2(2)] by blast
  next
    case 3
    then obtain t' where "unquote bs = Some (t', r)" "t = replacement @ t'"
      using assms False high_byte [of b] by (auto simp: unquote.simps(2) prepend_eq_Some split: if_splits)
    moreover have "length replacement + 3 * length bs \<le> 3 * Suc (length bs)" by (simp add: replacement_def)
    ultimately show ?thesis using rune_replacement by blast
  next
    case 4
    then obtain t' where "unquote (drop (?n - 1) bs) = Some (t', r)" "t = take ?n (b # bs) @ t'"
      using assms False high_byte [of b] by (auto simp: unquote.simps(2) prepend_eq_Some split: if_splits)
    moreover have "length (drop (?n - 1) bs) \<le> length bs" "length (take ?n (b # bs)) + 3 * length (drop (?n - 1) bs) \<le> 3 * Suc (length bs)"
      using rune_len_le [of "b # bs"] 4(2) by simp_all
    ultimately show ?thesis using rune_take [OF 4(2)] by blast
  qed
qed

lemma unquote_valid: "unquote s = Some (t, r) \<Longrightarrow> valid_utf8 t \<and> length t \<le> 3 * length s \<and> length r < length s"
proof (induction s arbitrary: t rule: length_induct)
  case (1 s)
  then obtain b bs where s: "s = b # bs" by (cases s) auto
  from unquote_chunk [of b bs t r] 1(2) s
  consider "t = []" "r = bs" | x p t' where "unquote x = Some (t', r)" "t = p @ t'" "rune p" "length x \<le> length bs"
    "length p + 3 * length x \<le> 3 * length s" by auto
  then show ?case
  proof cases
    case (2 x p t')
    then have "length x < length s" by (simp add: s)
    then have IH: "valid_utf8 t' \<and> length t' \<le> 3 * length x \<and> length r < length x" using 1(1) 2(1) by blast
    then have "valid_utf8 t" using 2(2) to_valid_rune [OF 2(3), of t'] by (simp add: valid_utf8_def)
    then show ?thesis using IH 2(2,4,5) s by simp
  qed (simp add: s valid_utf8_def)
qed

lemmas unquote_length = unquote_valid [THEN conjunct2, THEN conjunct2]

subsection \<open>The fuel is enough\<close>

lemma skip_length: "length (skip s) \<le> length s"
  by (simp add: skip_def length_dropWhile_le)

lemma skip_Cons_length: "skip s = b # bs \<Longrightarrow> length bs < length s"
  using skip_length [of s] by simp

lemma literal_length: "literal l v s = Some (w, r) \<Longrightarrow> l \<noteq> [] \<Longrightarrow> length r < length s"
  by (cases s) (auto simp: literal_def str_def split: if_splits)

lemma lex_number_length: "lex_number s = Some (t, r) \<Longrightarrow> length r < length s"
proof (cases "takeWhile number_char s = []")
  case False
  moreover assume "lex_number s = Some (t, r)"
  moreover have "length (takeWhile number_char s) + length (dropWhile number_char s) = length s"
    by (metis length_append takeWhile_dropWhile_id)
  moreover have "0 < length (takeWhile number_char s)" using False by blast
  ultimately show ?thesis by (auto simp: lex_number_def Let_def simp del: length_greater_0_conv split: if_splits)
qed (simp add: lex_number_def unstr_def number_ok_def int_part_def)

text \<open>\<open>fueled p s x r\<close>: on \<open>s\<close> the parser \<open>p\<close> returns \<open>x\<close> and the shorter rest
  \<open>r\<close>, whenever its fuel is at least the number of bytes it consumes.\<close>

definition fueled :: "(nat \<Rightarrow> bytes \<Rightarrow> ('a \<times> bytes) option) \<Rightarrow> bytes \<Rightarrow> 'a \<Rightarrow> bytes \<Rightarrow> bool" where
  "fueled p s x r \<longleftrightarrow> length r < length s \<and> (\<forall>f. length s \<le> length r + f \<longrightarrow> p f s = Some (x, r))"

lemma fueledI:
  assumes "length r < length s" "\<And>f. length s \<le> length r + Suc f \<Longrightarrow> p (Suc f) s = Some (x, r)"
  shows "fueled p s x r"
proof -
  have "p f s = Some (x, r)" if "length s \<le> length r + f" for f using assms that by (cases f) auto
  then show ?thesis using assms(1) by (simp add: fueled_def)
qed

lemma fueledD: "fueled p s x r \<Longrightarrow> length r < length s" "fueled p s x r \<Longrightarrow> length s \<le> length r + f \<Longrightarrow> p f s = Some (x, r)"
  by (simp_all add: fueled_def)

lemma jparse_leaf:
  assumes "jparse (Suc g) s = Some (v, r)" "skip s = b # bs" "b \<notin> {91, 123}"
  shows "fueled jparse s v r"
proof (rule fueledI)
  have "(\<exists>t. unquote bs = Some (t, r)) \<or> (\<exists>l w. literal l w (b # bs) = Some (v, r) \<and> l \<noteq> []) \<or> (\<exists>t. lex_number (b # bs) = Some (t, r))"
    using assms by (auto split: if_splits Option.bind_splits)
  then have "length r < length (b # bs)" using unquote_length literal_length lex_number_length by (metis length_Cons less_SucI)
  then show "length r < length s" using skip_Cons_length [OF assms(2)] by simp
  have "jparse (Suc f) s = jparse (Suc g) s" for f using assms(2,3) by simp
  then show "jparse (Suc f) s = Some (v, r)" for f using assms(1) by metis
qed

lemma jparse_closed:
  assumes "skip s = b # bs" "b = 91 \<and> c = 93 \<and> v = JArr [] \<or> b = 123 \<and> c = 125 \<and> v = JObj []" "skip bs = c # r"
  shows "fueled jparse s v r"
  using assms skip_Cons_length [OF assms(1)] skip_Cons_length [OF assms(3)] by (intro fueledI) auto

lemma jparse_array:
  assumes "skip s = 91 # bs" "fueled jelems bs vs r" "\<not> (skip bs \<noteq> [] \<and> hd (skip bs) = 93)"
  shows "fueled jparse s (JArr vs) r"
  using assms(1,3) skip_Cons_length [OF assms(1)] fueledD [OF assms(2)] by (intro fueledI) auto

lemma jparse_object:
  assumes "skip s = 123 # bs" "fueled jmembers bs ms r" "\<not> (skip bs \<noteq> [] \<and> hd (skip bs) = 125)"
  shows "fueled jparse s (JObj ms) r"
  using assms(1,3) skip_Cons_length [OF assms(1)] fueledD [OF assms(2)] by (intro fueledI) auto

lemma jparse_fueled:
  assumes "jparse (Suc g) s = Some (v, r)"
    and elems: "\<And>s vs r. jelems g s = Some (vs, r) \<Longrightarrow> fueled jelems s vs r"
    and members: "\<And>s ms r. jmembers g s = Some (ms, r) \<Longrightarrow> fueled jmembers s ms r"
  shows "fueled jparse s v r"
proof -
  obtain b bs where b: "skip s = b # bs" using assms(1) by (auto split: list.splits)
  consider (leaf) "b \<notin> {91, 123}" | (arr) "b = 91" | (obj) "b = 123" by blast
  then show ?thesis
  proof cases
    case leaf
    then show ?thesis using jparse_leaf assms(1) b by blast
  next
    case arr
    then consider (closed) "skip bs = 93 # r" "v = JArr []"
      | vs where "jelems g bs = Some (vs, r)" "v = JArr vs" "\<not> (skip bs \<noteq> [] \<and> hd (skip bs) = 93)"
      using assms(1) b by (cases "skip bs") (auto split: if_splits Option.bind_splits)
    then show ?thesis using jparse_closed [of s b bs] jparse_array [of s bs] elems b arr by cases auto
  next
    case obj
    then consider (closed) "skip bs = 125 # r" "v = JObj []"
      | ms where "jmembers g bs = Some (ms, r)" "v = JObj ms" "\<not> (skip bs \<noteq> [] \<and> hd (skip bs) = 125)"
      using assms(1) b by (cases "skip bs") (auto split: if_splits Option.bind_splits)
    then show ?thesis using jparse_closed [of s b bs] jparse_object [of s bs] members b obj by cases auto
  qed
qed

lemma jelems_Some:
  assumes "jelems (Suc g) s = Some (vs, r)"
  obtains w r1 where "jparse g s = Some (w, r1)" "skip r1 = 93 # r" "vs = [w]"
    | w r1 bs us where "jparse g s = Some (w, r1)" "skip r1 = 44 # bs" "jelems g bs = Some (us, r)" "vs = w # us"
  using assms by (auto split: Option.bind_splits list.splits if_splits)

lemma jelems_fueled:
  assumes "jelems (Suc g) s = Some (vs, r)"
    and parse: "\<And>s v r. jparse g s = Some (v, r) \<Longrightarrow> fueled jparse s v r"
    and elems: "\<And>s vs r. jelems g s = Some (vs, r) \<Longrightarrow> fueled jelems s vs r"
  shows "fueled jelems s vs r"
  using assms(1)
proof (cases rule: jelems_Some)
  case (1 w r1)
  then show ?thesis using fueledD [OF parse [OF 1(1)]] skip_Cons_length [OF 1(2)] by (intro fueledI) auto
next
  case (2 w r1 bs us)
  then show ?thesis
    using fueledD [OF parse [OF 2(1)]] fueledD [OF elems [OF 2(3)]] skip_Cons_length [OF 2(2)] by (intro fueledI) auto
qed

lemma jmembers_Some:
  assumes "jmembers (Suc g) s = Some (ms, r)"
  obtains qs k r0 cs w r1 b bs where "skip s = 34 # qs" "unquote qs = Some (k, r0)" "skip r0 = 58 # cs"
    "jparse g cs = Some (w, r1)" "skip r1 = b # bs"
    "b = 125 \<and> r = bs \<and> ms = [(k, w)] \<or> b = 44 \<and> (\<exists>us. jmembers g bs = Some (us, r) \<and> ms = (k, w) # us)"
  using assms by (auto split: Option.bind_splits list.splits if_splits)

lemma jmembers_fueled:
  assumes "jmembers (Suc g) s = Some (ms, r)"
    and parse: "\<And>s v r. jparse g s = Some (v, r) \<Longrightarrow> fueled jparse s v r"
    and members: "\<And>s ms r. jmembers g s = Some (ms, r) \<Longrightarrow> fueled jmembers s ms r"
  shows "fueled jmembers s ms r"
  using assms(1)
proof (cases rule: jmembers_Some)
  case (1 qs k r0 cs w r1 b bs)
  note len = skip_Cons_length [OF 1(1)] unquote_length [OF 1(2)] skip_Cons_length [OF 1(3)] skip_Cons_length [OF 1(5)]
    fueledD [OF parse [OF 1(4)]]
  from 1(6) show ?thesis
  proof (elim disjE conjE exE)
    fix us
    assume u: "b = 44" "jmembers g bs = Some (us, r)" "ms = (k, w) # us"
    show ?thesis using u(1,3) 1(1-5) len fueledD [OF members [OF u(2)]] by (intro fueledI) auto
  qed (use 1(1-5) len in \<open>auto intro!: fueledI\<close>)
qed

lemma parser_fueled:
  "(\<forall>s v r. jparse g s = Some (v, r) \<longrightarrow> fueled jparse s v r) \<and>
   (\<forall>s vs r. jelems g s = Some (vs, r) \<longrightarrow> fueled jelems s vs r) \<and>
   (\<forall>s ms r. jmembers g s = Some (ms, r) \<longrightarrow> fueled jmembers s ms r)"
proof (induction g)
  case (Suc g)
  then show ?case using jparse_fueled [of g] jelems_fueled [of g] jmembers_fueled [of g] by blast
qed simp

lemma jparse_fuel_enough: "jparse g s = Some (v, r) \<Longrightarrow> jparse (length s + 1) s = Some (v, r)"
  using parser_fueled [of g] fueledD(2) [of jparse s v r "length s + 1"] by (simp del: jparse.simps)

lemma parser_rest:
  "jparse g s = Some (v, r) \<Longrightarrow> length r < length s"
  using parser_fueled [of g] fueledD(1) [of jparse s v r] by blast

text \<open>A parsed value holds well-formed strings only, and none of its parts is longer than the input by more
  than a factor of three.\<close>

fun jwf :: "nat \<Rightarrow> jval \<Rightarrow> bool" where
  "jwf n (JStr s) = (valid_utf8 s \<and> length s \<le> n)"
| "jwf n (JArr vs) = (length vs \<le> n \<and> (\<forall>v\<in>set vs. jwf n v))"
| "jwf n (JObj ms) = (\<forall>(k, v)\<in>set ms. jwf n v)"
| "jwf n v = True"

lemma jwf_mono: "jwf m v \<Longrightarrow> m \<le> n \<Longrightarrow> jwf n v"
  by (induction m v rule: jwf.induct) auto

lemma literal_value: "literal l w s = Some (v, r) \<Longrightarrow> v = w"
  by (simp add: literal_def split: if_splits)

lemma jparse_jwf:
  assumes "jparse (Suc g) s = Some (v, r)"
    and elems: "\<And>s vs r. jelems g s = Some (vs, r) \<Longrightarrow> length vs \<le> length s \<and> (\<forall>v\<in>set vs. jwf (3 * length s) v)"
    and members: "\<And>s ms r. jmembers g s = Some (ms, r) \<Longrightarrow> \<forall>(k, v)\<in>set ms. jwf (3 * length s) v"
  shows "jwf (3 * length s) v"
proof -
  obtain b bs where b: "skip s = b # bs" using assms(1) by (auto split: list.splits)
  have mono: "jwf (3 * length bs) w \<Longrightarrow> jwf (3 * length s) w" for w using skip_Cons_length [OF b] jwf_mono by simp
  consider (str) t where "unquote bs = Some (t, r)" "v = JStr t" | (arr) vs where "jelems g bs = Some (vs, r)" "v = JArr vs"
    | (obj) ms where "jmembers g bs = Some (ms, r)" "v = JObj ms" | "v \<in> {JArr [], JObj [], JNull, JBool True, JBool False}"
    | t where "v = JNum t"
    using assms(1) b by (auto dest!: literal_value split: if_splits Option.bind_splits)
  then show ?thesis
  proof cases
    case str
    then show ?thesis using unquote_valid [OF str(1)] skip_Cons_length [OF b] by simp
  next
    case arr
    then show ?thesis using elems [OF arr(1)] skip_Cons_length [OF b] mono by auto
  next
    case obj
    then show ?thesis using members [OF obj(1)] mono by auto
  qed auto
qed

lemma jelems_jwf:
  assumes "jelems (Suc g) s = Some (vs, r)"
    and parse: "\<And>s v r. jparse g s = Some (v, r) \<Longrightarrow> jwf (3 * length s) v"
    and elems: "\<And>s vs r. jelems g s = Some (vs, r) \<Longrightarrow> length vs \<le> length s \<and> (\<forall>v\<in>set vs. jwf (3 * length s) v)"
  shows "length vs \<le> length s \<and> (\<forall>v\<in>set vs. jwf (3 * length s) v)"
  using assms(1)
proof (cases rule: jelems_Some)
  case (1 w r1)
  then show ?thesis using parse [OF 1(1)] parser_rest [OF 1(1)] by simp
next
  case (2 w r1 bs us)
  have "length bs < length s" using parser_rest [OF 2(1)] skip_Cons_length [OF 2(2)] by simp
  then show ?thesis using parse [OF 2(1)] elems [OF 2(3)] 2(4) jwf_mono [of "3 * length bs" _ "3 * length s"] by fastforce
qed

lemma jmembers_jwf:
  assumes "jmembers (Suc g) s = Some (ms, r)"
    and parse: "\<And>s v r. jparse g s = Some (v, r) \<Longrightarrow> jwf (3 * length s) v"
    and members: "\<And>s ms r. jmembers g s = Some (ms, r) \<Longrightarrow> \<forall>(k, v)\<in>set ms. jwf (3 * length s) v"
  shows "\<forall>(k, v)\<in>set ms. jwf (3 * length s) v"
  using assms(1)
proof (cases rule: jmembers_Some)
  case (1 qs k r0 cs w r1 b bs)
  have "length cs < length s" "length bs < length s"
    using skip_Cons_length [OF 1(1)] unquote_length [OF 1(2)] skip_Cons_length [OF 1(3)] parser_rest [OF 1(4)]
      skip_Cons_length [OF 1(5)] by simp_all
  then have mono: "jwf (3 * length cs) v \<Longrightarrow> jwf (3 * length s) v" "jwf (3 * length bs) v \<Longrightarrow> jwf (3 * length s) v" for v
    using jwf_mono by simp_all
  show ?thesis using 1(6) mono(1) [OF parse [OF 1(4)]] members mono(2) by fastforce
qed

lemma parser_jwf:
  "(\<forall>s v r. jparse g s = Some (v, r) \<longrightarrow> jwf (3 * length s) v) \<and>
   (\<forall>s vs r. jelems g s = Some (vs, r) \<longrightarrow> length vs \<le> length s \<and> (\<forall>v\<in>set vs. jwf (3 * length s) v)) \<and>
   (\<forall>s ms r. jmembers g s = Some (ms, r) \<longrightarrow> (\<forall>(k, v)\<in>set ms. jwf (3 * length s) v))"
proof (induction g)
  case (Suc g)
  have "\<forall>s v r. jparse (Suc g) s = Some (v, r) \<longrightarrow> jwf (3 * length s) v" using jparse_jwf [of g] Suc by blast
  moreover have "\<forall>s vs r. jelems (Suc g) s = Some (vs, r) \<longrightarrow> length vs \<le> length s \<and> (\<forall>v\<in>set vs. jwf (3 * length s) v)"
    using jelems_jwf [of g] Suc by blast
  moreover have "\<forall>s ms r. jmembers (Suc g) s = Some (ms, r) \<longrightarrow> (\<forall>(k, v)\<in>set ms. jwf (3 * length s) v)"
    using jmembers_jwf [of g] Suc by blast
  ultimately show ?case by blast
qed simp

lemma json_value_jwf: "json_value s = Some v \<Longrightarrow> jwf (3 * length s) v"
  using parser_jwf [of "length s + 1"] by (auto simp: json_value_def simp del: jparse.simps split: option.splits if_splits)

lemma json_decode_jwf: "json_decode s = Some v \<Longrightarrow> jwf (3 * length s) v"
  using parser_jwf [of "length s + 1"] by (auto simp: json_decode_def simp del: jparse.simps)

end
