(* ===== verification/Codec.thy ===== *)
theory Codec
  imports Fsm EngineRuns Json
begin

text \<open>
  The JSON records of the sources: \<open>walRecord\<close> (\<open>engine.go\<close>), \<open>Command\<close> (\<open>fsm.go\<close>)
  and the entry list of a snapshot (\<open>snapshot.go\<close>), with their struct tags. They instantiate the
  codec parameters of \<open>Engine\<close>, \<open>Fsm\<close> and \<open>Batch\<close>.

  Writing and reading back gives the same record with the key made well-formed UTF-8; so the round
  trip holds exactly for keys that are well-formed, and keys that are not are replaced.
\<close>

subsection \<open>Reading struct fields\<close>

text \<open>A member is matched to a field by its exact name, else without regard to case (the Kelvin sign folds
  to K and the long s to S); members without a field are ignored. \<open>null\<close> leaves a field as it is,
  except a byte slice, which becomes nil. A value of the wrong type is an error. A byte slice is read from
  base 64 or from an array of small numbers (a \<open>null\<close> among them counts as 0).\<close>

definition fold_byte :: "byte \<Rightarrow> byte" where
  "fold_byte b = (if 97 \<le> b \<and> b \<le> 122 then b - 32 else b)"

fun fold_name :: "bytes \<Rightarrow> bytes" where
  "fold_name (a # b # c # s) =
     (if a = 0xE2 \<and> b = 0x84 \<and> c = 0xAA then 75 # fold_name s
      else if a = 0xC5 \<and> b = 0xBF then 83 # fold_name (c # s)
      else fold_byte a # fold_name (b # c # s))"
| "fold_name [a, b] = (if a = 0xC5 \<and> b = 0xBF then [83] else [fold_byte a, fold_byte b])"
| "fold_name [a] = [fold_byte a]"
| "fold_name [] = []"

type_synonym 'a setter = "'a \<Rightarrow> jval \<Rightarrow> 'a option"

definition field_of :: "(string \<times> 'a setter) list \<Rightarrow> bytes \<Rightarrow> 'a setter option" where
  "field_of fs k =
     (case find (\<lambda>(n, _). str n = k) fs of
        Some (_, f) \<Rightarrow> Some f
      | None \<Rightarrow> map_option snd (find (\<lambda>(n, _). fold_name (str n) = fold_name k) fs))"

definition read_member :: "(string \<times> 'a setter) list \<Rightarrow> 'a \<Rightarrow> bytes \<times> jval \<Rightarrow> 'a option" where
  "read_member fs r m = (case field_of fs (fst m) of None \<Rightarrow> Some r | Some f \<Rightarrow> f r (snd m))"

definition read_struct :: "(string \<times> 'a setter) list \<Rightarrow> 'a \<Rightarrow> jval \<Rightarrow> 'a option" where
  "read_struct fs zero v =
     (case v of JNull \<Rightarrow> Some zero | JObj ms \<Rightarrow> foldM (read_member fs) zero ms | _ \<Rightarrow> None)"

definition set_string :: "(bytes \<Rightarrow> 'a \<Rightarrow> 'a) \<Rightarrow> 'a setter" where
  "set_string upd r v = (case v of JNull \<Rightarrow> Some r | JStr s \<Rightarrow> Some (upd s r) | _ \<Rightarrow> None)"

definition set_int64 :: "(i64 \<Rightarrow> 'a \<Rightarrow> 'a) \<Rightarrow> 'a setter" where
  "set_int64 upd r v =
     (case v of JNull \<Rightarrow> Some r | JNum t \<Rightarrow> map_option (\<lambda>i. upd i r) (ParseInt_checked t) | _ \<Rightarrow> None)"

definition set_bool :: "(bool \<Rightarrow> 'a \<Rightarrow> 'a) \<Rightarrow> 'a setter" where
  "set_bool upd r v = (case v of JNull \<Rightarrow> Some r | JBool b \<Rightarrow> Some (upd b r) | _ \<Rightarrow> None)"

definition uint8_of :: "string \<Rightarrow> byte option" where
  "uint8_of t = (case ParseUint t of Some (n, True) \<Rightarrow> if n < 256 then Some (of_nat n) else None | _ \<Rightarrow> None)"

definition set_uint8 :: "(byte \<Rightarrow> 'a \<Rightarrow> 'a) \<Rightarrow> 'a setter" where
  "set_uint8 upd r v =
     (case v of JNull \<Rightarrow> Some r | JNum t \<Rightarrow> map_option (\<lambda>b. upd b r) (uint8_of t) | _ \<Rightarrow> None)"

definition element_byte :: "jval \<Rightarrow> byte option" where
  "element_byte v = (case v of JNull \<Rightarrow> Some 0 | JNum t \<Rightarrow> uint8_of t | _ \<Rightarrow> None)"

definition set_bytes :: "(bytes \<Rightarrow> 'a \<Rightarrow> 'a) \<Rightarrow> 'a setter" where
  "set_bytes upd r v =
     (case v of
        JNull \<Rightarrow> Some (upd [] r)
      | JStr s \<Rightarrow> map_option (\<lambda>b. upd b r) (b64_decode s)
      | JArr vs \<Rightarrow> map_option (\<lambda>b. upd b r) (those (map element_byte vs))
      | _ \<Rightarrow> None)"

lemmas setter_defs = set_string_def set_int64_def set_bool_def set_uint8_def set_bytes_def

subsection \<open>Write-ahead log records\<close>

definition wal_json :: "walRecord \<Rightarrow> jval" where
  "wal_json r = JObj
     ([(str ''op'', JStr (str (rOp r))), (str ''key'', JStr (rKey r))] @
      (if rValue r = [] then [] else [(str ''value'', JStr (b64_encode (rValue r)))]) @
      [(str ''version'', JNum (FormatInt (rVersion r)))])"

definition wal_Marshal :: "walRecord \<Rightarrow> bytes" where
  "wal_Marshal r = jprint (wal_json r)"

definition wal_fields :: "(string \<times> walRecord setter) list" where
  "wal_fields =
     [(''op'', set_string (\<lambda>s r. r\<lparr>rOp := unstr s\<rparr>)),
      (''key'', set_string (\<lambda>s r. r\<lparr>rKey := s\<rparr>)),
      (''value'', set_bytes (\<lambda>s r. r\<lparr>rValue := s\<rparr>)),
      (''version'', set_int64 (\<lambda>i r. r\<lparr>rVersion := i\<rparr>))]"

definition wal_Unmarshal :: "bytes \<Rightarrow> walRecord option" where
  "wal_Unmarshal s = Option.bind (json_value s)
     (read_struct wal_fields \<lparr>rOp = '''', rKey = [], rValue = [], rVersion = 0\<rparr>)"

subsection \<open>Commands\<close>

definition cmd_json :: "command \<Rightarrow> jval" where
  "cmd_json c = JObj
     ([(str ''t'', JNum (show_nat (unat (cType c)))), (str ''k'', JStr (cKey c))] @
      (if cValue c = [] then [] else [(str ''v'', JStr (b64_encode (cValue c)))]) @
      (if cTTL c = 0 then [] else [(str ''ttl'', JNum (FormatInt (cTTL c)))]))"

text \<open>\<open>Marshal\<close> has no error on a struct of these types.\<close>

definition cmd_Marshal :: "command \<Rightarrow> bytes result" where
  "cmd_Marshal c = Inr (jprint (cmd_json c))"

definition cmd_fields :: "(string \<times> command setter) list" where
  "cmd_fields =
     [(''t'', set_uint8 (\<lambda>b c. c\<lparr>cType := b\<rparr>)),
      (''k'', set_string (\<lambda>s c. c\<lparr>cKey := s\<rparr>)),
      (''v'', set_bytes (\<lambda>s c. c\<lparr>cValue := s\<rparr>)),
      (''ttl'', set_int64 (\<lambda>i c. c\<lparr>cTTL := i\<rparr>))]"

definition cmd_Unmarshal :: "bytes \<Rightarrow> command option" where
  "cmd_Unmarshal s = Option.bind (json_value s)
     (read_struct cmd_fields \<lparr>cType = 0, cKey = [], cValue = [], cTTL = 0\<rparr>)"

subsection \<open>Snapshots\<close>

text \<open>\<open>isnil\<close> tells which empty values are nil slices; they are written as \<open>null\<close>. The list that
  \<open>Scan\<close> builds is nil when it is empty. \<open>Restore\<close> uses a \<open>Decoder\<close>, which ignores what
  follows the first value.\<close>

definition entry_json :: "(entry \<Rightarrow> bool) \<Rightarrow> entry \<Rightarrow> jval" where
  "entry_json isnil en = JObj
     [(str ''Key'', JStr (Key en)),
      (str ''Value'', if Value en = [] \<and> isnil en then JNull else JStr (b64_encode (Value en))),
      (str ''Version'', JNum (FormatInt (Version en))),
      (str ''Deleted'', JBool (Deleted en))]"

definition entries_json :: "(entry \<Rightarrow> bool) \<Rightarrow> entry list \<Rightarrow> jval" where
  "entries_json isnil es = (if es = [] then JNull else JArr (map (entry_json isnil) es))"

definition entries_Marshal :: "(entry \<Rightarrow> bool) \<Rightarrow> entry list \<Rightarrow> bytes result" where
  "entries_Marshal isnil es = Inr (jprint (entries_json isnil es))"

definition entry_fields :: "(string \<times> entry setter) list" where
  "entry_fields =
     [(''Key'', set_string (\<lambda>s e. e\<lparr>Key := s\<rparr>)),
      (''Value'', set_bytes (\<lambda>s e. e\<lparr>Value := s\<rparr>)),
      (''Version'', set_int64 (\<lambda>i e. e\<lparr>Version := i\<rparr>)),
      (''Deleted'', set_bool (\<lambda>b e. e\<lparr>Deleted := b\<rparr>))]"

definition read_entry :: "jval \<Rightarrow> entry option" where
  "read_entry = read_struct entry_fields \<lparr>Key = [], Value = [], Version = 0, Deleted = False\<rparr>"

definition entries_Decode :: "bytes \<Rightarrow> entry list option" where
  "entries_Decode s = Option.bind (json_decode s)
     (\<lambda>v. case v of JNull \<Rightarrow> Some [] | JArr vs \<Rightarrow> those (map read_entry vs) | _ \<Rightarrow> None)"

subsection \<open>Round trips\<close>

lemma jclean_b64 [simp]: "to_valid (b64_encode s) = b64_encode s"
proof -
  have "b < 0x80" if "plain b" for b using that by (auto simp: plain_def word_less_nat_alt)
  then have "valid_utf8 (b64_encode s)" using valid_utf8_ascii b64_encode_plain by blast
  then show ?thesis by (simp add: valid_utf8_def)
qed

lemma uint8_of_show: "uint8_of (show_nat (unat (b :: byte))) = Some b"
proof -
  have "unat b \<le> 2 ^ 63" by (rule less_imp_le, rule less_trans [OF unat_byte_less]) simp
  then show ?thesis by (simp add: uint8_of_def ParseUint_show)
qed

lemma unstr_ops: "unstr [112, 117, 116] = ''put''" "unstr [100, 101, 108, 101, 116, 101] = ''delete''"
  using unstr_str [of "''put''"] unstr_str [of "''delete''"] by (simp_all add: str_def)

lemma wal_roundtrip:
  "rOp r \<in> {''put'', ''delete''} \<Longrightarrow> wal_Unmarshal (wal_Marshal r) = Some (r\<lparr>rKey := to_valid (rKey r)\<rparr>)"
proof -
  assume op: "rOp r \<in> {''put'', ''delete''}"
  have "json_value (jprint (wal_json r)) = Some (jclean (wal_json r))"
    by (rule json_value_jprint) (auto simp: wal_json_def)
  moreover have "read_struct wal_fields \<lparr>rOp = '''', rKey = [], rValue = [], rVersion = 0\<rparr> (jclean (wal_json r)) =
      Some (r\<lparr>rKey := to_valid (rKey r)\<rparr>)"
    using op by (cases r) (auto simp: wal_json_def read_struct_def read_member_def field_of_def wal_fields_def
      setter_defs str_def unstr_ops)
  ultimately show ?thesis by (simp add: wal_Unmarshal_def wal_Marshal_def)
qed

lemma cmd_roundtrip: "cmd_Marshal c = Inr d \<Longrightarrow> cmd_Unmarshal d = Some (c\<lparr>cKey := to_valid (cKey c)\<rparr>)"
proof -
  assume d: "cmd_Marshal c = Inr d"
  have "json_value (jprint (cmd_json c)) = Some (jclean (cmd_json c))"
    by (rule json_value_jprint) (auto simp: cmd_json_def)
  moreover have "read_struct cmd_fields \<lparr>cType = 0, cKey = [], cValue = [], cTTL = 0\<rparr> (jclean (cmd_json c)) =
      Some (c\<lparr>cKey := to_valid (cKey c)\<rparr>)"
    by (cases c) (auto simp: cmd_json_def read_struct_def read_member_def field_of_def cmd_fields_def
      setter_defs str_def uint8_of_show)
  ultimately show ?thesis using d by (auto simp: cmd_Unmarshal_def cmd_Marshal_def)
qed

lemma read_entry_json: "read_entry (jclean (entry_json isnil en)) = Some (en\<lparr>Key := to_valid (Key en)\<rparr>)"
  by (cases en) (auto simp: entry_json_def read_entry_def read_struct_def read_member_def field_of_def entry_fields_def
      setter_defs str_def)

lemma entries_roundtrip:
  "entries_Marshal isnil es = Inr d \<Longrightarrow> entries_Decode d = Some (map (\<lambda>en. en\<lparr>Key := to_valid (Key en)\<rparr>) es)"
proof -
  assume d: "entries_Marshal isnil es = Inr d"
  have "jok (entries_json isnil es)" by (auto simp: entries_json_def entry_json_def)
  then have "json_decode d = Some (jclean (entries_json isnil es))"
    using d json_decode_jprint [of "entries_json isnil es" "[]"] by (simp add: entries_Marshal_def)
  moreover have "those (map (read_entry \<circ> jclean \<circ> entry_json isnil) es) = Some (map (\<lambda>en. en\<lparr>Key := to_valid (Key en)\<rparr>) es)"
    by (induction es) (simp_all add: read_entry_json)
  ultimately show ?thesis by (auto simp: entries_Decode_def entries_json_def comp_def)
qed

subsection \<open>What is read is well-formed\<close>

text \<open>Whatever bytes are decoded, the key of the command is well-formed UTF-8, and key and value are at most
  three times as long as the input.\<close>

definition cmd_ok :: "nat \<Rightarrow> command \<Rightarrow> bool" where
  "cmd_ok n c \<longleftrightarrow> valid_utf8 (cKey c) \<and> length (cKey c) \<le> n \<and> length (cValue c) \<le> n"

lemma field_of_member: "field_of fs k = Some f \<Longrightarrow> f \<in> snd ` set fs"
proof -
  have "snd p \<in> snd ` set fs" if "find P fs = Some p" for P p using that by (auto simp: find_Some_iff)
  then show "field_of fs k = Some f \<Longrightarrow> f \<in> snd ` set fs" by (fastforce simp: field_of_def split: option.splits)
qed

lemma length_b64_groups: "b64_groups s = Some t \<Longrightarrow> length t \<le> length s"
proof (induction s arbitrary: t rule: length_induct)
  case (1 s)
  show ?case
  proof (cases s rule: b64_groups.cases)
    case (2 p q r u rest)
    with 1(2) consider "length t \<le> 2" | ds where "b64_groups rest = Some ds" "length t = 3 + length ds"
      by (auto split: Option.bind_splits if_splits)
    then show ?thesis
    proof cases
      case (2 ds)
      moreover have "length ds \<le> length rest" using 1(1) 2(1) \<open>s = _\<close> by simp
      ultimately show ?thesis using \<open>s = _\<close> by simp
    qed (simp add: 2)
  qed (use 1(2) in auto)
qed

lemma length_b64_decode: "b64_decode s = Some t \<Longrightarrow> length t \<le> length s"
  unfolding b64_decode_def by (rule le_trans [OF length_b64_groups length_filter_le])

lemma length_those: "those xs = Some ys \<Longrightarrow> length ys = length xs"
  by (induction xs arbitrary: ys) (auto split: option.splits)

lemma read_struct_keep:
  assumes "read_struct fs zero v = Some r" "jwf n v" "I zero"
    and setters: "\<And>f s v s'. f \<in> snd ` set fs \<Longrightarrow> jwf n v \<Longrightarrow> I s \<Longrightarrow> f s v = Some s' \<Longrightarrow> I s'"
  shows "I r"
proof -
  have member: "I s'" if "read_member fs s (k, v) = Some s'" "jwf n v" "I s" for s k v s'
    using that setters [OF field_of_member] by (cases "field_of fs k") (auto simp: read_member_def)
  from assms(1) consider "r = zero" | ms where "v = JObj ms" "foldM (read_member fs) zero ms = Some r"
    by (auto simp: read_struct_def split: jval.splits)
  then show ?thesis
  proof cases
    case (2 ms)
    have "I s'" if "m \<in> set ms" "I s" "read_member fs s m = Some s'" for s m s'
      using that member [of s "fst m" "snd m" s'] assms(2) 2(1) by (cases m) auto
    from foldM_keep [where I = I, OF this 2(2) assms(3)] show ?thesis .
  qed (simp add: assms(3))
qed

lemma cmd_Unmarshal_ok: "cmd_Unmarshal s = Some c \<Longrightarrow> cmd_ok (3 * length s) c"
proof -
  let ?zero = "\<lparr>cType = 0, cKey = [], cValue = [], cTTL = 0\<rparr>"
  assume "cmd_Unmarshal s = Some c"
  then obtain v where v: "json_value s = Some v" "read_struct cmd_fields ?zero v = Some c"
    by (auto simp: cmd_Unmarshal_def split: Option.bind_splits)
  show ?thesis
  proof (rule read_struct_keep [OF v(2) json_value_jwf [OF v(1)]])
    show "cmd_ok (3 * length s) ?zero" by (simp add: cmd_ok_def valid_utf8_def)
  qed (auto simp: cmd_fields_def setter_defs cmd_ok_def dest!: length_b64_decode length_those split: jval.splits)
qed

lemma wal_Unmarshal_key: "wal_Unmarshal s = Some r \<Longrightarrow> valid_utf8 (rKey r)"
proof -
  let ?zero = "\<lparr>rOp = '''', rKey = [], rValue = [], rVersion = 0\<rparr>"
  assume "wal_Unmarshal s = Some r"
  then obtain v where v: "json_value s = Some v" "read_struct wal_fields ?zero v = Some r"
    by (auto simp: wal_Unmarshal_def split: Option.bind_splits)
  show ?thesis
  proof (rule read_struct_keep [where I = "\<lambda>r. valid_utf8 (rKey r)", OF v(2) json_value_jwf [OF v(1)]])
    show "valid_utf8 (rKey ?zero)" by (simp add: valid_utf8_def)
  qed (auto simp: wal_fields_def setter_defs split: jval.splits)
qed

subsection \<open>Sizes\<close>

lemma length_escape: "length (escape b) \<le> 6"
  by (simp add: escape_def)

lemma length_escape_rune: "length (escape_rune r) \<le> 6 * length r"
  by (auto simp: escape_rune_def)

lemma length_quote_body: "length (quote_body s) \<le> 6 * length s"
proof (induction s rule: quote_body.induct)
  case (2 b bs)
  let ?n = "rune_len (b # bs)"
  consider "b < 0x80" | "\<not> b < 0x80" "?n = 0" | "\<not> b < 0x80" "?n \<noteq> 0" by blast
  then show ?case
  proof cases
    case 1
    then show ?thesis using 2(1) length_escape [of b] by (simp add: quote_body.simps(2))
  next
    case 3
    then obtain m where m: "?n = Suc m" by (cases ?n) auto
    have "length (escape_rune (b # take m bs)) \<le> 6 * Suc m" using length_escape_rune [of "b # take m bs"] by simp
    moreover have "length (quote_body (drop m bs)) \<le> 6 * (length bs - m)" using 2(3) [OF 3] m by simp
    moreover have "m \<le> length bs" using rune_len_le [of "b # bs"] m by simp
    ultimately show ?thesis using 3 m by (simp add: quote_body.simps(2))
  qed (use 2(2) in \<open>simp add: quote_body.simps(2)\<close>)
qed simp

lemma third_step: "(5 + n) div 3 = Suc (Suc (Suc n) div 3)" for n :: nat
  by presburger

lemma length_b64_encode: "length (b64_encode s) = 4 * ((length s + 2) div 3)"
  by (induction s rule: b64_encode.induct) (simp_all add: third_step)

lemma length_show_nat: "n < 10 ^ Suc k \<Longrightarrow> length (show_nat n) \<le> Suc k"
proof (induction k arbitrary: n)
  case (Suc k)
  then have "n div 10 < 10 ^ Suc k" by simp
  then show ?case using Suc.IH [of "n div 10"] by (simp add: show_nat.simps [of n])
qed (simp add: show_nat.simps)

lemma length_FormatInt: "length (FormatInt v) \<le> 20"
proof -
  have "- (2 ^ 63) \<le> sint v" "sint v < 2 ^ 63" using sint_ge [of v] sint_lt [of v] by simp_all
  then have "nat (sint v) < 10 ^ Suc 18" "nat (- sint v) < 10 ^ Suc 18" by simp_all
  then show ?thesis using length_show_nat [of "nat (sint v)" 18] length_show_nat [of "nat (- sint v)" 18] by (simp add: FormatInt_def)
qed

lemma quote_body_b64 [simp]: "quote_body (b64_encode s) = b64_encode s"
  using quote_body_plain b64_encode_plain by blast

lemma length_wal_Marshal:
  assumes "rOp r \<in> {''put'', ''delete''}"
  shows "length (wal_Marshal r) \<le> 6 * length (rKey r) + 4 * ((length (rValue r) + 2) div 3) + 70"
proof -
  have "length (quote (str (rOp r))) \<le> 8" using assms by (auto simp: quote_def str_def quote_body.simps(2) escape_def)
  then show ?thesis
    using length_quote_body [of "rKey r"] length_FormatInt [of "rVersion r"] length_b64_encode [of "rValue r"]
    by (simp add: wal_Marshal_def wal_json_def quote_def str_def quote_body.simps(2) escape_def)
qed

text \<open>A log entry of up to 128 MiB makes a record whose length fits the 32-bit header of the log.\<close>

lemma wal_record_size:
  assumes "log_op cmd_Unmarshal l = Some op" "length (lData l) \<le> 2 ^ 27"
  shows "length (wal_Marshal (op_record op)) < 2 ^ 32"
proof -
  obtain c where c: "cmd_Unmarshal (lData l) = Some c" "op = MPut (cKey c) (cValue c) (lIndex l) \<or> op = MDel (cKey c) (lIndex l)"
    using assms(1) by (auto simp: log_op_def split: if_splits option.splits)
  have "rOp (op_record op) \<in> {''put'', ''delete''}" "length (rKey (op_record op)) \<le> 3 * 2 ^ 27" "length (rValue (op_record op)) \<le> 3 * 2 ^ 27"
    using cmd_Unmarshal_ok [OF c(1)] c(2) assms(2) by (auto simp: cmd_ok_def)
  then show ?thesis using length_wal_Marshal [of "op_record op"] by simp
qed

lemma wal_survives:
  assumes "log_op cmd_Unmarshal l = Some op" "length (lData l) \<le> 2 ^ 27"
  shows "survives wal_Marshal wal_Unmarshal op"
proof -
  obtain c where c: "cmd_Unmarshal (lData l) = Some c" "op_key op = cKey c"
    using assms(1) by (auto simp: log_op_def split: if_splits option.splits)
  have "to_valid (op_key op) = op_key op" using cmd_Unmarshal_ok [OF c(1)] c(2) by (simp add: cmd_ok_def valid_utf8_def)
  then have "wal_Unmarshal (wal_Marshal (op_record op)) = Some (op_record op)"
    using wal_roundtrip [of "op_record op"] by (cases op) auto
  then show ?thesis using wal_record_size [OF assms] by (simp add: survives_def)
qed

end
