(* ===== verification/Recovery.thy ===== *)
theory Recovery
  imports Codec Cluster
begin

text \<open>
  The replica of \<open>Cluster\<close> with the JSON codecs of \<open>Codec\<close> in place of their parameters. The
  state machine decodes every key it writes, so the keys in its store are well-formed and its log records
  survive a crash: recovery needs no assumption on what clients send, only that no log entry is larger
  than 128 MiB. A client whose key is not well-formed pays for it: the write goes to another key.
\<close>

subsection \<open>A replica is a run of its engine\<close>

lemma eng_reach_trans: "eng_reach enc srt c' c'' \<Longrightarrow> eng_reach enc srt c c' \<Longrightarrow> eng_reach enc srt c c''"
  by (induction rule: eng_reach.induct) (auto intro: eng_reach.intros)

lemma replica_step_engine: "replica_step enc cdec srt r r' \<Longrightarrow> eng_reach enc srt (rconf r) (rconf r')"
  using replica_step_config eng_reach.intros by metis

lemma replica_reach_engine: "replica_reach enc cdec srt r r' \<Longrightarrow> eng_reach enc srt (rconf r) (rconf r')"
  by (induction rule: replica_reach.induct) (blast intro: eng_reach.here eng_reach_trans replica_step_engine)+

lemma replica_hist:
  assumes "eng_Open dec draws None script (Some f) tabs mb = Some (Inr e)" "sorts_by_size srt"
    "replica_reach enc cdec srt (new_replica dec f e) r" "rsound r"
  shows "chist (rconf r) = log_writes cdec (rlog r)"
  using replica_reach_inv [OF assms(3,2) new_replica_inv [OF assms(1)]] assms(4) by (simp add: replica_inv_def rsound_def)

lemma log_writes_survive:
  "op \<in> set (log_writes cmd_Unmarshal ls) \<Longrightarrow> \<forall>l\<in>set ls. length (lData l) \<le> 2 ^ 27 \<Longrightarrow> survives wal_Marshal wal_Unmarshal op"
  using wal_survives by (auto simp: log_writes_def map_filter_def)

subsection \<open>The keys of a replica\<close>

lemma last_write_member: "last_write ops k = Some en \<Longrightarrow> \<exists>op\<in>set ops. op_key op = k"
  by (auto simp: last_write_def find_Some_iff split: option.splits) (metis length_rev nth_mem set_rev)

lemma log_writes_valid: "op \<in> set (log_writes cmd_Unmarshal ls) \<Longrightarrow> valid_utf8 (op_key op)"
  using cmd_Unmarshal_ok by (fastforce simp: log_writes_def map_filter_def log_op_def cmd_ok_def split: if_splits option.splits)

lemma log_ops_valid: "op \<in> set (log_ops wal_Unmarshal f) \<Longrightarrow> valid_utf8 (op_key op)"
  using wal_Unmarshal_key by (fastforce simp: log_ops_def map_filter_def decode_op_def record_op_def split: if_splits Option.bind_splits)

subsection \<open>A short run\<close>

definition json_entry :: "command \<Rightarrow> raftlog" where
  "json_entry c = \<lparr>lType = LogCommand, lIndex = 3, lData = jprint (cmd_json c)\<rparr>"

lemma cmd_Unmarshal_json: "cmd_Unmarshal (jprint (cmd_json c)) = Some (c\<lparr>cKey := to_valid (cKey c)\<rparr>)"
  using cmd_roundtrip [of c "jprint (cmd_json c)"] by (simp add: cmd_Marshal_def)

lemma json_entry_op:
  "cType c = CmdPut \<Longrightarrow> log_op cmd_Unmarshal (json_entry c) = Some (MPut (to_valid (cKey c)) (cValue c) 3)"
  by (simp add: log_op_def json_entry_def cmd_Unmarshal_json)

lemma demo_json:
  "log_op cmd_Unmarshal (json_entry demo_cmd) = Some (MPut [1] [2] 3)" "length (lData (json_entry demo_cmd)) \<le> 2 ^ 27"
proof -
  show "log_op cmd_Unmarshal (json_entry demo_cmd) = Some (MPut [1] [2] 3)"
    by (subst json_entry_op) (simp_all add: demo_cmd_def)
  have "length (lData (json_entry demo_cmd)) = 31"
    by (simp add: json_entry_def cmd_json_def demo_cmd_def quote_def str_def quote_body.simps(2) escape_def show_nat.simps CmdPut_def
      length_b64_encode del: b64_encode.simps)
  then show "length (lData (json_entry demo_cmd)) \<le> 2 ^ 27" by simp
qed

subsection \<open>Properties\<close>

text \<open>Crash recovery of a replica, with nothing assumed of the codec or the clients. A replica is
  opened on a log of complete records and applies committed entries of at most 128 MiB each, while it
  flushes, compacts and serves watchers; it is sound. After a crash between two writes, whatever the disk
  keeps beyond the synced bytes, reopening succeeds and every key shows the last write of it among those
  recovered at the start and those of the applied entries.\<close>

theorem replica_recovers:
  assumes "eng_Open wal_Unmarshal draws None script (Some (log_bytes ds0)) tabs mb = Some (Inr e0)" "sorts_by_size srt"
    "replica_reach wal_Marshal cmd_Unmarshal srt (new_replica wal_Unmarshal (log_bytes ds0) e0) r" "rsound r"
    "\<forall>d\<in>set ds0. length d < 2 ^ 32" "\<forall>l\<in>set (rlog r). length (lData l) \<le> 2 ^ 27"
    "f \<in> wal_crash (ewal (ceng (rconf r)))"
  shows "\<exists>e'. eng_Open wal_Unmarshal draws' None script' (Some f) tabs' mb' = Some (Inr e') \<and>
    (\<forall>k. eng_view e' k = last_write (log_ops wal_Unmarshal (log_bytes ds0) @ log_writes cmd_Unmarshal (rlog r)) k)"
proof -
  have reach: "eng_reach wal_Marshal srt (start wal_Unmarshal (log_bytes ds0) e0) (rconf r)"
    using replica_reach_engine [OF assms(3)] by (simp add: new_replica_def)
  note inv = run_invs [OF assms(1,2) reach]
  have s: "csound (rconf r)" "cclean (rconf r)" using assms(4) by (simp_all add: rsound_def)
  have "\<forall>op\<in>set (chist (rconf r)). survives wal_Marshal wal_Unmarshal op"
    using replica_hist [OF assms(1-4)] log_writes_survive assms(6) by auto
  from crash_view [OF inv(1) s(1) inv(2) s(2) inv(3) assms(5) this assms(7)]
  show ?thesis using replica_view [OF replica_reach_inv [OF assms(3,2) new_replica_inv [OF assms(1)]] assms(4)] by auto
qed

theorem replica_recovers_witness:
  "\<exists>e0 r f e'. eng_Open wal_Unmarshal (\<lambda>_ _. 1) None [] (Some (log_bytes [])) (\<lambda>_. None) 1 = Some (Inr e0) \<and>
     replica_reach wal_Marshal cmd_Unmarshal (sort_key snd) (new_replica wal_Unmarshal (log_bytes []) e0) r \<and>
     rlog r = [json_entry demo_cmd] \<and> f \<in> wal_crash (ewal (ceng (rconf r))) \<and>
     eng_Open wal_Unmarshal (\<lambda>_ _. 0) None [] (Some f) (\<lambda>_. None) 1 = Some (Inr e') \<and> eng_view e' [1] = Some (live [1] [2] 3)"
proof -
  obtain e0 r where r: "eng_Open wal_Unmarshal (\<lambda>_ _. 1) None [] (Some (log_bytes [])) (\<lambda>_. None) 1 = Some (Inr e0)"
      "replica_reach wal_Marshal cmd_Unmarshal (sort_key snd) (new_replica wal_Unmarshal (log_bytes []) e0) r"
      "rlog r = [json_entry demo_cmd]" "rsound r"
    using one_entry_replica [OF demo_json(1), of wal_Unmarshal "\<lambda>_ _. 1" wal_Marshal "\<lambda>_. 1" "sort_key snd"] by auto
  have v: "last_write (log_ops wal_Unmarshal (log_bytes []) @ log_writes cmd_Unmarshal (rlog r)) [1] = Some (live [1] [2] 3)"
    by (simp add: r(3) demo_json(1) last_write_def)
  obtain e' where "eng_Open wal_Unmarshal (\<lambda>_ _. 0) None [] (Some (fdata (bfile (bw (ewal (ceng (rconf r))))))) (\<lambda>_. None) 1 =
      Some (Inr e')" "eng_view e' [1] = Some (live [1] [2] 3)"
    using replica_recovers [OF r(1) sort_by_size r(2,4) _ _ crash_keeps_file, of "\<lambda>_ _. 0" "[]" "\<lambda>_. None" 1] v r(3) demo_json(2)
    by auto
  then show ?thesis using r crash_keeps_file by blast
qed

text \<open>C16. Every key that a sound replica shows is well-formed UTF-8, whatever bytes its log file held when it was
  opened and whatever bytes the committed entries hold: both decoders return well-formed keys only. Sound
  means that its store failed no write, no flush began while the memtable of a failed one was waiting, flushed
  tables fit the format under new names, and its compactions were harmless when they swapped their tables.\<close>

theorem store_keys_valid:
  assumes "eng_Open wal_Unmarshal draws None script (Some f) tabs mb = Some (Inr e)" "sorts_by_size srt"
    "replica_reach wal_Marshal cmd_Unmarshal srt (new_replica wal_Unmarshal f e) r" "rsound r"
    "eng_view (ceng (rconf r)) k = Some en"
  shows "valid_utf8 k"
proof -
  have "last_write (log_ops wal_Unmarshal f @ log_writes cmd_Unmarshal (rlog r)) k = Some en"
    using replica_view [OF replica_reach_inv [OF assms(3,2) new_replica_inv [OF assms(1)]] assms(4)] assms(5) by simp
  from last_write_member [OF this] show ?thesis using log_ops_valid log_writes_valid by fastforce
qed

theorem store_keys_valid_witness:
  "\<exists>e r. eng_Open wal_Unmarshal (\<lambda>_ _. 1) None [] (Some []) (\<lambda>_. None) 1 = Some (Inr e) \<and>
     replica_reach wal_Marshal cmd_Unmarshal (sort_key snd) (new_replica wal_Unmarshal [] e) r \<and> rlog r = [json_entry demo_cmd] \<and>
     rsound r \<and> eng_view (ceng (rconf r)) [1] = Some (live [1] [2] 3) \<and> valid_utf8 [1]"
proof -
  obtain e r where r: "eng_Open wal_Unmarshal (\<lambda>_ _. 1) None [] (Some []) (\<lambda>_. None) 1 = Some (Inr e)"
      "replica_reach wal_Marshal cmd_Unmarshal (sort_key snd) (new_replica wal_Unmarshal [] e) r" "rlog r = [json_entry demo_cmd]" "rsound r"
    using one_entry_replica [OF demo_json(1), of wal_Unmarshal "\<lambda>_ _. 1" wal_Marshal "\<lambda>_. 1" "sort_key snd"] by auto
  have v: "eng_view (ceng (rconf r)) [1] = Some (live [1] [2] 3)"
    using replica_view [OF replica_reach_inv [OF r(2) sort_by_size new_replica_inv [OF r(1)]] r(4), of "[1]"]
    by (simp add: r(3) demo_json(1))
  with store_keys_valid [OF r(1) sort_by_size r(2,4) v] r show ?thesis by blast
qed

text \<open>C17. The JSON records survive a round trip exactly when their key is well-formed UTF-8: the command of a
  log entry and the write-ahead log record of any write, for every value, version and TTL.\<close>

theorem records_roundtrip:
  "(\<exists>d. cmd_Marshal c = Inr d \<and> (cmd_Unmarshal d = Some c \<longleftrightarrow> valid_utf8 (cKey c))) \<and>
   (wal_Unmarshal (wal_Marshal (op_record op)) = Some (op_record op) \<longleftrightarrow> valid_utf8 (op_key op))"
proof
  have "c\<lparr>cKey := to_valid (cKey c)\<rparr> = c \<longleftrightarrow> to_valid (cKey c) = cKey c" by (cases c) simp
  then show "\<exists>d. cmd_Marshal c = Inr d \<and> (cmd_Unmarshal d = Some c \<longleftrightarrow> valid_utf8 (cKey c))"
    by (simp add: cmd_Marshal_def cmd_Unmarshal_json valid_utf8_def)
  have "rOp (op_record op) \<in> {''put'', ''delete''}" by (cases op) auto
  from wal_roundtrip [OF this] show "wal_Unmarshal (wal_Marshal (op_record op)) = Some (op_record op) \<longleftrightarrow> valid_utf8 (op_key op)"
    by (cases op) (simp_all add: valid_utf8_def)
qed

text \<open>C21. The length field of the write-ahead log does not overflow: the record that the engine writes for a
  committed entry of at most 128 MiB is shorter than \<open>2^32\<close> bytes, so its 32-bit length is exact.\<close>

theorem log_record_fits:
  assumes "log_op cmd_Unmarshal l = Some op" "length (lData l) \<le> 2 ^ 27"
  shows "unat (word_of_nat (length (wal_Marshal (op_record op))) :: u32) = length (wal_Marshal (op_record op))"
  using wal_record_size [OF assms] by (rule unat_word_of_nat_32)

theorem log_record_fits_witness:
  "unat (word_of_nat (length (wal_Marshal (op_record (MPut [1] [2] 3)))) :: u32) = length (wal_Marshal (op_record (MPut [1] [2] 3)))"
  by (rule log_record_fits [OF demo_json])

text \<open>C38. A write under a key that is not well-formed UTF-8 is lost, although it is acknowledged: the
  state machine answers with the log index, but the value is stored under the key with the bad bytes
  replaced, and the key the client used shows what it showed before.\<close>

theorem invalid_key_write_misplaced:
  assumes "fsm_ok f" "cType c = CmdPut" "\<not> valid_utf8 (cKey c)" "cmd_Marshal c = Inr d"
    "fsm_Apply wal_Marshal cmd_Unmarshal draw f \<lparr>lType = LogCommand, lIndex = i, lData = d\<rparr> = Some (f', ApplyResult i)"
  shows "eng_view (fstore f') (cKey c) = eng_view (fstore f) (cKey c) \<and>
    eng_view (fstore f') (to_valid (cKey c)) = Some (live (to_valid (cKey c)) (cValue c) i)"
proof -
  let ?l = "\<lparr>lType = LogCommand, lIndex = i, lData = d\<rparr>"
  have op: "log_op cmd_Unmarshal ?l = Some (MPut (to_valid (cKey c)) (cValue c) i)"
    using cmd_roundtrip [OF assms(4)] assms(2) by (simp add: log_op_def)
  have "eng_view (fstore f') = (eng_view (fstore f))(to_valid (cKey c) := Some (live (to_valid (cKey c)) (cValue c) i))"
    using fsm_Apply_ok [OF assms(1), of wal_Marshal cmd_Unmarshal draw ?l] op assms(5) by auto
  then show ?thesis using assms(3) by (auto simp: valid_utf8_def)
qed

definition bad_cmd :: command where
  "bad_cmd = \<lparr>cType = CmdPut, cKey = [0xFF], cValue = [2], cTTL = 0\<rparr>"

lemma bad_key: "to_valid [0xFF] = [0xEF, 0xBF, 0xBD]"
  by (simp add: to_valid.simps(2) rune_len_def rune_width_def replacement_def)

theorem invalid_key_write_misplaced_witness:
  "\<exists>e f'. fsm_Apply wal_Marshal cmd_Unmarshal (\<lambda>_. 1) (NewFSM e NewHub) (json_entry bad_cmd) = Some (f', ApplyResult 3) \<and>
     eng_view (fstore f') [0xFF] = eng_view e [0xFF] \<and>
     eng_view (fstore f') [0xEF, 0xBF, 0xBD] = Some (live [0xEF, 0xBF, 0xBD] [2] 3)"
proof -
  have c: "cType bad_cmd = CmdPut" "cKey bad_cmd = [0xFF]" "cValue bad_cmd = [2]" "\<not> valid_utf8 (cKey bad_cmd)"
    "cmd_Marshal bad_cmd = Inr (jprint (cmd_json bad_cmd))"
    by (simp_all add: bad_cmd_def valid_utf8_def bad_key cmd_Marshal_def)
  obtain e f' where e: "eng_Open wal_Unmarshal (\<lambda>_ _. 1) None [] (Some []) (\<lambda>_. None) 1 = Some (Inr e)"
      "fsm_Apply wal_Marshal cmd_Unmarshal (\<lambda>_. 1) (NewFSM e NewHub) (json_entry bad_cmd) = Some (f', ApplyResult 3)"
    using one_entry_replica [OF json_entry_op [OF c(1)], of wal_Unmarshal "\<lambda>_ _. 1" wal_Marshal "\<lambda>_. 1" "sort_key snd"]
    by (auto simp: json_entry_def)
  have "replica_inv cmd_Unmarshal (log_ops wal_Unmarshal []) (new_replica wal_Unmarshal [] e)" by (rule new_replica_inv [OF e(1)])
  from replica_wf [OF this] have "fsm_ok (NewFSM e NewHub)"
    using hub_ok_New by (simp add: fsm_ok_def NewFSM_def new_replica_def start_def rsound_def)
  from invalid_key_write_misplaced [OF this c(1,4,5)] e(2)
  have "eng_view (fstore f') [0xFF] = eng_view (fstore (NewFSM e NewHub)) [0xFF]"
    "eng_view (fstore f') [0xEF, 0xBF, 0xBD] = Some (live [0xEF, 0xBF, 0xBD] [2] 3)"
    by (simp_all add: json_entry_def c(2,3) bad_key)
  then show ?thesis using e(2) by (auto simp: NewFSM_def)
qed

text \<open>C14. Snapshot transfer through the JSON encoding. Take a state machine with a well-formed store whose tables
  are all quiet (what a scan decodes behind a data block never outranks an entry; otherwise entries that were
  never written reach the snapshot) and whose keys are well-formed UTF-8. Its snapshot, persisted without an
  error and restored into another one whose engine has no table and no memtable being flushed, makes the
  second show exactly the state of the first, whichever empty values are nil slices.\<close>

theorem snapshot_moves_state:
  assumes "eng_ok (fstore f) tab" "\<forall>p\<in>set (ctables (ecompact (fstore f))). quiet (tab p)" "permutes order"
    "fsm_ok g" "eimmutable (fstore g) = None" "ctables (ecompact (fstore g)) = []"
    "\<forall>k. eng_view (fstore f) k \<noteq> None \<longrightarrow> valid_utf8 k"
  shows "\<exists>es s g'. fsm_Snapshot order f = Some es \<and> fsm_Persist (entries_Marshal isnil) None None es = (s, None) \<and> \<not> scancelled s \<and>
    fsm_Restore entries_Decode draws g (sdata s) = Some (g', None) \<and> fsm_ok g' \<and> (\<forall>k. eng_view (fstore g') k = eng_view (fstore f) k)"
proof (rule snapshot_restored [OF assms(1-6)])
  fix es
  assume "fsm_Snapshot order f = Some es"
  then have "\<forall>en\<in>set es. eng_view (fstore f) (Key en) = Some en"
    using eng_Snapshot_ok [OF assms(1,3,2)] by (auto simp: fsm_Snapshot_def)
  then have "map (\<lambda>en. en\<lparr>Key := to_valid (Key en)\<rparr>) es = es"
    using assms(7) by (intro map_idI) (auto simp: valid_utf8_def)
  moreover have "entries_Marshal isnil es = Inr (jprint (entries_json isnil es))" by (simp add: entries_Marshal_def)
  ultimately show "entries_Marshal isnil es = Inr (jprint (entries_json isnil es)) \<and> entries_Decode (jprint (entries_json isnil es)) = Some es"
    using entries_roundtrip [of isnil es "jprint (entries_json isnil es)"] by simp
qed

theorem snapshot_moves_state_witness:
  "\<exists>es s g'. fsm_Snapshot rev (NewFSM (fresh_engine (demo_fs [live [2] [] 6] demo_paths) demo_paths) NewHub) = Some es \<and>
     fsm_Persist (entries_Marshal (\<lambda>_. True)) None None es = (s, None) \<and>
     fsm_Restore entries_Decode (\<lambda>_ _. 1) (NewFSM (fresh_engine (\<lambda>_. None) []) NewHub) (sdata s) = Some (g', None) \<and>
     eng_view (fstore g') [3] = Some (live [3] [] 7)"
proof -
  let ?e = "fresh_engine (demo_fs [live [2] [] 6] demo_paths) demo_paths"
  let ?f = "NewFSM ?e NewHub" and ?g = "NewFSM (fresh_engine (\<lambda>_. None) []) NewHub"
  have f: "eng_ok (fstore ?f) (demo_tab [live [2] [] 6])" "\<forall>p\<in>set (ctables (ecompact (fstore ?f))). quiet (demo_tab [live [2] [] 6] p)"
    using demo_engine(1,3) by (simp_all add: NewFSM_def)
  have g: "eimmutable (fstore ?g) = None" "ctables (ecompact (fstore ?g)) = []" by (simp_all add: NewFSM_def fresh_engine_def)
  have valid: "\<forall>k. eng_view (fstore ?f) k \<noteq> None \<longrightarrow> valid_utf8 k"
  proof (intro allI impI)
    fix k
    assume "eng_view (fstore ?f) k \<noteq> None"
    then have "k \<in> Key ` set (concat (map (demo_tab [live [2] [] 6]) demo_paths))" using demo_engine(4) by (auto simp: NewFSM_def)
    then show "valid_utf8 k" by (auto simp: demo_defs intro!: valid_utf8_ascii)
  qed
  from snapshot_moves_state [OF f permutes_rev demo_fsm_ok g valid, of "\<lambda>_. True" "\<lambda>_ _. 1"]
  show ?thesis using demo_engine(2) by (auto simp: NewFSM_def)
qed

end
