(* ===== verification/Lifetime.thy ===== *)
theory Lifetime
  imports Recovery
begin

text \<open>
  The life of a node through crashes and restarts. A node that restarts opens its store on what the crash left
  of the log file (\<open>storage.Open\<close>), Raft hands the state machine the latest snapshot, if it has one
  (\<open>FSM.Restore\<close>), and then applies the committed entries behind it again, although the store may hold
  them already. None of the code distinguishes an entry applied for the first time from one applied again.

  \<open>life\<close> is a node with the position \<open>lfrom\<close> in the committed log at which its present incarnation began,
  the highest position \<open>lhigh\<close> that any incarnation has come to, and the latest snapshot with its position.
  Three more fields are history that no step reads: whether the incarnation began on a state that fits its
  position (\<open>lbase_ok\<close>), whether the snapshot was taken from a sound node with quiet tables (\<open>lsnap_ok\<close>),
  and whether the log file has held complete records only at every restart so far (\<open>lwhole\<close>).

  A node works (\<open>life_work\<close>): it takes any step of a replica, with writes that fail and flushes and compactions
  that lose data, or persists a snapshot. It crashes at any moment, also inside an append (\<open>crashed\<close>), and restarts
  (\<open>life_restart\<close>): without a snapshot on the recovered log, otherwise from the snapshot. It is sound
  (\<open>lsound\<close>) when its incarnation began well and has been sound since. A restart makes a node sound
  again whatever happened before, if its snapshot is good or it has none and its log was whole.

  While a node catches up, its store is ahead of its position on the keys it has not come to again;
  \<open>spans\<close> says how far.
\<close>

definition spans :: "raftlog list \<Rightarrow> nat \<Rightarrow> nat \<Rightarrow> mem_op list \<Rightarrow> bool" where
  "spans ls lo hi ops \<longleftrightarrow>
     (\<forall>k. \<exists>m. lo \<le> m \<and> m \<le> hi \<and> last_write ops k = last_write (log_writes cmd_Unmarshal (take m ls)) k)"

record life =
  lrep :: replica
  lfrom :: nat
  lhigh :: nat
  lsnap :: "(nat \<times> bytes) option"
  lbase_ok :: bool
  lsnap_ok :: bool
  lwhole :: bool

abbreviation lstore :: "life \<Rightarrow> engine" where
  "lstore n \<equiv> ceng (rconf (lrep n))"

definition lpos :: "life \<Rightarrow> nat" where
  "lpos n = lfrom n + length (rlog (lrep n))"

definition lsound :: "life \<Rightarrow> bool" where
  "lsound n \<longleftrightarrow> lbase_ok n \<and> rsound (lrep n)"

definition all_quiet :: "engine \<Rightarrow> bool" where
  "all_quiet e \<longleftrightarrow> (\<exists>tab. eng_ok e tab \<and> (\<forall>p\<in>set (listed e). quiet (tab p)))"

definition restored_replica :: "entry list \<Rightarrow> fsm \<Rightarrow> replica" where
  "restored_replica es g = \<lparr>rconf = opened (map entry_op es) (fstore g), rhub = fwatcher g, rlog = [], rresp = []\<rparr>"

inductive life_work :: "size_sort \<Rightarrow> raftlog list \<Rightarrow> life \<Rightarrow> life \<Rightarrow> bool" for srt ls where
  runs: "replica_step wal_Marshal cmd_Unmarshal srt (lrep n) r \<Longrightarrow> take (length (rlog r)) (drop (lfrom n) ls) = rlog r \<Longrightarrow>
     life_work srt ls n (n\<lparr>lrep := r, lhigh := max (lhigh n) (lfrom n + length (rlog r))\<rparr>)"
| snapshots: "permutes order \<Longrightarrow> fsm_Snapshot order (NewFSM (lstore n) (rhub (lrep n))) = Some es \<Longrightarrow>
     fsm_Persist (entries_Marshal isnil) werr cerr es = (s, None) \<Longrightarrow>
     life_work srt ls n (n\<lparr>lsnap := Some (lpos n, sdata s), lsnap_ok := (lsound n \<and> all_quiet (lstore n))\<rparr>)"

definition crashed :: "size_sort \<Rightarrow> raftlog list \<Rightarrow> life \<Rightarrow> bytes \<Rightarrow> nat \<Rightarrow> bool" where
  "crashed srt ls n f hw \<longleftrightarrow> (\<exists>r. (r = lrep n \<or> replica_step wal_Marshal cmd_Unmarshal srt (lrep n) r) \<and>
     take (length (rlog r)) (drop (lfrom n) ls) = rlog r \<and> f \<in> crash_between (ewal (lstore n)) (ewal (ceng (rconf r))) \<and>
     hw = max (lhigh n) (lfrom n + length (rlog r)))"

definition whole_log :: "bytes \<Rightarrow> bool" where
  "whole_log f \<longleftrightarrow> (\<exists>ds. f = log_bytes ds \<and> (\<forall>d\<in>set ds. length d < 2 ^ 32))"

inductive life_restart :: "size_sort \<Rightarrow> raftlog list \<Rightarrow> life \<Rightarrow> life \<Rightarrow> bool" for srt ls where
  from_log: "crashed srt ls n f hw \<Longrightarrow> lsnap n = None \<Longrightarrow>
     eng_Open wal_Unmarshal draws None script (Some f) tabs mb = Some (Inr e) \<Longrightarrow>
     life_restart srt ls n \<lparr>lrep = new_replica wal_Unmarshal f e, lfrom = 0, lhigh = hw, lsnap = None,
       lbase_ok = lwhole n, lsnap_ok = False, lwhole = (lwhole n \<and> whole_log f)\<rparr>"
| from_snapshot: "crashed srt ls n f hw \<Longrightarrow> lsnap n = Some (j, d) \<Longrightarrow>
     eng_Open wal_Unmarshal draws None script (Some f) tabs mb = Some (Inr e) \<Longrightarrow> entries_Decode d = Some es \<Longrightarrow>
     fsm_Restore entries_Decode draws' (NewFSM e NewHub) d = Some (g, None) \<Longrightarrow>
     life_restart srt ls n \<lparr>lrep = restored_replica es g, lfrom = j, lhigh = hw, lsnap = Some (j, d),
       lbase_ok = lsnap_ok n, lsnap_ok = lsnap_ok n, lwhole = False\<rparr>"

definition booted :: "engine \<Rightarrow> life" where
  "booted e = \<lparr>lrep = new_replica wal_Unmarshal [] e, lfrom = 0, lhigh = 0, lsnap = None, lbase_ok = True, lsnap_ok = False, lwhole = True\<rparr>"

inductive node_life :: "size_sort \<Rightarrow> raftlog list \<Rightarrow> life \<Rightarrow> bool" for srt ls where
  boot: "eng_Open wal_Unmarshal draws None script (Some []) tabs mb = Some (Inr e) \<Longrightarrow> node_life srt ls (booted e)"
| work: "node_life srt ls n \<Longrightarrow> life_work srt ls n n' \<Longrightarrow> node_life srt ls n'"
| restart: "node_life srt ls n \<Longrightarrow> life_restart srt ls n n' \<Longrightarrow> node_life srt ls n'"

subsection \<open>Applying entries again\<close>

lemma spans_mono: "spans ls lo hi ops \<Longrightarrow> lo' \<le> lo \<Longrightarrow> hi \<le> hi' \<Longrightarrow> spans ls lo' hi' ops"
  unfolding spans_def by (meson order_trans)

lemma log_writes_take_add: "log_writes cdec (take (i + n) ls) = log_writes cdec (take i ls) @ log_writes cdec (take n (drop i ls))"
  by (simp add: take_add)

text \<open>A key that the entries \<open>i\<close> to \<open>i + n\<close> do not write is the same after any of them.\<close>

lemma last_write_untouched:
  assumes "k \<notin> op_key ` set (log_writes cdec (take n (drop i ls)))" "i \<le> m" "m \<le> i + n"
  shows "last_write (log_writes cdec (take m ls)) k = last_write (log_writes cdec (take (i + n) ls)) k"
proof -
  obtain a b where ab: "m = i + a" "n = a + b" using assms(2,3) by (metis add_le_cancel_left le_Suc_ex)
  then show ?thesis using assms(1) by (simp add: log_writes_take_add last_write_append take_add image_Un)
qed

lemma spans_extend:
  assumes "spans ls lo hi ops" "i \<le> lo"
  shows "spans ls (i + n) (max hi (i + n)) (ops @ log_writes cmd_Unmarshal (take n (drop i ls)))"
  unfolding spans_def
proof
  fix k
  let ?w = "log_writes cmd_Unmarshal (take n (drop i ls))"
  obtain m where m: "lo \<le> m" "m \<le> hi" "last_write ops k = last_write (log_writes cmd_Unmarshal (take m ls)) k"
    using assms(1) by (auto simp: spans_def)
  show "\<exists>m. i + n \<le> m \<and> m \<le> max hi (i + n) \<and> last_write (ops @ ?w) k = last_write (log_writes cmd_Unmarshal (take m ls)) k"
  proof (cases "k \<in> op_key ` set ?w")
    case True
    then show ?thesis by (intro exI [of _ "i + n"]) (simp add: log_writes_take_add last_write_append)
  next
    case False
    then have "last_write (ops @ ?w) k = last_write (log_writes cmd_Unmarshal (take (max m (i + n)) ls)) k"
      using m last_write_untouched [OF False, of m] assms(2) by (simp add: last_write_append max_def)
    then show ?thesis using m(2) by (intro exI [of _ "max m (i + n)"]) auto
  qed
qed

text \<open>The recovered log: every beginning of its records shows each key as some prefix of the committed log.\<close>

definition log_spans :: "raftlog list \<Rightarrow> nat \<Rightarrow> bytes list \<Rightarrow> bool" where
  "log_spans ls hi ds \<longleftrightarrow> (\<forall>j. spans ls 0 hi (List.map_filter (decode_op wal_Unmarshal) (take j ds)))"

lemma log_spans_take: "log_spans ls hi ds \<Longrightarrow> log_spans ls hi (take j ds)"
  by (simp add: log_spans_def)

lemma log_spans_mono: "log_spans ls hi ds \<Longrightarrow> hi \<le> hi' \<Longrightarrow> log_spans ls hi' ds"
  using spans_mono unfolding log_spans_def by blast

lemma take_map_filter: "\<exists>n. take j (List.map_filter f xs) = List.map_filter f (take n xs)"
proof (induction xs arbitrary: j)
  case Nil
  then show ?case by (simp add: map_filter_simps)
next
  case (Cons x xs)
  show ?case
  proof (cases "f x")
    case None
    obtain n where "take j (List.map_filter f xs) = List.map_filter f (take n xs)" using Cons by blast
    then show ?thesis using None by (intro exI [of _ "Suc n"]) (simp add: map_filter_simps)
  next
    case (Some y)
    show ?thesis
    proof (cases j)
      case 0
      then show ?thesis by (intro exI [of _ 0]) (simp add: map_filter_simps)
    next
      case (Suc i)
      obtain n where "take i (List.map_filter f xs) = List.map_filter f (take n xs)" using Cons by blast
      then show ?thesis using Some Suc by (intro exI [of _ "Suc n"]) (simp add: map_filter_simps)
    qed
  qed
qed

lemma log_spans_extend:
  assumes "log_spans ls hi ds" "\<forall>op\<in>set (log_writes cmd_Unmarshal (take n ls)). survives wal_Marshal wal_Unmarshal op"
  shows "log_spans ls (max hi n) (ds @ records wal_Marshal (log_writes cmd_Unmarshal (take n ls)))"
  unfolding log_spans_def
proof
  fix j
  let ?dec = "List.map_filter (decode_op wal_Unmarshal)" and ?w = "log_writes cmd_Unmarshal (take n ls)"
  show "spans ls 0 (max hi n) (?dec (take j (ds @ records wal_Marshal ?w)))"
  proof (cases "j \<le> length ds")
    case True
    have "spans ls 0 hi (?dec (take j ds))" using assms(1) by (simp add: log_spans_def)
    from spans_mono [OF this order_refl max.cobounded1] show ?thesis using True by simp
  next
    case False
    obtain m where m: "take (j - length ds) ?w = log_writes cmd_Unmarshal (take m (take n ls))"
      unfolding log_writes_def using take_map_filter by blast
    have "\<forall>op\<in>set (take (j - length ds) ?w). survives wal_Marshal wal_Unmarshal op" using assms(2) in_set_takeD by fast
    from decode_records [OF this] have "?dec (take (j - length ds) (records wal_Marshal ?w)) = log_writes cmd_Unmarshal (take (min m n) (drop 0 ls))"
      using m by (simp add: records_def take_map min.commute)
    then have eq: "?dec (take j (ds @ records wal_Marshal ?w)) = ?dec ds @ log_writes cmd_Unmarshal (take (min m n) (drop 0 ls))"
      using False by (simp add: List.map_filter_def)
    have "spans ls 0 hi (?dec ds)" using assms(1) unfolding log_spans_def by (metis order_refl take_all)
    from spans_extend [OF this order_refl, of "min m n"] have "spans ls (min m n) (max hi (min m n)) (?dec ds @ log_writes cmd_Unmarshal (take (min m n) (drop 0 ls)))"
      by simp
    then show ?thesis unfolding eq by (rule spans_mono) auto
  qed
qed

subsection \<open>The invariant\<close>

definition life_inv :: "raftlog list \<Rightarrow> life \<Rightarrow> bool" where
  "life_inv ls n \<longleftrightarrow> take (length (rlog (lrep n))) (drop (lfrom n) ls) = rlog (lrep n) \<and> lpos n \<le> lhigh n \<and>
     replica_inv cmd_Unmarshal (cbase (rconf (lrep n))) (lrep n) \<and>
     (lbase_ok n \<longrightarrow> spans ls (lfrom n) (lhigh n) (cbase (rconf (lrep n)))) \<and>
     (lsnap n = None \<longrightarrow> lfrom n = 0 \<and> (lwhole n \<longrightarrow> (\<exists>ds. (\<forall>d\<in>set ds. length d < 2 ^ 32) \<and>
        log_inv wal_Marshal (log_bytes ds) (rconf (lrep n)) \<and> log_spans ls (lhigh n) ds))) \<and>
     (\<forall>j d. lsnap n = Some (j, d) \<longrightarrow> j \<le> lhigh n \<and>
        (lsnap_ok n \<longrightarrow> (\<forall>es. entries_Decode d = Some es \<longrightarrow> spans ls j (lhigh n) (map entry_op es))))"

lemma life_view:
  assumes "life_inv ls n" "lsound n"
  shows "\<exists>m. lpos n \<le> m \<and> m \<le> lhigh n \<and> eng_view (lstore n) k = last_write (log_writes cmd_Unmarshal (take m ls)) k"
proof -
  let ?r = "lrep n"
  have inv: "take (length (rlog ?r)) (drop (lfrom n) ls) = rlog ?r" "replica_inv cmd_Unmarshal (cbase (rconf ?r)) ?r"
      "spans ls (lfrom n) (lhigh n) (cbase (rconf ?r))" "lpos n \<le> lhigh n" "rsound ?r"
    using assms by (auto simp: life_inv_def lsound_def)
  from spans_extend [OF inv(3) order_refl, of "length (rlog ?r)"] inv(1)
  have "spans ls (lpos n) (lhigh n) (cbase (rconf ?r) @ log_writes cmd_Unmarshal (rlog ?r))"
    using inv(4) by (simp add: max_absorb1 lpos_def)
  then show ?thesis using replica_view [OF inv(2,5), of k] by (simp add: spans_def)
qed

lemma life_wf: "life_inv ls n \<Longrightarrow> lsound n \<Longrightarrow> eng_wf (lstore n)"
  using replica_wf by (auto simp: life_inv_def lsound_def)

lemma life_reflects: "life_inv ls n \<Longrightarrow> lsound n \<Longrightarrow> reflects cmd_Unmarshal ls (lpos n) (lstore n)"
  using life_view life_wf unfolding reflects_def by metis

lemma last_write_live: "last_write ops k = Some en \<Longrightarrow> en = live k (Value en) (Version en)"
  by (auto simp: last_write_def find_Some_iff split: option.splits elim!: op_effect.elims)

lemma find_key_member: "distinct (map Key es) \<Longrightarrow> en \<in> set es \<Longrightarrow> find_key (Key en) es = Some en"
  by (induction es) (auto simp: image_iff)

lemma last_write_entries:
  "distinct (map Key es) \<Longrightarrow> last_write (map entry_op es) k = map_option (\<lambda>en. live k (Value en) (Version en)) (find_key k es)"
proof (induction es)
  case (Cons en es)
  have "last_write (map entry_op (en # es)) k =
      (if k \<in> op_key ` entry_op ` set es then last_write (map entry_op es) k else last_write [entry_op en] k)"
    using last_write_append [of "[entry_op en]" "map entry_op es" k] by simp
  moreover have "last_write [entry_op en] k = (if k = Key en then Some (live k (Value en) (Version en)) else None)"
    by (simp add: entry_op_def)
  moreover have "op_key ` entry_op ` set es = Key ` set es" by (simp add: image_image entry_op_def)
  moreover have "k \<notin> Key ` set es \<Longrightarrow> find_key k es = None" by (simp add: find_key_None_iff)
  ultimately show ?case using Cons by auto
qed simp

text \<open>The snapshot of a sound node with quiet tables.\<close>

lemma life_snapshot:
  assumes inv: "life_inv ls n" "lsound n" and tab: "eng_ok (lstore n) tab" "\<forall>p\<in>set (listed (lstore n)). quiet (tab p)" and "permutes order"
  shows "\<exists>es. fsm_Snapshot order (NewFSM (lstore n) (rhub (lrep n))) = Some es \<and> spans ls (lpos n) (lhigh n) (map entry_op es) \<and>
    (\<exists>d. entries_Marshal isnil es = Inr d \<and> entries_Decode d = Some es)"
proof -
  let ?e = "lstore n"
  obtain es where es: "eng_Snapshot order ?e = Some es" "distinct (map Key es)" "\<And>en. en \<in> set es \<longleftrightarrow> eng_view ?e (Key en) = Some en"
    using eng_Snapshot_ok [OF tab(1) assms(5) tab(2)] by blast
  note view = life_view [OF inv]
  have "eng_view ?e k = last_write (map entry_op es) k" for k
  proof (cases "eng_view ?e k")
    case None
    then have "find_key k es = None" using es(3) by (auto simp: find_key_None_iff)
    then show ?thesis using None by (simp add: last_write_entries [OF es(2)])
  next
    case (Some en)
    then have "en = live k (Value en) (Version en)" using view [of k] last_write_live by metis
    then have "en \<in> set es" "Key en = k" using es(3) [of en] Some by (metis live_simps(1))+
    then have "find_key k es = Some en" using es(2) find_key_member by blast
    then show ?thesis using Some \<open>en = _\<close> by (simp add: last_write_entries [OF es(2)])
  qed
  then have "spans ls (lpos n) (lhigh n) (map entry_op es)" using view unfolding spans_def by metis
  moreover have "to_valid (Key en) = Key en" if "en \<in> set es" for en
    using that es(3) view [of "Key en"] last_write_member log_writes_valid by (fastforce simp: valid_utf8_def)
  then have "map (\<lambda>en. en\<lparr>Key := to_valid (Key en)\<rparr>) es = es" by (intro map_idI) auto
  ultimately show ?thesis
    using es(1) entries_roundtrip [of isnil es "jprint (entries_json isnil es)"]
    by (simp add: fsm_Snapshot_def NewFSM_def entries_Marshal_def)
qed

lemma life_inv_work:
  assumes "life_work srt ls n n'" "sorts_by_size srt" "life_inv ls n"
  shows "life_inv ls n'"
  using assms(1)
proof cases
  case (runs r)
  let ?hw = "max (lhigh n) (lfrom n + length (rlog r))"
  have r: "replica_inv cmd_Unmarshal (cbase (rconf (lrep n))) r"
    using replica_step_inv [OF runs(2) assms(2)] assms(3) by (simp add: life_inv_def)
  then have base: "cbase (rconf r) = cbase (rconf (lrep n))" by (simp add: replica_inv_def)
  have log: "log_inv wal_Marshal f (rconf (lrep n)) \<Longrightarrow> log_inv wal_Marshal f (rconf r)" for f
    using replica_step_config [OF runs(2)] log_inv_step by metis
  have hw: "lhigh n \<le> ?hw" by simp
  show ?thesis
    using assms(3) r base log runs(1,3) spans_mono [OF _ order_refl hw] log_spans_mono [OF _ hw]
    by (fastforce simp: life_inv_def lpos_def)
next
  case (snapshots order es isnil werr cerr s)
  have "spans ls (lpos n) (lhigh n) (map entry_op es')" if ok: "lsound n" "all_quiet (lstore n)" and d: "entries_Decode (sdata s) = Some es'" for es'
  proof -
    obtain tab where t: "eng_ok (lstore n) tab" "\<forall>p\<in>set (listed (lstore n)). quiet (tab p)" using ok(2) by (auto simp: all_quiet_def)
    obtain b where b: "spans ls (lpos n) (lhigh n) (map entry_op es)" "entries_Marshal isnil es = Inr b" "entries_Decode b = Some es"
      using life_snapshot [OF assms(3) ok(1) t snapshots(2), of isnil] snapshots(3) by auto
    have "sdata s = b" using snapshots(4) b(2) by (auto simp: fsm_Persist_def split: option.splits)
    then show ?thesis using b d by simp
  qed
  then show ?thesis using assms(3) snapshots(1) by (simp add: life_inv_def lpos_def)
qed

text \<open>What a crash leaves.\<close>

lemma crashed_log:
  assumes inv: "life_inv ls n" "lsnap n = None" "lwhole n" and crash: "crashed srt ls n f hw"
    and small: "\<forall>l\<in>set ls. length (lData l) \<le> 2 ^ 27"
  shows "log_spans ls hw (fst (ReadAll (Some f)))"
proof -
  obtain r where r: "r = lrep n \<or> replica_step wal_Marshal cmd_Unmarshal srt (lrep n) r" "take (length (rlog r)) ls = rlog r"
      "f \<in> crash_between (ewal (lstore n)) (ewal (ceng (rconf r)))" "hw = max (lhigh n) (length (rlog r))"
    using crash inv(1,2) by (auto simp: crashed_def life_inv_def)
  obtain ds where ds: "\<forall>d\<in>set ds. length d < 2 ^ 32" "log_inv wal_Marshal (log_bytes ds) (rconf (lrep n))" "log_spans ls (lhigh n) ds"
    using inv by (auto simp: life_inv_def)
  have log: "log_inv wal_Marshal (log_bytes ds) (rconf r)" using r(1) ds(2) replica_step_config log_inv_step by metis
  have w: "clogged (rconf r) = log_writes cmd_Unmarshal (take (length (rlog r)) ls)"
  proof -
    have n: "clogged (rconf (lrep n)) = log_writes cmd_Unmarshal (rlog (lrep n))" using inv(1) by (simp add: life_inv_def replica_inv_def)
    from r(1) have "clogged (rconf r) = log_writes cmd_Unmarshal (rlog r)"
    proof
      assume "replica_step wal_Marshal cmd_Unmarshal srt (lrep n) r"
      then show ?thesis using n bg_step_keeps by cases (auto simp: applied_config_def split: option.split)
    qed (use n in simp)
    then show ?thesis using r(2) by simp
  qed
  have surv: "\<forall>op\<in>set (clogged (rconf r)). survives wal_Marshal wal_Unmarshal op"
    unfolding w using log_writes_survive small by (meson in_set_takeD)
  obtain j where j: "ReadAll (Some f) = (take j (ds @ records wal_Marshal (clogged (rconf r))), None)"
    using crash_replay [OF log r(3) ds(1) surv] by blast
  have "log_spans ls hw (ds @ records wal_Marshal (clogged (rconf r)))"
    using log_spans_extend [OF ds(3)] surv by (simp add: w r(4))
  then show ?thesis unfolding j fst_conv by (rule log_spans_take)
qed

lemma life_inv_restart:
  assumes "life_restart srt ls n n'" "life_inv ls n" and small: "\<forall>l\<in>set ls. length (lData l) \<le> 2 ^ 27"
  shows "life_inv ls n'"
  using assms(1)
proof cases
  case (from_log f hw draws script tabs mb e)
  have e: "ewal e = wal_Open f script" using eng_Open_ok [of wal_Unmarshal draws script f tabs mb] from_log(4) by auto
  have r: "replica_inv cmd_Unmarshal (log_ops wal_Unmarshal f) (new_replica wal_Unmarshal f e)" by (rule new_replica_inv [OF from_log(4)])
  have sp: "log_spans ls hw (fst (ReadAll (Some f)))" if "lwhole n" by (rule crashed_log [OF assms(2) from_log(3) that from_log(2) small])
  have "spans ls 0 hw (log_ops wal_Unmarshal f)" if "lwhole n"
    using sp [OF that] unfolding log_spans_def log_ops_def by (metis order_refl take_all)
  moreover have "\<exists>ds. (\<forall>d\<in>set ds. length d < 2 ^ 32) \<and> log_inv wal_Marshal (log_bytes ds) (start wal_Unmarshal f e) \<and> log_spans ls hw ds"
    if "lwhole n" and whole: "whole_log f"
  proof -
    obtain ds where ds: "f = log_bytes ds" "\<forall>d\<in>set ds. length d < 2 ^ 32" using whole by (auto simp: whole_log_def)
    then show ?thesis using sp [OF that(1)] log_inv_opened [OF e] ReadAll_log [OF ds(2)] by (intro exI [of _ ds]) (simp add: start_def)
  qed
  ultimately show ?thesis using r from_log(1)
    by (simp add: life_inv_def new_replica_def lpos_def start_def)
next
  case (from_snapshot f hw j d draws script tabs mb e es draws' g)
  obtain tab :: "sst_path \<Rightarrow> entry list" where e: "eng_ok e tab" "eimmutable e = None" "listed e = []"
    using eng_Open_ok [of wal_Unmarshal draws script f tabs mb] from_snapshot(4) by auto
  obtain e' where e': "eng_Restore draws' e es = Some (e', None)" "eng_ok e' tab" "eimmutable e' = None"
      "listed e' = []" "contents (ememtable e') = fold apply_op (map entry_op es) []"
    using eng_Restore_contents [OF e(1), of draws' es] e(2,3) by auto
  have g: "g = NewFSM e' NewHub" using from_snapshot(5,6) e'(1) by (auto simp: fsm_Restore_def NewFSM_def)
  have "eng_inv (opened (map entry_op es) e')" by (rule inv_opened [OF e'(2,5,3,4)])
  moreover have hw: "lhigh n \<le> hw" using from_snapshot(2) by (auto simp: crashed_def)
  then have "j \<le> hw" "lsnap_ok n \<Longrightarrow> spans ls j hw (map entry_op es)"
    using assms(2) from_snapshot(3,5) spans_mono [OF _ order_refl hw] by (auto simp: life_inv_def)
  ultimately show ?thesis using from_snapshot(1,5) g hub_ok_New
    by (simp add: life_inv_def restored_replica_def replica_inv_def lpos_def NewFSM_def)
qed

lemma node_life_inv:
  assumes "node_life srt ls n" "sorts_by_size srt" "\<forall>l\<in>set ls. length (lData l) \<le> 2 ^ 27"
  shows "life_inv ls n"
  using assms(1)
proof (induction rule: node_life.induct)
  case (boot draws script tabs mb e)
  have "ewal e = wal_Open [] script" using eng_Open_ok [of wal_Unmarshal draws script "[]" tabs mb] boot by auto
  then have "log_inv wal_Marshal (log_bytes []) (start wal_Unmarshal [] e)" by (simp add: start_def log_inv_opened)
  moreover have "log_spans ls 0 []" by (simp add: log_spans_def spans_def map_filter_simps)
  ultimately show ?case using new_replica_inv [OF boot, of cmd_Unmarshal]
    unfolding life_inv_def booted_def by (auto simp: new_replica_def lpos_def spans_def start_def intro!: exI [of _ "[]"])
next
  case (work n n')
  then show ?case using life_inv_work [OF _ assms(2)] by blast
next
  case (restart n n')
  then show ?case using life_inv_restart [OF _ _ assms(3)] by blast
qed

subsection \<open>Readers\<close>

text \<open>The environment of a reader of sound nodes; \<open>fsm i\<close> bounds what the state machine of the node has consumed.\<close>

definition follows :: "size_sort \<Rightarrow> raftlog list \<Rightarrow> (nat \<Rightarrow> u64) \<Rightarrow> renv \<Rightarrow> bool" where
  "follows srt ls fsm env \<longleftrightarrow> (\<forall>i. \<exists>n. node_life srt ls n \<and> lsound n \<and> rstore env i = lstore n \<and>
     (\<forall>l\<in>set (drop (lpos n) ls). fsm i < lIndex l))"

lemma follows_tracks:
  assumes "follows srt ls fsm env" "sorts_by_size srt" "\<forall>l\<in>set ls. length (lData l) \<le> 2 ^ 27"
  shows "tracks cmd_Unmarshal ls fsm env"
  unfolding tracks_def
proof
  fix i
  obtain n where n: "node_life srt ls n" "lsound n" "rstore env i = lstore n" "\<forall>l\<in>set (drop (lpos n) ls). fsm i < lIndex l"
    using assms(1) unfolding follows_def by blast
  then show "\<exists>p. reflects cmd_Unmarshal ls p (rstore env i) \<and> (\<forall>l\<in>set (drop p ls). fsm i < lIndex l)"
    using life_reflects [OF node_life_inv [OF n(1) assms(2,3)] n(2)] by auto
qed

text \<open>What Raft's answer to a proposal means on the node that made it: the state machine of this node has applied
  the entry and has given this response to it.\<close>

definition applied_here :: "size_sort \<Rightarrow> raftlog list \<Rightarrow> life \<Rightarrow> bytes \<Rightarrow> response \<Rightarrow> bool" where
  "applied_here srt ls n d resp \<longleftrightarrow> node_life srt ls n \<and>
     (\<exists>l. lType l = LogCommand \<and> lData l = d \<and> (l, resp) \<in> set (zip (rlog (lrep n)) (rresp (lrep n))))"

lemma work_keeps:
  assumes "(life_work srt ls)\<^sup>*\<^sup>* n n'"
  shows "(node_life srt ls n \<longrightarrow> node_life srt ls n') \<and> lfrom n' = lfrom n \<and> (\<exists>more. rlog (lrep n') = rlog (lrep n) @ more)"
  using assms
proof (induction rule: rtranclp_induct)
  case (step n1 n2)
  from step(2) have "lfrom n2 = lfrom n1 \<and> (\<exists>more. rlog (lrep n2) = rlog (lrep n1) @ more)"
  proof cases
    case (runs r)
    then show ?thesis using replica_step_keeps [OF runs(2)] by auto
  qed simp
  then show ?case using step node_life.work by fastforce
qed simp

text \<open>A read on the node that answered the proposal, at any time until it restarts, shows a prefix of the log with
  the entry in it.\<close>

lemma read_after_apply:
  assumes ack: "applied_here srt ls n d (ApplyResult v)" and later: "(life_work srt ls)\<^sup>*\<^sup>* n n'" "lsound n'"
    and srt: "sorts_by_size srt" and small: "\<forall>l\<in>set ls. length (lData l) \<le> 2 ^ 27"
    and read: "eng_Get (lstore n') key = Some (en, found)"
  shows "\<exists>i l. l \<in> set (take i ls) \<and> lIndex l = v \<and> lData l = d \<and> log_op cmd_Unmarshal l \<noteq> None \<and>
    (case last_write (log_writes cmd_Unmarshal (take i ls)) key of None \<Rightarrow> \<not> found | Some x \<Rightarrow> found \<and> en = x)"
proof -
  obtain l where l: "node_life srt ls n" "lData l = d" "(l, ApplyResult v) \<in> set (zip (rlog (lrep n)) (rresp (lrep n)))"
    using ack by (auto simp: applied_here_def)
  have "replica_inv cmd_Unmarshal (cbase (rconf (lrep n))) (lrep n)" using node_life_inv [OF l(1) srt small] by (simp add: life_inv_def)
  from replica_answer [OF this l(3)] have v: "lIndex l = v" "log_op cmd_Unmarshal l \<noteq> None" by auto
  have n': "node_life srt ls n'" "set (rlog (lrep n)) \<subseteq> set (rlog (lrep n'))" using work_keeps [OF later(1)] l(1) by auto
  note inv = node_life_inv [OF n'(1) srt small]
  obtain i where i: "lpos n' \<le> i" "eng_view (lstore n') key = last_write (log_writes cmd_Unmarshal (take i ls)) key"
    using life_view [OF inv later(2)] by blast
  have "rlog (lrep n') = take (length (rlog (lrep n'))) (drop (lfrom n') ls)" using inv by (simp add: life_inv_def)
  also have "\<dots> = drop (lfrom n') (take (lpos n') ls)" by (simp add: drop_take lpos_def)
  finally have "set (rlog (lrep n')) \<subseteq> set (take (lpos n') ls)" by (metis set_drop_subset)
  moreover have "set (take (lpos n') ls) \<subseteq> set (take i ls)" by (rule set_take_subset_set_take [OF i(1)])
  moreover have "l \<in> set (rlog (lrep n))" using l(3) by (rule set_zip_leftD)
  ultimately have "l \<in> set (take i ls)" using n'(2) by blast
  then show ?thesis using v l(2) i(2) eng.get_law [OF life_wf [OF inv later(2)], of key] read
    by (intro exI [of _ i] exI [of _ l]) (auto split: option.split)
qed

subsection \<open>A short life\<close>

text \<open>A node that has opened its store on any image and not applied an entry yet can apply one.\<close>

lemma life_applies:
  assumes "node_life srt ls n" "eng_Open wal_Unmarshal draws None [] (Some f) tabs mb = Some (Inr e)" "lrep n = new_replica wal_Unmarshal f e"
    "lfrom n = 0" "lbase_ok n" "ls = l # rest" "log_op cmd_Unmarshal l = Some op"
  shows "\<exists>n'. life_work srt ls n n' \<and> rlog (lrep n') = [l] \<and>
    rresp (lrep n') = [ApplyResult (lIndex l)] \<and> lsound n' \<and> lpos n' = 1 \<and> lhigh n' = max (lhigh n) 1 \<and>
    eng_ok (lstore n') (\<lambda>_. []) \<and> listed (lstore n') = []"
proof -
  obtain r where r: "replica_step wal_Marshal cmd_Unmarshal srt (lrep n) r" "rlog r = [l]" "rresp r = [ApplyResult (lIndex l)]" "rsound r"
      "eng_ok (ceng (rconf r)) (\<lambda>_. [])" "listed (ceng (rconf r)) = []"
    using one_entry_applied [OF assms(2,7), of wal_Marshal "\<lambda>_. 1" srt] assms(3) by auto
  have "take (length (rlog r)) (drop (lfrom n) ls) = rlog r" using r(2) assms(4,6) by simp
  from life_work.runs [OF r(1) this] show ?thesis using r assms(3-5)
    by (intro exI [of _ "n\<lparr>lrep := r, lhigh := max (lhigh n) (lfrom n + length (rlog r))\<rparr>"]) (simp add: lsound_def lpos_def)
qed

text \<open>Boot and apply one entry.\<close>

lemma demo_life:
  assumes "log_op cmd_Unmarshal l = Some op"
  shows "\<exists>n. node_life srt [l] n \<and> rlog (lrep n) = [l] \<and> rresp (lrep n) = [ApplyResult (lIndex l)] \<and> lsound n \<and> lpos n = 1 \<and>
    lhigh n = 1 \<and> eng_ok (lstore n) (\<lambda>_. []) \<and> listed (lstore n) = []"
proof -
  obtain e where e: "eng_Open wal_Unmarshal (\<lambda>_ _. 1) None [] (Some []) (\<lambda>_. None) 1 = Some (Inr e)" using eng_Open_ok by blast
  have b: "node_life srt [l] (booted e)" "lrep (booted e) = new_replica wal_Unmarshal [] e" "lfrom (booted e) = 0" "lbase_ok (booted e)"
    using node_life.boot [OF e] by (simp_all add: booted_def)
  from life_applies [OF b(1) e b(2-4) refl assms] show ?thesis using node_life.work [OF b(1)] by (fastforce simp: booted_def)
qed

text \<open>Boot, crash inside the append of the entry with three bytes of it on the disk, and restart on the torn log.\<close>

lemma demo_torn:
  assumes "log_op cmd_Unmarshal l = Some op"
  shows "\<exists>n0 n1 n2. node_life srt [l] n0 \<and> rlog (lrep n0) = [] \<and> life_restart srt [l] n0 n1 \<and> rlog (lrep n1) = [] \<and> lhigh n1 = 1 \<and>
    life_work srt [l] n1 n2 \<and> rlog (lrep n2) = [l] \<and> lsound n2 \<and> lpos n2 = 1 \<and> lhigh n2 = 1"
proof -
  obtain e where e: "eng_Open wal_Unmarshal (\<lambda>_ _. 1) None [] (Some []) (\<lambda>_. None) 1 = Some (Inr e)" using eng_Open_ok by blast
  have b: "node_life srt [l] (booted e)" by (rule node_life.boot [OF e])
  obtain r where r: "replica_step wal_Marshal cmd_Unmarshal srt (new_replica wal_Unmarshal [] e) r" "rlog r = [l]"
    using one_entry_applied [OF e assms, of wal_Marshal "\<lambda>_. 1" srt] by auto
  let ?f = "take 3 (fdata (bfile (bw (ewal (ceng (rconf r))))))"
  have "ewal e = wal_Open [] []" using eng_Open_ok [of wal_Unmarshal "\<lambda>_ _. 1" "[]" "[]" "\<lambda>_. None" 1] e by auto
  then have "?f \<in> crash_between (ewal e) (ewal (ceng (rconf r)))"
    by (auto simp: crash_between_def wal_Open_def NewWriterSize_def intro!: exI [of _ 3])
  then have crash: "crashed srt [l] (booted e) ?f 1"
    unfolding crashed_def using r by (intro exI [of _ r]) (simp add: booted_def new_replica_def start_def)
  obtain e1 where e1: "eng_Open wal_Unmarshal (\<lambda>_ _. 1) None [] (Some ?f) (\<lambda>_. None) 1 = Some (Inr e1)" using eng_Open_ok by blast
  let ?n1 = "\<lparr>lrep = new_replica wal_Unmarshal ?f e1, lfrom = 0, lhigh = 1, lsnap = None,
    lbase_ok = lwhole (booted e), lsnap_ok = False, lwhole = (lwhole (booted e) \<and> whole_log ?f)\<rparr>"
  have n1: "life_restart srt [l] (booted e) ?n1" by (rule life_restart.from_log [OF crash _ e1]) (simp add: booted_def)
  have "lbase_ok ?n1" by (simp add: booted_def)
  from life_applies [OF node_life.restart [OF b n1] e1 _ _ this refl assms]
  obtain n2 where n2: "life_work srt [l] ?n1 n2" "rlog (lrep n2) = [l]" "lsound n2" "lpos n2 = 1" "lhigh n2 = 1" by auto
  show ?thesis using b n1 n2 by (intro exI [of _ "booted e"] exI [of _ ?n1] exI [of _ n2]) (simp add: booted_def new_replica_def)
qed

subsection \<open>Properties\<close>

text \<open>C1. The state of a node through any number of crashes and restarts. A node boots on an empty log file, applies
  committed entries of at most 128 MiB each in order, flushes, compacts, fails writes and flushes, takes snapshots,
  crashes at any moment, also inside an append with any part of the record on the disk, and restarts from its
  log or its latest snapshot. Whenever it is sound, every key shows what it showed after some prefix of the committed
  log, not shorter than the entries applied since the restart (and covered by the snapshot) and not longer
  than the node has ever come.

  Sound speaks of the present incarnation. Its store failed no write; it began no flush while the memtable of a
  failed flush was waiting; its flushed tables fit the format, under new names; every compaction was harmless when it
  swapped its tables. And it began well: from a log file that held complete records only at every restart before
  the last one (the last crash may have torn it), or from a snapshot that a sound node with quiet tables
  took. Outside these conditions the code does lose data: a compaction can revive a deleted key or lose a value, a
  flush after a failed one hides data, and records behind a torn tail are not replayed.\<close>

theorem node_survives_restarts:
  assumes "node_life srt ls n" "sorts_by_size srt" "\<forall>l\<in>set ls. length (lData l) \<le> 2 ^ 27" "lsound n"
  shows "\<exists>m. lpos n \<le> m \<and> m \<le> lhigh n \<and> eng_view (lstore n) k = last_write (log_writes cmd_Unmarshal (take m ls)) k"
  by (rule life_view [OF node_life_inv [OF assms(1-3)] assms(4)])

theorem node_survives_restarts_witness:
  "\<exists>n0 n1 n2. node_life (sort_key snd) [json_entry demo_cmd] n0 \<and> rlog (lrep n0) = [] \<and>
     life_restart (sort_key snd) [json_entry demo_cmd] n0 n1 \<and> lhigh n1 = 1 \<and>
     life_work (sort_key snd) [json_entry demo_cmd] n1 n2 \<and> lsound n2 \<and> eng_view (lstore n2) [1] = Some (live [1] [2] 3)"
proof -
  let ?srt = "sort_key snd :: size_sort" and ?l = "json_entry demo_cmd"
  obtain n0 n1 n2 where n: "node_life ?srt [?l] n0" "rlog (lrep n0) = []" "life_restart ?srt [?l] n0 n1" "lhigh n1 = 1"
      "life_work ?srt [?l] n1 n2" "lsound n2" "lpos n2 = 1" "lhigh n2 = 1"
    using demo_torn [OF demo_json(1), of ?srt] by blast
  have life: "node_life ?srt [?l] n2" using n(1,3,5) node_life.work node_life.restart by blast
  from node_survives_restarts [OF life sort_by_size _ n(6), of "[1]"] demo_json(2)
  have "eng_view (lstore n2) [1] = last_write (log_writes cmd_Unmarshal (take 1 [?l])) [1]" using n(7,8) by (auto dest: le_antisym)
  then have "eng_view (lstore n2) [1] = Some (live [1] [2] 3)" by (simp add: demo_json(1))
  then show ?thesis using n by blast
qed

text \<open>C15. A snapshot that a sound node takes while all its tables are quiet fits a restart. In the life of a node, with
  entries of at most 128 MiB, \<open>Snapshot\<close> and \<open>Persist\<close> succeed, whichever empty values are nil slices, \<open>Restore\<close>
  decodes exactly the entries of the snapshot, and each key has in them what it had after some prefix of the
  committed log between the node's position, at which a restart from the snapshot goes on, and the farthest point
  the node has come to.\<close>

theorem snapshot_fits_restart:
  assumes "node_life srt ls n" "sorts_by_size srt" "\<forall>l\<in>set ls. length (lData l) \<le> 2 ^ 27" "lsound n"
    "eng_ok (lstore n) tab" "\<forall>p\<in>set (ctables (ecompact (lstore n))). quiet (tab p)" "permutes order"
  shows "\<exists>es s. fsm_Snapshot order (NewFSM (lstore n) (rhub (lrep n))) = Some es \<and>
    fsm_Persist (entries_Marshal isnil) None None es = (s, None) \<and> \<not> scancelled s \<and> entries_Decode (sdata s) = Some es \<and>
    (\<forall>k. \<exists>m. lpos n \<le> m \<and> m \<le> lhigh n \<and> last_write (map entry_op es) k = last_write (log_writes cmd_Unmarshal (take m ls)) k)"
proof -
  obtain es d where es: "fsm_Snapshot order (NewFSM (lstore n) (rhub (lrep n))) = Some es" "spans ls (lpos n) (lhigh n) (map entry_op es)"
      "entries_Marshal isnil es = Inr d" "entries_Decode d = Some es"
    using life_snapshot [OF node_life_inv [OF assms(1-3)] assms(4-7)] by blast
  then show ?thesis by (auto simp: spans_def fsm_Persist_def)
qed

theorem snapshot_fits_restart_witness:
  "\<exists>n es s. node_life (sort_key snd) [json_entry demo_cmd] n \<and> lsound n \<and>
     fsm_Snapshot rev (NewFSM (lstore n) (rhub (lrep n))) = Some es \<and> fsm_Persist (entries_Marshal (\<lambda>_. True)) None None es = (s, None) \<and>
     entries_Decode (sdata s) = Some es \<and> last_write (map entry_op es) [1] = Some (live [1] [2] 3)"
proof -
  let ?srt = "sort_key snd :: size_sort" and ?l = "json_entry demo_cmd"
  obtain n where n: "node_life ?srt [?l] n" "lsound n" "lpos n = 1" "lhigh n = 1" "eng_ok (lstore n) (\<lambda>_. [])" "listed (lstore n) = []"
    using demo_life [OF demo_json(1), of ?srt] by blast
  from snapshot_fits_restart [OF n(1) sort_by_size _ n(2,5) _ permutes_rev, of "\<lambda>_. True"] n(6) demo_json(2)
  obtain es s where es: "fsm_Snapshot rev (NewFSM (lstore n) (rhub (lrep n))) = Some es"
      "fsm_Persist (entries_Marshal (\<lambda>_. True)) None None es = (s, None)" "entries_Decode (sdata s) = Some es"
      "\<forall>k. \<exists>m. lpos n \<le> m \<and> m \<le> lhigh n \<and> last_write (map entry_op es) k = last_write (log_writes cmd_Unmarshal (take m [?l])) k"
    by auto
  have "last_write (map entry_op es) [1] = last_write (log_writes cmd_Unmarshal (take 1 [?l])) [1]"
    using es(4) n(3,4) by (metis le_antisym)
  then show ?thesis using n(1,2) es(1-3) by (simp add: demo_json(1)) blast
qed

end
