(* ===== verification/Http.thy ===== *)
theory Http
  imports Grpc Lifetime
begin

text \<open>
  \<open>internal/api/http/server.go\<close>: the REST gateway. A request has a method, a path, header and query
  lookups (a missing field is the empty string) and a body, given by the pieces that successive calls
  of \<open>Body.Read\<close> return. A response has a status, headers in the order they are set, and a body;
  \<open>http.Error\<close> texts that are an error value stay that value. Metrics and logging are left out.
\<close>

record hrequest =
  qMethod :: string
  qPath :: bytes
  qHeader :: "string \<Rightarrow> string"
  qQuery :: "string \<Rightarrow> bytes"
  qBody :: "bytes list"

datatype hbody = Empty | Plain string | ErrorText goerror | Octets bytes

record hresponse =
  hStatus :: nat
  hHeader :: "(string \<times> string) list"
  hBody :: hbody

text \<open>\<open>http.Error\<close> writes the text with a newline as plain text.\<close>

definition http_Error :: "(string \<times> string) list \<Rightarrow> hbody \<Rightarrow> nat \<Rightarrow> hresponse" where
  "http_Error headers msg code = \<lparr>hStatus = code,
     hHeader = headers @ [(''Content-Type'', ''text/plain; charset=utf-8''), (''X-Content-Type-Options'', ''nosniff'')], hBody = msg\<rparr>"

definition keysPath :: bytes where
  "keysPath = str ''/v1/keys/''"

text \<open>The mode of a request, as in \<open>getKey\<close>.\<close>

definition header_mode :: "hrequest \<Rightarrow> mode" where
  "header_mode r = (if qHeader r ''X-Consistency'' = '''' then Eventual else Mode (qHeader r ''X-Consistency''))"

definition getKey :: "renv \<Rightarrow> hrequest \<Rightarrow> bytes \<Rightarrow> hresponse option" where
  "getKey env r key = do {
     (en, found, err) \<leftarrow> router_Get env key (header_mode r)
       (ParseInt (qHeader r ''X-Session-Index'')) (ParseInt (qHeader r ''X-Min-Version''));
     Some (case err of
        Some e \<Rightarrow> http_Error [] (ErrorText e) 500
      | None \<Rightarrow>
          if \<not> found then http_Error [] (Plain ''not found'') 404
          else \<lparr>hStatus = 200,
             hHeader = [(''Content-Type'', ''application/octet-stream''), (''X-Version'', FormatInt (Version en))],
             hBody = Octets (Value en)\<rparr>)
   }"

text \<open>\<open>putKey\<close> calls \<open>Body.Read\<close> once, with a buffer of 4 MiB.\<close>

definition first_read :: "bytes list \<Rightarrow> bytes" where
  "first_read chunks = (case chunks of [] \<Rightarrow> [] | c # cs \<Rightarrow> take (4 * 2 ^ 20) c)"

definition putKey ::
  "(command \<Rightarrow> bytes result) \<Rightarrow> 'r raft_apply \<Rightarrow> 'r node \<Rightarrow> hrequest \<Rightarrow> bytes \<Rightarrow> ('r node \<times> hresponse) option" where
  "putKey marshal rapply n r key =
     (if \<not> IsLeader n then Some (n, http_Error [(''X-Leader'', LeaderAddr n)] (Plain ''not leader'') 307)
      else do {
        (b, res) \<leftarrow> Submit_wait marshal rapply (nBatch n)
          \<lparr>cType = CmdPut, cKey = key, cValue = first_read (qBody r), cTTL = ParseInt (unstr (qQuery r ''ttl''))\<rparr>;
        Some (n\<lparr>nBatch := b\<rparr>,
          case brErr res of
            Some e \<Rightarrow> http_Error [] (ErrorText e) 500
          | None \<Rightarrow> \<lparr>hStatus = 200, hHeader = [(''X-Raft-Index'', FormatInt (brVersion res))], hBody = Empty\<rparr>)
      })"

definition deleteKey ::
  "(command \<Rightarrow> bytes result) \<Rightarrow> 'r raft_apply \<Rightarrow> 'r node \<Rightarrow> bytes \<Rightarrow> ('r node \<times> hresponse) option" where
  "deleteKey marshal rapply n key =
     (if \<not> IsLeader n then Some (n, http_Error [(''X-Leader'', LeaderAddr n)] (Plain ''not leader'') 307)
      else do {
        (b, res) \<leftarrow> Submit_wait marshal rapply (nBatch n) \<lparr>cType = CmdDelete, cKey = key, cValue = [], cTTL = 0\<rparr>;
        Some (n\<lparr>nBatch := b\<rparr>,
          case brErr res of
            Some e \<Rightarrow> http_Error [] (ErrorText e) 500
          | None \<Rightarrow> \<lparr>hStatus = 204, hHeader = [(''X-Raft-Index'', FormatInt (brVersion res))], hBody = Empty\<rparr>)
      })"

text \<open>\<open>handleKey\<close> on a path the router has matched, which starts with \<open>/v1/keys/\<close>.\<close>

definition handleKey ::
  "(command \<Rightarrow> bytes result) \<Rightarrow> 'r raft_apply \<Rightarrow> renv \<Rightarrow> 'r node \<Rightarrow> hrequest \<Rightarrow> ('r node \<times> hresponse) option" where
  "handleKey marshal rapply env n r =
     (let key = drop (length keysPath) (qPath r) in
      if key = [] then Some (n, http_Error [] (Plain ''key required'') 400)
      else if qMethod r = ''GET'' then map_option (\<lambda>resp. (n, resp)) (getKey env r key)
      else if qMethod r = ''PUT'' \<or> qMethod r = ''POST'' then putKey marshal rapply n r key
      else if qMethod r = ''DELETE'' then deleteKey marshal rapply n key
      else Some (n, http_Error [] (Plain ''method not allowed'') 405))"

text \<open>\<open>Encode\<close> ends the value with a newline; a map is written with its keys in order. \<open>isnil\<close> tells
  which empty values are nil slices, as in \<open>Codec\<close>.\<close>

definition writeJSON :: "jval \<Rightarrow> hresponse" where
  "writeJSON v = \<lparr>hStatus = 200, hHeader = [(''Content-Type'', ''application/json'')], hBody = Octets (jprint v @ [10])\<rparr>"

definition item_json :: "(entry \<Rightarrow> bool) \<Rightarrow> entry \<Rightarrow> jval" where
  "item_json isnil en = JObj
     [(str ''key'', JStr (Key en)),
      (str ''value'', if Value en = [] \<and> isnil en then JNull else JStr (b64_encode (Value en))),
      (str ''version'', JNum (FormatInt (Version en)))]"

definition handleScan :: "(entry \<Rightarrow> bool) \<Rightarrow> (entry list \<Rightarrow> entry list) \<Rightarrow> engine \<Rightarrow> hrequest \<Rightarrow> hresponse option" where
  "handleScan isnil order e r = do {
     entries \<leftarrow> eng_Scan order e (qQuery r ''prefix'') (sint (ParseInt (unstr (qQuery r ''limit''))));
     Some (writeJSON (JArr (map (item_json isnil) entries)))
   }"

definition handleStatus :: "'r node \<Rightarrow> hresponse" where
  "handleStatus n = writeJSON (JObj (sort_key fst (map (\<lambda>(k, v). (str k, JStr (str v))) (Stats n))))"

definition handleReadyz :: "'r node \<Rightarrow> hresponse" where
  "handleReadyz n = (if nApplied n = 0 then http_Error [] (Plain ''not ready'') 503
     else \<lparr>hStatus = 200, hHeader = [], hBody = Octets (str ''ok'')\<rparr>)"

subsection \<open>What the replies tell\<close>

definition index_header :: "hresponse \<Rightarrow> i64 option" where
  "index_header resp = map_option ParseInt (map_of (hHeader resp) ''X-Raft-Index'')"

definition http_put_cmd :: "hrequest \<times> bytes \<Rightarrow> command" where
  "http_put_cmd = (\<lambda>(r, key). \<lparr>cType = CmdPut, cKey = key, cValue = first_read (qBody r), cTTL = ParseInt (unstr (qQuery r ''ttl''))\<rparr>)"

lemma index_header_simps [simp]:
  "index_header \<lparr>hStatus = c, hHeader = [(''X-Raft-Index'', FormatInt v)], hBody = b\<rparr> = Some v"
  "index_header (http_Error hs msg code) = map_option ParseInt (map_of hs ''X-Raft-Index'')"
  by (simp_all add: index_header_def http_Error_def map_add_def split: option.split)

interpretation http_put: write_endpoint marshal rapply "\<lambda>n. braft (nBatch n)" "\<lambda>n (r, key). putKey marshal rapply n r key" index_header http_put_cmd for marshal rapply
proof
  fix n n' :: "'a node" and q p v
  assume a: "(case q of (r, key) \<Rightarrow> putKey marshal rapply n r key) = Some (n', p)" "index_header p = Some v"
  obtain r key where q: "q = (r, key)" by force
  show "\<exists>b s. brCmd b = http_put_cmd q \<and> propose marshal rapply s b = (braft (nBatch n'), \<lparr>brVersion = v, brErr = None\<rparr>)"
    using batch_reply [of marshal rapply "nBatch n" "http_put_cmd q"] a
    by (fastforce simp: putKey_def http_put_cmd_def q split: if_splits Option.bind_splits option.splits)
qed

interpretation http_delete: write_endpoint marshal rapply "\<lambda>n. braft (nBatch n)" "deleteKey marshal rapply" index_header delete_cmd for marshal rapply
proof
  fix n n' :: "'a node" and q p v
  assume "deleteKey marshal rapply n q = Some (n', p)" "index_header p = Some v"
  then show "\<exists>b s. brCmd b = delete_cmd q \<and> propose marshal rapply s b = (braft (nBatch n'), \<lparr>brVersion = v, brErr = None\<rparr>)"
    using batch_reply [of marshal rapply "nBatch n" "delete_cmd q"]
    by (fastforce simp: deleteKey_def delete_cmd_def split: if_splits Option.bind_splits option.splits)
qed

lemma getKey_reply:
  assumes "getKey env r key = Some resp" "hStatus resp = 200 \<or> hStatus resp = 404"
  shows "\<exists>en found. router_Get env key (header_mode r) (ParseInt (qHeader r ''X-Session-Index''))
      (ParseInt (qHeader r ''X-Min-Version'')) = Some (en, found, None) \<and>
    (found \<longleftrightarrow> hStatus resp = 200) \<and> (found \<longrightarrow> hBody resp = Octets (Value en))"
  using assms by (auto simp: getKey_def http_Error_def split: Option.bind_splits option.splits if_splits)

text \<open>A body that arrives in several pieces, or is longer than the buffer, is stored in part, and the reply
  does not tell: only the first piece counts.\<close>

lemma putKey_first_piece: "putKey marshal rapply n (r\<lparr>qBody := c # cs\<rparr>) key = putKey marshal rapply n (r\<lparr>qBody := [c]\<rparr>) key"
  by (simp add: putKey_def first_read_def)

subsection \<open>What a client reads\<close>

definition item_fields :: "(string \<times> entry setter) list" where
  "item_fields =
     [(''key'', set_string (\<lambda>s e. e\<lparr>Key := s\<rparr>)),
      (''value'', set_bytes (\<lambda>s e. e\<lparr>Value := s\<rparr>)),
      (''version'', set_int64 (\<lambda>i e. e\<lparr>Version := i\<rparr>))]"

definition read_items :: "bytes \<Rightarrow> entry list option" where
  "read_items s = Option.bind (json_value s)
     (\<lambda>v. case v of JNull \<Rightarrow> Some [] | JArr vs \<Rightarrow> those (map (read_struct item_fields zeroEntry) vs) | _ \<Rightarrow> None)"

lemma read_item:
  "read_struct item_fields zeroEntry (jclean (item_json isnil en)) =
   Some (zeroEntry\<lparr>Key := to_valid (Key en), Value := Value en, Version := Version en\<rparr>)"
  by (auto simp: item_json_def read_struct_def read_member_def field_of_def item_fields_def setter_defs str_def zeroEntry_def)

subsection \<open>Properties\<close>

text \<open>C3. Read your writes on the node that took the write, through the REST gateway with the JSON codecs in place.
  A \<open>PUT\<close> of a key that is well-formed UTF-8 is answered with status 200 and an \<open>X-Raft-Index\<close> other
  than 0. From then on, until the node restarts, a \<open>GET\<close> of the key on the same node, in any mode and with
  any session headers, that is answered with 200 or 404 shows the state of the key after a prefix of the committed
  log that contains the write of the first piece of the body at that index. The node is sound (\<open>lsound\<close>) when it reads,
  and no entry is larger than 128 MiB. Raft is assumed to complete a future without an error only when the state
  machine of this node has applied the entry, and to hand over what the state machine returned.\<close>

theorem http_read_your_writes:
  assumes raft: "\<And>s s' d resp. rapply s d = (s', None, resp) \<Longrightarrow> applied_here srt ls (local s') d resp"
    and put: "handleKey cmd_Marshal rapply env0 n q = Some (n', ack)" "qMethod q = ''PUT''" "qPath q = keysPath @ key" "key \<noteq> []"
      "valid_utf8 key" "hStatus ack = 200" "hHeader ack = [(''X-Raft-Index'', idx)]" "ParseInt idx \<noteq> 0"
    and store: "\<And>j. \<exists>n2. (life_work srt ls)\<^sup>*\<^sup>* (local (braft (nBatch n'))) n2 \<and> lsound n2 \<and> rstore env j = lstore n2"
    and srt: "sorts_by_size srt" and small: "\<forall>l\<in>set ls. length (lData l) \<le> 2 ^ 27"
    and get: "handleKey cmd_Marshal rapply env m g = Some (m', reply)" "qMethod g = ''GET''" "qPath g = keysPath @ key"
      "hStatus reply = 200 \<or> hStatus reply = 404"
  shows "\<exists>i l. l \<in> set (take i ls) \<and> lIndex l = ParseInt idx \<and>
    log_op cmd_Unmarshal l = Some (MPut key (first_read (qBody q)) (lIndex l)) \<and>
    (case last_write (log_writes cmd_Unmarshal (take i ls)) key of
       None \<Rightarrow> hStatus reply = 404
     | Some en \<Rightarrow> hStatus reply = 200 \<and> hBody reply = Octets (Value en))"
proof -
  let ?n = "local (braft (nBatch n'))" and ?v = "ParseInt idx"
  have p: "(case (q, key) of (r, key) \<Rightarrow> putKey cmd_Marshal rapply n r key) = Some (n', ack)" using put(1-4) by (simp add: handleKey_def)
  have "index_header ack = Some ?v" using put(7) by (simp add: index_header_def)
  from http_put.answered [OF p this put(8)] obtain s d where d: "cmd_Marshal (http_put_cmd (q, key)) = Inr d"
      "rapply s d = (braft (nBatch n'), None, ApplyResult ?v)"
    by blast
  note here = raft [OF d(2)]
  have "getKey env g key = Some reply" using get(1-3) put(4) by (auto simp: handleKey_def)
  from getKey_reply [OF this get(4)] obtain en found where g: "router_Get env key (header_mode g) (ParseInt (qHeader g ''X-Session-Index''))
      (ParseInt (qHeader g ''X-Min-Version'')) = Some (en, found, None)"
    and r: "found \<longleftrightarrow> hStatus reply = 200" "found \<longrightarrow> hBody reply = Octets (Value en)"
    by blast
  obtain j where j: "eng_Get (rstore env j) key = Some (en, found)" using router_Get_poll [OF g] by blast
  obtain n2 where n2: "(life_work srt ls)\<^sup>*\<^sup>* ?n n2" "lsound n2" "eng_Get (lstore n2) key = Some (en, found)" using store [of j] j by auto
  obtain i l where l: "l \<in> set (take i ls)" "lIndex l = ?v" "lData l = d" "log_op cmd_Unmarshal l \<noteq> None"
      "case last_write (log_writes cmd_Unmarshal (take i ls)) key of None \<Rightarrow> \<not> found | Some x \<Rightarrow> found \<and> en = x"
    using read_after_apply [OF here n2(1,2) srt small n2(3)] by blast
  have "cmd_Unmarshal d = Some (http_put_cmd (q, key))"
    using cmd_roundtrip [OF d(1)] put(5) by (simp add: valid_utf8_def http_put_cmd_def)
  then have "log_op cmd_Unmarshal l = Some (MPut key (first_read (qBody q)) (lIndex l))"
    using l(3,4) by (auto simp: log_op_def http_put_cmd_def split: if_splits)
  then show ?thesis using l(1,2,5) r get(4) by (intro exI [of _ i] exI [of _ l]) (auto split: option.splits)
qed

text \<open>A leader with an empty batch writer, and a Raft that commits one command at index 3. The state of Raft
  counts the entries that the node has applied.\<close>

definition demo_raft :: "nat raft_apply" where
  "demo_raft s d = (if d = jprint (cmd_json demo_cmd) then (1, None, ApplyResult 3) else (s, Some (OSError 0), RNil))"

definition demo_config :: Config where
  "demo_config = \<lparr>cfNode = \<lparr>ncID = ''n1'', ncAddr = ''''\<rparr>,
     cfRaft = \<lparr>rcAddr = '''', rcDataDir = '''', rcBootstrapCluster = True, rcPeers = [], rcHeartbeatTimeout = 0,
       rcElectionTimeout = 0, rcSnapshotThreshold = 0\<rparr>,
     cfStorage = \<lparr>scDataDir = '''', scMemtableSizeMB = 1, scCompactionSecs = 30\<rparr>,
     cfGRPC = \<lparr>gcAddr = '''', gcTLS = \<lparr>tcEnabled = False, tcCertFile = '''', tcKeyFile = '''', tcCAFile = ''''\<rparr>\<rparr>,
     cfHTTP = '''', cfMetrics = ''''\<rparr>"

definition demo_node :: "nat node" where
  "demo_node = \<lparr>nID = ''n1'', nState = Leader, nLeader = '''', nApplied = 3, nStats = [], nServers = [],
     nFSM = NewFSM (fresh_engine (\<lambda>_. None) []) NewHub, nBatch = NewBatchWriter 0, nConfig = demo_config\<rparr>"

definition demo_request :: "string \<Rightarrow> (string \<Rightarrow> string) \<Rightarrow> hrequest" where
  "demo_request m header = \<lparr>qMethod = m, qPath = keysPath @ [1], qHeader = header, qQuery = \<lambda>_. [], qBody = [[2]]\<rparr>"

lemma demo_submit:
  "\<exists>b. Submit_wait cmd_Marshal demo_raft (NewBatchWriter 0) demo_cmd = Some (b, \<lparr>brVersion = 3, brErr = None\<rparr>) \<and> braft b = 1"
proof -
  obtain b res where b: "Submit_wait cmd_Marshal demo_raft (NewBatchWriter 0) demo_cmd = Some (b, res)"
    using Submit_wait_returns [of "NewBatchWriter 0" cmd_Marshal demo_raft demo_cmd] by (auto simp: NewBatchWriter_def batchMaxSize_def)
  then obtain q r where "brCmd q = demo_cmd" "propose cmd_Marshal demo_raft r q = (braft b, res)" using Submit_wait_answer [OF b] by blast
  then have "res = \<lparr>brVersion = 3, brErr = None\<rparr>" "braft b = 1" by (auto simp: propose_def cmd_Marshal_def demo_raft_def)
  with b show ?thesis by blast
qed

lemma put_acknowledged:
  "\<exists>n'. handleKey cmd_Marshal demo_raft env demo_node (demo_request ''PUT'' header) =
     Some (n', \<lparr>hStatus = 200, hHeader = [(''X-Raft-Index'', FormatInt 3)], hBody = Empty\<rparr>) \<and> braft (nBatch n') = 1"
proof -
  have cmd: "\<lparr>cType = CmdPut, cKey = [1], cValue = first_read [[2]], cTTL = ParseInt (unstr [])\<rparr> = demo_cmd"
    by (simp add: demo_cmd_def first_read_def unstr_def ParseInt_def parse_int_def)
  then show ?thesis using demo_submit by (auto simp: handleKey_def demo_request_def putKey_def demo_node_def IsLeader_def)
qed

text \<open>The node once it has applied the command.\<close>

lemma demo_applied:
  "\<exists>n. node_life (sort_key snd) [json_entry demo_cmd] n \<and> lsound n \<and> lpos n = 1 \<and> rlog (lrep n) = [json_entry demo_cmd] \<and>
     applied_here (sort_key snd) [json_entry demo_cmd] n (jprint (cmd_json demo_cmd)) (ApplyResult 3) \<and>
     (\<exists>en b. eng_Get (lstore n) [1] = Some (en, b))"
proof -
  let ?l = "json_entry demo_cmd" and ?srt = "sort_key snd :: size_sort"
  obtain n where n: "node_life ?srt [?l] n" "rlog (lrep n) = [?l]" "rresp (lrep n) = [ApplyResult (lIndex ?l)]" "lsound n" "lpos n = 1"
    using demo_life [OF demo_json(1), of ?srt] by blast
  then have "applied_here ?srt [?l] n (jprint (cmd_json demo_cmd)) (ApplyResult 3)" by (simp add: applied_here_def json_entry_def)
  moreover have "eng_wf (lstore n)" using life_wf [OF node_life_inv [OF n(1) sort_by_size] n(4)] demo_json(2) by simp
  ultimately show ?thesis using n eng.get_law by blast
qed

lemma demo_last_write:
  assumes "l \<in> set (take i [json_entry demo_cmd])"
  shows "last_write (log_writes cmd_Unmarshal (take i [json_entry demo_cmd])) [1] = Some (live [1] [2] 3)"
proof -
  have "take i [json_entry demo_cmd] = [json_entry demo_cmd]" using assms by (cases i) auto
  then show ?thesis by (simp add: demo_json(1))
qed

theorem http_read_your_writes_witness:
  "\<exists>n n1 n2 ack reply. handleKey cmd_Marshal demo_raft (poll_env 0 (lstore n)) demo_node (demo_request ''PUT'' (\<lambda>_. '''')) = Some (n1, ack) \<and>
     hHeader ack = [(''X-Raft-Index'', FormatInt 3)] \<and> lsound n \<and>
     handleKey cmd_Marshal demo_raft (poll_env 0 (lstore n)) n1 (demo_request ''GET'' (\<lambda>_. '''')) = Some (n2, reply) \<and>
     hStatus reply = 200 \<and> hBody reply = Octets [2]"
proof -
  let ?srt = "sort_key snd :: size_sort" and ?l = "json_entry demo_cmd"
  obtain n en b where n: "lsound n" "applied_here ?srt [?l] n (jprint (cmd_json demo_cmd)) (ApplyResult 3)" "eng_Get (lstore n) [1] = Some (en, b)"
    using demo_applied by blast
  let ?env = "poll_env 0 (lstore n)" and ?local = "\<lambda>s::nat. n"
  obtain n1 ack where ack: "handleKey cmd_Marshal demo_raft ?env demo_node (demo_request ''PUT'' (\<lambda>_. '''')) = Some (n1, ack)"
      "hStatus ack = 200" "hHeader ack = [(''X-Raft-Index'', FormatInt 3)]"
    using put_acknowledged [of ?env "\<lambda>_. ''''"] by auto
  obtain reply where reply: "handleKey cmd_Marshal demo_raft ?env n1 (demo_request ''GET'' (\<lambda>_. '''')) = Some (n1, reply)"
      "hStatus reply = 200 \<or> hStatus reply = 404"
    using n(3) by (cases b) (auto simp: handleKey_def demo_request_def getKey_def header_mode_def router_Get_def http_Error_def)
  have raft: "applied_here ?srt [?l] (?local s') d resp" if "demo_raft s d = (s', None, resp)" for s s' d resp
    using that n(2) by (auto simp: demo_raft_def split: if_splits)
  have valid: "valid_utf8 [1]" by (rule valid_utf8_ascii) simp
  have store: "\<exists>n2. (life_work ?srt [?l])\<^sup>*\<^sup>* (?local (braft (nBatch n1))) n2 \<and> lsound n2 \<and> rstore ?env j = lstore n2" for j
    using n(1) by auto
  have small: "\<forall>l\<in>set [?l]. length (lData l) \<le> 2 ^ 27" using demo_json(2) by simp
  have idx: "ParseInt (FormatInt 3) \<noteq> 0" by simp
  obtain i l where i: "l \<in> set (take i [?l])" "case last_write (log_writes cmd_Unmarshal (take i [?l])) [1] of
      None \<Rightarrow> hStatus reply = 404 | Some en \<Rightarrow> hStatus reply = 200 \<and> hBody reply = Octets (Value en)"
    using http_read_your_writes [where local = ?local, OF raft ack(1) _ _ _ valid ack(2,3) idx store sort_by_size small reply(1) _ _ reply(2)]
    by (fastforce simp: demo_request_def)
  have "hStatus reply = 200" "hBody reply = Octets [2]" using i(2) unfolding demo_last_write [OF i(1)] by (simp_all add: live_def)
  then show ?thesis using ack reply(1) n(1) by blast
qed

text \<open>C30. What a client reads from the body of a \<open>/v1/scan\<close> reply is the list of entries of the engine's
  \<open>Scan\<close>, in its order, with every value and version, and the keys made well-formed.\<close>

theorem scan_reply_reads_back:
  assumes "handleScan isnil order e r = Some resp" "hBody resp = Octets body"
  shows "\<exists>es. eng_Scan order e (qQuery r ''prefix'') (sint (ParseInt (unstr (qQuery r ''limit'')))) = Some es \<and>
    read_items body = Some (map (\<lambda>en. zeroEntry\<lparr>Key := to_valid (Key en), Value := Value en, Version := Version en\<rparr>) es)"
proof -
  obtain es where es: "eng_Scan order e (qQuery r ''prefix'') (sint (ParseInt (unstr (qQuery r ''limit'')))) = Some es"
      "body = jprint (JArr (map (item_json isnil) es)) @ [10]"
    using assms by (auto simp: handleScan_def writeJSON_def split: Option.bind_splits)
  have "read_items body = those (map (read_struct item_fields zeroEntry \<circ> jclean \<circ> item_json isnil) es)"
    using json_value_line [of "JArr (map (item_json isnil) es)"] es(2) by (auto simp: read_items_def item_json_def comp_def)
  moreover have "those (map (read_struct item_fields zeroEntry \<circ> jclean \<circ> item_json isnil) es) =
      Some (map (\<lambda>en. zeroEntry\<lparr>Key := to_valid (Key en), Value := Value en, Version := Version en\<rparr>) es)"
    by (induction es) (simp_all add: read_item)
  ultimately show ?thesis using es(1) by simp
qed

theorem scan_reply_reads_back_witness:
  "\<exists>resp body es. handleScan (\<lambda>_. True) rev (fresh_engine (\<lambda>_. None) []) (demo_request ''GET'' (\<lambda>_. '''')) = Some resp \<and>
     hBody resp = Octets body \<and> read_items body = Some es"
proof -
  have "eng_ok (fresh_engine (\<lambda>_. None) []) (\<lambda>_. [])" using fresh_engine_ok [of "[]"] by simp
  then obtain es where "eng_Scan rev (fresh_engine (\<lambda>_. None) []) [] 0 = Some es"
    using eng_Scan_members [OF _ permutes_rev, of "fresh_engine (\<lambda>_. None) []" "\<lambda>_. []" "[]" 0] by auto
  then obtain resp body where r: "handleScan (\<lambda>_. True) rev (fresh_engine (\<lambda>_. None) []) (demo_request ''GET'' (\<lambda>_. '''')) = Some resp"
      "hBody resp = Octets body"
    by (simp add: handleScan_def demo_request_def writeJSON_def unstr_def ParseInt_def parse_int_def)
  show ?thesis using scan_reply_reads_back [OF r] r by blast
qed

text \<open>A node that does not lead refuses every write and stays as it is: \<open>PUT\<close>, \<open>POST\<close> and
  \<open>DELETE\<close> are answered with 307 and the leader's address, the gRPC calls with \<open>Unavailable\<close>
  and that address.\<close>

theorem follower_refuses_writes:
  assumes "\<not> IsLeader n" "qMethod r \<in> {''PUT'', ''POST'', ''DELETE''}" "drop (length keysPath) (qPath r) = key" "key \<noteq> []"
  shows "handleKey marshal rapply env n r = Some (n, http_Error [(''X-Leader'', LeaderAddr n)] (Plain ''not leader'') 307) \<and>
    grpc_Put marshal rapply n \<lparr>prKey = key, prValue = v, prTtlSeconds = ttl\<rparr> = Some (n, Inl (Unavailable, NotLeaderContact (LeaderAddr n))) \<and>
    grpc_Delete marshal rapply n key = Some (n, Inl (Unavailable, NotLeaderContact (LeaderAddr n)))"
  using assms by (auto simp: handleKey_def putKey_def deleteKey_def grpc_Put_def grpc_Delete_def Let_def)

theorem follower_refuses_writes_witness:
  "\<forall>env. \<exists>resp. handleKey cmd_Marshal demo_raft env (demo_node\<lparr>nState := Follower\<rparr>) (demo_request ''PUT'' (\<lambda>_. '''')) =
     Some (demo_node\<lparr>nState := Follower\<rparr>, resp) \<and> hStatus resp = 307"
proof
  fix env
  have "\<not> IsLeader (demo_node\<lparr>nState := Follower\<rparr>)" "drop (length keysPath) (qPath (demo_request ''PUT'' (\<lambda>_. ''''))) = [1]"
    by (simp_all add: IsLeader_def demo_request_def)
  from follower_refuses_writes [OF this(1) _ this(2), of cmd_Marshal demo_raft env]
  show "\<exists>resp. handleKey cmd_Marshal demo_raft env (demo_node\<lparr>nState := Follower\<rparr>) (demo_request ''PUT'' (\<lambda>_. '''')) =
     Some (demo_node\<lparr>nState := Follower\<rparr>, resp) \<and> hStatus resp = 307"
    by (auto simp: demo_request_def http_Error_def)
qed

end
