(* ===== verification/Membership.thy ===== *)
theory Membership
  imports Codec
begin

text \<open>
  \<open>internal/membership/memberlist.go\<close>: gossip membership. The memberlist library is a parameter: \<open>create\<close>,
  \<open>join\<close>, \<open>leave\<close> and \<open>shutdown\<close> act on its state, and \<open>members\<close> gives the metadata of the live
  nodes. A node advertises its ids and addresses as JSON; \<open>Members\<close> decodes what the others advertise.
  memberlist asks the delegate for the metadata with a limit on its size and panics when the answer is longer; a
  panic of \<open>create\<close> is \<open>None\<close>.
\<close>

record nodeMeta =
  nmNodeID :: bytes
  nmRaftAddr :: bytes
  nmGRPCAddr :: bytes

definition meta_json :: "nodeMeta \<Rightarrow> jval" where
  "meta_json m = JObj [(str ''id'', JStr (nmNodeID m)), (str ''raft'', JStr (nmRaftAddr m)), (str ''grpc'', JStr (nmGRPCAddr m))]"

definition meta_Marshal :: "nodeMeta \<Rightarrow> bytes" where
  "meta_Marshal m = jprint (meta_json m)"

definition meta_fields :: "(string \<times> nodeMeta setter) list" where
  "meta_fields =
     [(''id'', set_string (\<lambda>s m. m\<lparr>nmNodeID := s\<rparr>)),
      (''raft'', set_string (\<lambda>s m. m\<lparr>nmRaftAddr := s\<rparr>)),
      (''grpc'', set_string (\<lambda>s m. m\<lparr>nmGRPCAddr := s\<rparr>))]"

definition meta_Unmarshal :: "bytes \<Rightarrow> nodeMeta option" where
  "meta_Unmarshal s = Option.bind (json_value s) (read_struct meta_fields \<lparr>nmNodeID = [], nmRaftAddr = [], nmGRPCAddr = []\<rparr>)"

subsection \<open>Addresses\<close>

text \<open>\<open>net.SplitHostPort\<close>: the port starts behind the last colon; a host with colons is in brackets.\<close>

datatype addrError = MissingPort | TooManyColons | MissingBracket | UnexpectedOpen | UnexpectedClose

definition index_byte :: "char \<Rightarrow> string \<Rightarrow> nat option" where
  "index_byte c s = (if c \<in> set s then Some (length (takeWhile (\<lambda>x. x \<noteq> c) s)) else None)"

definition last_index :: "char \<Rightarrow> string \<Rightarrow> nat option" where
  "last_index c s = map_option (\<lambda>i. length s - 1 - i) (index_byte c (rev s))"

text \<open>The checks on stray brackets, and the result; \<open>j\<close> and \<open>k\<close> are where the scans start.\<close>

definition split_at :: "string \<Rightarrow> string \<Rightarrow> nat \<Rightarrow> nat \<Rightarrow> nat \<Rightarrow> addrError + string \<times> string" where
  "split_at hostport host i j k =
     (if CHR ''['' \<in> set (drop j hostport) then Inl UnexpectedOpen
      else if CHR '']'' \<in> set (drop k hostport) then Inl UnexpectedClose
      else Inr (host, drop (i + 1) hostport))"

definition SplitHostPort :: "string \<Rightarrow> addrError + string \<times> string" where
  "SplitHostPort hostport =
     (case last_index (CHR '':'') hostport of
        None \<Rightarrow> Inl MissingPort
      | Some i \<Rightarrow>
          if hd hostport = CHR ''['' then
            (case index_byte (CHR '']'') hostport of
               None \<Rightarrow> Inl MissingBracket
             | Some e \<Rightarrow>
                 if e + 1 = length hostport then Inl MissingPort
                 else if e + 1 = i then split_at hostport (take (e - 1) (drop 1 hostport)) i 1 (e + 1)
                 else if hostport ! (e + 1) = CHR '':'' then Inl TooManyColons else Inl MissingPort)
          else if CHR '':'' \<in> set (take i hostport) then Inl TooManyColons
          else split_at hostport (take i hostport) i 0 0)"

subsection \<open>The cluster\<close>

record mlConfig =
  mcName :: string
  mcBindAddr :: string
  mcBindPort :: int
  mcAdvertiseAddr :: string
  mcAdvertisePort :: int
  mcNodeMeta :: "int \<Rightarrow> bytes"

record 'm cluster =
  clList :: 'm
  clMeta :: nodeMeta

datatype join_error = InvalidGossipAddr addrError | CreateFailed goerror

definition delegate_NodeMeta :: "bytes \<Rightarrow> int \<Rightarrow> bytes" where
  "delegate_NodeMeta m limit = m"

text \<open>An error of \<open>list.Join\<close> is logged only; the port is 0 when it is no number.\<close>

definition cluster_Join ::
  "(mlConfig \<Rightarrow> 'm result option) \<Rightarrow> ('m \<Rightarrow> string list \<Rightarrow> 'm \<times> nat \<times> goerror option) \<Rightarrow>
   string \<Rightarrow> string \<Rightarrow> string \<Rightarrow> string \<Rightarrow> string list \<Rightarrow> (join_error + 'm cluster) option" where
  "cluster_Join create join nodeID gossipAddr raftAddr grpcAddr seeds =
     (case SplitHostPort gossipAddr of
        Inl e \<Rightarrow> Some (Inl (InvalidGossipAddr e))
      | Inr (host, portStr) \<Rightarrow>
          let port = sint (ParseInt portStr);
              m = \<lparr>nmNodeID = str nodeID, nmRaftAddr = str raftAddr, nmGRPCAddr = str grpcAddr\<rparr>;
              cfg = \<lparr>mcName = nodeID, mcBindAddr = host, mcBindPort = port, mcAdvertiseAddr = host, mcAdvertisePort = port,
                mcNodeMeta = delegate_NodeMeta (meta_Marshal m)\<rparr>
          in (case create cfg of
                None \<Rightarrow> None
              | Some (Inl e) \<Rightarrow> Some (Inl (CreateFailed e))
              | Some (Inr l) \<Rightarrow> Some (Inr \<lparr>clList = (if seeds \<noteq> [] then fst (join l seeds) else l), clMeta = m\<rparr>)))"

definition cluster_Members :: "('m \<Rightarrow> bytes list) \<Rightarrow> 'm cluster \<Rightarrow> nodeMeta list" where
  "cluster_Members members c =
     foldl (\<lambda>out m. case meta_Unmarshal m of Some nm \<Rightarrow> out @ [nm] | None \<Rightarrow> out) [] (members (clList c))"

definition cluster_Leave ::
  "('m \<Rightarrow> 'm \<times> goerror option) \<Rightarrow> ('m \<Rightarrow> 'm \<times> goerror option) \<Rightarrow> 'm cluster \<Rightarrow> 'm cluster \<times> goerror option" where
  "cluster_Leave leave shutdown c =
     (case leave (clList c) of
        (l, Some e) \<Rightarrow> (c\<lparr>clList := l\<rparr>, Some e)
      | (l, None) \<Rightarrow> (case shutdown l of (l', err) \<Rightarrow> (c\<lparr>clList := l'\<rparr>, err)))"

subsection \<open>Lemmas\<close>

lemma cluster_Members_eq: "cluster_Members members c = List.map_filter meta_Unmarshal (members (clList c))"
proof -
  have "foldl (\<lambda>out m. case meta_Unmarshal m of Some nm \<Rightarrow> out @ [nm] | None \<Rightarrow> out) acc ms = acc @ List.map_filter meta_Unmarshal ms" for acc ms
    by (induction ms arbitrary: acc) (auto simp: map_filter_simps split: option.splits)
  then show ?thesis by (simp add: cluster_Members_def)
qed

definition meta_clean :: "nodeMeta \<Rightarrow> nodeMeta" where
  "meta_clean m = \<lparr>nmNodeID = to_valid (nmNodeID m), nmRaftAddr = to_valid (nmRaftAddr m), nmGRPCAddr = to_valid (nmGRPCAddr m)\<rparr>"

lemma meta_roundtrip: "meta_Unmarshal (meta_Marshal m) = Some (meta_clean m)"
proof -
  have "json_value (jprint (meta_json m)) = Some (jclean (meta_json m))" by (rule json_value_jprint) (simp add: meta_json_def)
  moreover have "read_struct meta_fields \<lparr>nmNodeID = [], nmRaftAddr = [], nmGRPCAddr = []\<rparr> (jclean (meta_json m)) = Some (meta_clean m)"
    by (simp add: meta_json_def read_struct_def read_member_def field_of_def meta_fields_def setter_defs str_def meta_clean_def)
  ultimately show ?thesis by (simp add: meta_Unmarshal_def meta_Marshal_def)
qed

text \<open>A plain host and port are split at the colon.\<close>

lemma index_byte_append: "c \<notin> set h \<Longrightarrow> index_byte c (h @ c # p) = Some (length h)"
  by (induction h) (auto simp: index_byte_def)

lemma SplitHostPort_plain:
  assumes "\<forall>c\<in>set h \<union> set p. c \<notin> {CHR '':'', CHR ''['', CHR '']''}"
  shows "SplitHostPort (h @ CHR '':'' # p) = Inr (h, p)"
proof -
  have "CHR '':'' \<notin> set (rev p)" using assms by auto
  then have "index_byte (CHR '':'') (rev p @ CHR '':'' # rev h) = Some (length p)" using index_byte_append [of "CHR '':''" "rev p"] by simp
  then have i: "last_index (CHR '':'') (h @ CHR '':'' # p) = Some (length h)" by (simp add: last_index_def)
  have "hd (h @ CHR '':'' # p) \<noteq> CHR ''[''" using assms by (cases h) auto
  then show ?thesis using i assms by (auto simp: SplitHostPort_def split_at_def)
qed

subsection \<open>Properties\<close>

text \<open>C32. What a node advertises is what the others list. A node that has joined with a plain \<open>host:port\<close>
  address created its memberlist under its id, bound to and advertising that host and that port, and joined the seeds,
  if there were any. Whatever limit its delegate is asked with, the bytes it hands to memberlist are such that
  \<open>Members\<close> on any node whose memberlist reports them, now or later, lists the node in its place, with the id and the
  addresses it was given (made well-formed UTF-8). Nothing is assumed of memberlist.\<close>

theorem joined_node_is_member:
  assumes "cluster_Join create join i (h @ CHR '':'' # p) ra ga seeds = Some (Inr c)"
    "\<forall>x\<in>set h \<union> set p. x \<notin> {CHR '':'', CHR ''['', CHR '']''}"
  shows "\<exists>cfg l. create cfg = Some (Inr l) \<and> clList c = (if seeds = [] then l else fst (join l seeds)) \<and>
    mcName cfg = i \<and> mcBindAddr cfg = h \<and> mcBindPort cfg = sint (ParseInt p) \<and>
    mcAdvertiseAddr cfg = h \<and> mcAdvertisePort cfg = sint (ParseInt p) \<and>
    (\<forall>limit members (c' :: 'b cluster) pre post. members (clList c') = pre @ mcNodeMeta cfg limit # post \<longrightarrow>
       cluster_Members members c' = cluster_Members (\<lambda>_. pre) c' @
         meta_clean \<lparr>nmNodeID = str i, nmRaftAddr = str ra, nmGRPCAddr = str ga\<rparr> # cluster_Members (\<lambda>_. post) c')"
proof -
  let ?m = "\<lparr>nmNodeID = str i, nmRaftAddr = str ra, nmGRPCAddr = str ga\<rparr>"
  let ?cfg = "\<lparr>mcName = i, mcBindAddr = h, mcBindPort = sint (ParseInt p), mcAdvertiseAddr = h, mcAdvertisePort = sint (ParseInt p),
    mcNodeMeta = delegate_NodeMeta (meta_Marshal ?m)\<rparr>"
  obtain l where l: "create ?cfg = Some (Inr l)" "clList c = (if seeds \<noteq> [] then fst (join l seeds) else l)"
    using assms(1) by (auto simp: cluster_Join_def SplitHostPort_plain [OF assms(2)] Let_def split: option.splits sum.splits)
  have "cluster_Members members c' = cluster_Members (\<lambda>_. pre) c' @ meta_clean ?m # cluster_Members (\<lambda>_. post) c'"
    if "members (clList c') = pre @ mcNodeMeta ?cfg limit # post" for limit members pre post and c' :: "'b cluster"
    using that by (simp add: cluster_Members_eq List.map_filter_def delegate_NodeMeta_def meta_roundtrip)
  then show ?thesis using l by (intro exI [of _ ?cfg] exI [of _ l]) simp
qed

definition demo_meta :: nodeMeta where
  "demo_meta = \<lparr>nmNodeID = str ''n0'', nmRaftAddr = [], nmGRPCAddr = []\<rparr>"

theorem joined_node_is_member_witness:
  "\<exists>c. cluster_Join (\<lambda>cfg. Some (Inr [mcNodeMeta cfg 512])) (\<lambda>l ss. (meta_Marshal demo_meta # l, 1, None))
       ''n1'' ''10.0.0.1:7000'' ''r'' ''g'' [''s''] = Some (Inr c) \<and>
     cluster_Members (\<lambda>l. l) c = [meta_clean demo_meta, meta_clean \<lparr>nmNodeID = str ''n1'', nmRaftAddr = str ''r'', nmGRPCAddr = str ''g''\<rparr>]"
proof -
  let ?create = "\<lambda>cfg :: mlConfig. Some (Inr [mcNodeMeta cfg 512]) :: bytes list result option"
  let ?join = "\<lambda>(l :: bytes list) (ss :: string list). (meta_Marshal demo_meta # l, 1 :: nat, None :: goerror option)"
  let ?n1 = "meta_clean \<lparr>nmNodeID = str ''n1'', nmRaftAddr = str ''r'', nmGRPCAddr = str ''g''\<rparr>"
  have plain: "\<forall>x\<in>set ''10.0.0.1'' \<union> set ''7000''. x \<notin> {CHR '':'', CHR ''['', CHR '']''}" by simp
  obtain c where c: "cluster_Join ?create ?join ''n1'' (''10.0.0.1'' @ CHR '':'' # ''7000'') ''r'' ''g'' [''s''] = Some (Inr c)"
    by (simp add: cluster_Join_def SplitHostPort_plain [OF plain, simplified] Let_def)
  obtain cfg l where cfg: "?create cfg = Some (Inr l)" "clList c = (if [''s''] = [] then l else fst (?join l [''s'']))"
      "\<forall>limit members (c' :: bytes list cluster) pre post. members (clList c') = pre @ mcNodeMeta cfg limit # post \<longrightarrow>
         cluster_Members members c' = cluster_Members (\<lambda>_. pre) c' @ ?n1 # cluster_Members (\<lambda>_. post) c'"
    using joined_node_is_member [OF c plain, where 'b = "bytes list"] by (elim exE conjE) (rule that)
  have "cluster_Members (\<lambda>l. l) c = cluster_Members (\<lambda>_. [meta_Marshal demo_meta]) c @ ?n1 # cluster_Members (\<lambda>_. []) c"
    using cfg by (intro cfg(3) [rule_format, of "\<lambda>l. l" c "[meta_Marshal demo_meta]" 512 "[]"]) auto
  then have "cluster_Members (\<lambda>l. l) c = [meta_clean demo_meta, ?n1]"
    by (simp add: cluster_Members_eq map_filter_simps meta_roundtrip)
  then show ?thesis using c by auto
qed

text \<open>The delegate does not look at the limit it is given: with ids or addresses that make the metadata longer than
  memberlist allows, \<open>Join\<close> panics.\<close>

lemma long_meta_panics:
  assumes "\<And>cfg. limit < length (mcNodeMeta cfg (int limit)) \<Longrightarrow> create cfg = None" "SplitHostPort addr = Inr hp"
    "limit < length (meta_Marshal \<lparr>nmNodeID = str i, nmRaftAddr = str ra, nmGRPCAddr = str ga\<rparr>)"
  shows "cluster_Join create join i addr ra ga seeds = None"
  using assms by (cases hp) (simp add: cluster_Join_def Let_def delegate_NodeMeta_def)

end
