(* ===== verification/Server.thy ===== *)
theory Server
  imports Http Membership
begin

text \<open>
  \<open>cmd/server/main.go\<close>: starting and stopping a node. \<open>server_start\<close> goes through the steps of
  \<open>main\<close> in their order: the configuration, the store, the hub, the Raft node, the gossip ring. An
  \<open>Inl\<close> is the step whose error ends the process (\<open>log.Fatal\<close> runs no deferred call); a failure to
  join the ring is logged only. The servers it then starts in goroutines, with their addresses, are
  \<open>ssServing\<close>; their handlers are in \<open>Grpc\<close> and \<open>Http\<close>.
  \<open>server_stop\<close> is what the deferred calls do after the signal: the node first, then the store.
  \<open>disk\<close> gives what a directory holds, and the outcomes of opening and writing the log in it.
\<close>

type_synonym disk = "string \<Rightarrow> goerror option \<times> nat option list \<times> bytes option \<times> fs"

datatype fatal = LoadFailed goerror | OpenFailed goerror | NodeFailed "string \<times> goerror"

record ('r, 'm) server_state =
  ssStore :: engine
  ssHub :: hub
  ssNode :: "'r node"
  ssCluster :: "(join_error + 'm cluster) option"
  ssServing :: "(string \<times> string) list"

definition cfg_path :: "string list \<Rightarrow> string" where
  "cfg_path args = (if length args > 1 then args ! 1 else ''config.yaml'')"

definition gossip_seeds :: "Config \<Rightarrow> string list" where
  "gossip_seeds cfg = foldl (\<lambda>seeds p. seeds @ [pcAddr p]) [] (rcPeers (cfRaft cfg))"

definition server_start ::
  "viper \<Rightarrow> string list \<Rightarrow> (nat \<Rightarrow> rng) \<Rightarrow> disk \<Rightarrow>
   (string \<Rightarrow> goerror option) \<Rightarrow> (raftSettings \<Rightarrow> fsm \<Rightarrow> 'r) \<Rightarrow> ('r \<Rightarrow> server list \<Rightarrow> 'r \<times> bootOutcome) \<Rightarrow> ('r \<Rightarrow> raftView) \<Rightarrow> string \<Rightarrow>
   (mlConfig \<Rightarrow> 'm result option) \<Rightarrow> ('m \<Rightarrow> string list \<Rightarrow> 'm \<times> nat \<times> goerror option) \<Rightarrow> (fatal + ('r, 'm) server_state) option" where
  "server_start v args draws disk calls raft boot see localAddr create join = do {
     loaded \<leftarrow> Load v (cfg_path args);
     (case loaded of
        Inl e \<Rightarrow> Some (Inl (LoadFailed e))
      | Inr cfg \<Rightarrow>
          (case disk (scDataDir (cfStorage cfg)) of (openErr, script, file, tabs) \<Rightarrow> do {
             opened \<leftarrow> eng_Open wal_Unmarshal draws openErr script file tabs (scMemtableSizeMB (cfStorage cfg));
             (case opened of
                Inl e \<Rightarrow> Some (Inl (OpenFailed e))
              | Inr store \<Rightarrow>
                  let hub = NewHub in
                  (case NewNode calls raft boot see localAddr cfg store hub of
                     Inl e \<Rightarrow> Some (Inl (NodeFailed e))
                   | Inr n \<Rightarrow> do {
                       ring \<leftarrow> (if ncAddr (cfNode cfg) \<noteq> ''''
                         then map_option Some (cluster_Join create join (ncID (cfNode cfg)) (ncAddr (cfNode cfg)) (rcAddr (cfRaft cfg))
                           (gcAddr (cfGRPC cfg)) (gossip_seeds cfg))
                         else Some None);
                       Some (Inr \<lparr>ssStore = store, ssHub = hub, ssNode = n, ssCluster = ring,
                       ssServing = [(''metrics'', cfMetrics cfg), (''http'', cfHTTP cfg), (''grpc'', gcAddr (cfGRPC cfg))]\<rparr>) }))
           }))
   }"

definition server_stop ::
  "(command \<Rightarrow> bytes result) \<Rightarrow> 'r raft_apply \<Rightarrow> goerror option \<Rightarrow> io \<Rightarrow> i64 \<Rightarrow> ('r, 'm) server_state \<Rightarrow> ('r, 'm) server_state option" where
  "server_stop marshal rapply rerr io now s = do {
     (n, _) \<leftarrow> node_Shutdown marshal rapply rerr (ssNode s);
     (e, _) \<leftarrow> eng_Close io now (ssStore s);
     Some (s\<lparr>ssNode := n, ssStore := e\<rparr>)
   }"

subsection \<open>Starting\<close>

lemma gossip_seeds_eq: "gossip_seeds cfg = map pcAddr (rcPeers (cfRaft cfg))"
proof -
  have "foldl (\<lambda>seeds p. seeds @ [pcAddr p]) ss ps = ss @ map pcAddr ps" for ss and ps :: "peerConfig list"
    by (induction ps arbitrary: ss) auto
  then show ?thesis by (simp add: gossip_seeds_def)
qed

lemma server_start_store:
  assumes "server_start v args draws disk calls raft boot see addr create join = Some (Inr s)"
  shows "\<exists>cfg openErr script file tabs. Load v (cfg_path args) = Some (Inr cfg) \<and>
    disk (scDataDir (cfStorage cfg)) = (openErr, script, file, tabs) \<and>
    eng_Open wal_Unmarshal draws openErr script file tabs (scMemtableSizeMB (cfStorage cfg)) = Some (Inr (ssStore s)) \<and>
    nFSM (ssNode s) = NewFSM (ssStore s) (ssHub s) \<and> ssHub s = NewHub"
  using assms by (auto simp: server_start_def NewNode_def Let_def split: Option.bind_splits sum.splits prod.splits option.splits bootOutcome.splits)

subsection \<open>Stopping\<close>

lemma flush_keeps_wal: "eng_flush io now e = Some (e', err) \<Longrightarrow> ewal e' = ewal e"
  by (auto simp: eng_flush_def flush_begin_def flush_write_def flush_clear_def Let_def
      split: if_splits Option.bind_splits option.splits prod.splits)

lemma pop_fields: "pop f = (r, f') \<Longrightarrow> fdata f' = fdata f \<and> fsynced f' = fsynced f"
  using pop_simps [of f] by simp

lemma close_crash:
  assumes "wal_at w f" "wal_Close_begin w = Some w1" "wal_Close_finish (loop_take w1) = (w2, err)" "c \<in> wal_crash w2"
  shows "c = f"
proof -
  have w: "berr (bw w) = None" "bbuf (bw w) = []" "fdata (bfile (bw w)) = f" "fsynced (bfile (bw w)) = length f"
    using assms(1) by (auto simp: wal_at_def stored_def accepted_def durable_def)
  obtain b e where s: "bw_Sync (bw w) = (b, e)" by force
  have b: "fdata (bfile b) = f" "fsynced (bfile b) = length f"
    using s w by (auto simp: bw_Sync_def os_Sync_def dest!: pop_fields split: prod.splits option.splits)
  obtain b' e' where c: "bw_Close b = (b', e')" by force
  have b': "fdata (bfile b') = f" "fsynced (bfile b') = length f"
    using c b by (auto simp: bw_Close_def os_Close_def dest!: pop_fields split: prod.splits option.splits)
  have "bw w2 \<in> {b, b'}"
    using assms(2,3) s c w(1,2) by (auto simp: wal_Close_begin_def wal_Close_finish_def loop_take_def flush_and_sync_def bw_Flush_def
      split: if_splits option.splits)
  then show ?thesis using b b' assms(4) by (auto simp: wal_crash_def crash_images_def)
qed

lemma close_keeps_log:
  assumes "wal_at (ewal e) f" "eng_Close io now e = Some (e', err)" "c \<in> wal_crash (ewal e')"
  shows "c = f"
proof -
  obtain e1 x w1 w2 where e1: "eng_flush io now e = Some (e1, x)" "wal_Close_begin (ewal e1) = Some w1"
      "wal_Close_finish (loop_take w1) = (w2, err)" "e' = e1\<lparr>ewal := w2\<rparr>"
    using assms(2) by (auto simp: eng_Close_def split: Option.bind_splits prod.splits)
  have "wal_at (ewal e1) f" using flush_keeps_wal [OF e1(1)] assms(1) by simp
  from close_crash [OF this e1(2,3)] show ?thesis using e1(4) assms(3) by simp
qed

subsection \<open>Properties\<close>

text \<open>C6. An orderly restart keeps the state of a sound replica. A server starts on a directory whose log has complete
  records only; its replica applies committed entries of at most 128 MiB, flushes and compacts, and is sound when
  it is stopped: no write to the store has failed, no flush began while the memtable of a failed one was waiting,
  flushed tables fit the format under new names, and compactions were harmless when they swapped their tables. The stop
  may meet any errors in the final flush and in closing the log. A server that starts on that directory again,
  even if the machine crashed meanwhile, shows every key as the first one did before it stopped.\<close>

theorem restart_keeps_state:
  assumes "server_start v args draws disk calls raft boot see addr create join = Some (Inr s)"
    "\<forall>dir. \<exists>script tabs. disk dir = (None, script, Some (log_bytes ds0), tabs)" "\<forall>d\<in>set ds0. length d < 2 ^ 32"
    "sorts_by_size srt" "replica_reach wal_Marshal cmd_Unmarshal srt (new_replica wal_Unmarshal (log_bytes ds0) (ssStore s)) r"
    "rsound r" "\<forall>l\<in>set (rlog r). length (lData l) \<le> 2 ^ 27"
    "server_stop marshal rapply rerr io now (s\<lparr>ssStore := ceng (rconf r)\<rparr>) = Some s'"
    "f \<in> wal_crash (ewal (ssStore s'))" "\<forall>dir. \<exists>script tabs. disk' dir = (None, script, Some f, tabs)"
    "server_start v args' draws' disk' calls' raft' boot' see' addr' create' join' = Some (Inr s2)"
  shows "eng_view (ssStore s2) k = eng_view (ceng (rconf r)) k"
proof -
  obtain script tabs mb where o: "eng_Open wal_Unmarshal draws None script (Some (log_bytes ds0)) tabs mb = Some (Inr (ssStore s))"
    using server_start_store [OF assms(1)] assms(2) by (metis prod.inject)
  obtain script' tabs' mb' where o': "eng_Open wal_Unmarshal draws' None script' (Some f) tabs' mb' = Some (Inr (ssStore s2))"
    using server_start_store [OF assms(11)] assms(10) by (metis prod.inject)
  have reach: "eng_reach wal_Marshal srt (start wal_Unmarshal (log_bytes ds0) (ssStore s)) (rconf r)"
    using replica_reach_engine [OF assms(5)] by (simp add: new_replica_def)
  note inv = run_invs [OF o assms(4) reach]
  let ?f = "log_bytes ds0 @ log_bytes (records wal_Marshal (chist (rconf r)))"
  have sound: "csound (rconf r)" "cclean (rconf r)" using assms(6) by (simp_all add: rsound_def)
  note clean_log(1) [OF inv(2) sound(2)]
  moreover obtain err where "eng_Close io now (ceng (rconf r)) = Some (ssStore s', err)"
    using assms(8) by (auto simp: server_stop_def split: Option.bind_splits prod.splits)
  ultimately have "f = ?f" using close_keeps_log assms(9) by blast
  moreover have "\<forall>op\<in>set (chist (rconf r)). survives wal_Marshal wal_Unmarshal op"
    using replica_hist [OF o assms(4-6)] log_writes_survive assms(7) by auto
  ultimately show ?thesis
    using reopen_view [OF inv(1) sound(1) inv(3) assms(3), of wal_Marshal draws' script' tabs' mb'] o' by auto
qed

text \<open>A viper that knows nothing but the defaults of its types, an empty disk and a one-node Raft.\<close>

definition demo_viper :: viper where
  "demo_viper = \<lparr>vReadInConfig = \<lambda>_. None, vGet = \<lambda>_ _ _. VNil, vToString = \<lambda>_. '''', vToBool = \<lambda>_. False,
     vToInt64 = \<lambda>_. 1, vToInt = \<lambda>_. 0, vToDuration = \<lambda>_. 0\<rparr>"

definition demo_start :: "(nat \<Rightarrow> rng) \<Rightarrow> bytes \<Rightarrow> (fatal + (nat, nat) server_state) option" where
  "demo_start draws f = server_start demo_viper [] draws (\<lambda>_. (None, [], Some f, \<lambda>_. None)) (\<lambda>_. None) (\<lambda>_ _. 0) (\<lambda>r _. (r, BootOk))
     (\<lambda>_. \<lparr>vwState = Follower, vwLeader = '''', vwApplied = 0, vwStats = [], vwServers = []\<rparr>) '''' (\<lambda>_. Some (Inr 0)) (\<lambda>m _. (m, 0, None))"

lemma demo_start_ok:
  assumes "eng_Open wal_Unmarshal draws None [] (Some f) (\<lambda>_. None) 1 = Some (Inr e)"
  shows "\<exists>s. demo_start draws f = Some (Inr s) \<and> ssStore s = e \<and> nBatch (ssNode s) = NewBatchWriter 0"
  by (simp add: demo_start_def server_start_def Load_def demo_viper_def read_peers_def Let_def assms NewNode_def new_calls_def)

lemma demo_stop:
  assumes "eng_ok e tab" "eimmutable e = None" "sst_fits (contents (ememtable e))" "ctables (ecompact e) = []"
    "nBatch (ssNode s) = NewBatchWriter 0"
  shows "\<exists>s'. server_stop cmd_Marshal demo_raft None no_io_error 5 (s\<lparr>ssStore := e\<rparr>) = Some s'"
proof -
  obtain e1 err where e1: "eng_flush no_io_error 5 e = Some (e1, err)" using eng_flush_ok [OF assms(1-3)] assms(4) by fastforce
  have "\<not> closed (ewal e1)" using flush_keeps_wal [OF e1] assms(1) by (simp add: eng_ok_def wal_idle_def)
  then show ?thesis using assms(5)
    by (simp add: server_stop_def node_Shutdown_def batch_Stop_def NewBatchWriter_def eng_Close_def e1 wal_Close_begin_def split: prod.split)
qed

theorem restart_keeps_state_witness:
  "\<exists>s r s' f s2. demo_start (\<lambda>_ _. 1) (log_bytes []) = Some (Inr s) \<and>
     replica_reach wal_Marshal cmd_Unmarshal (sort_key snd) (new_replica wal_Unmarshal (log_bytes []) (ssStore s)) r \<and>
     server_stop cmd_Marshal demo_raft None no_io_error 5 (s\<lparr>ssStore := ceng (rconf r)\<rparr>) = Some s' \<and>
     f \<in> wal_crash (ewal (ssStore s')) \<and> demo_start (\<lambda>_ _. 0) f = Some (Inr s2) \<and> eng_view (ssStore s2) [1] = Some (live [1] [2] 3)"
proof -
  obtain e0 r where r: "eng_Open wal_Unmarshal (\<lambda>_ _. 1) None [] (Some (log_bytes [])) (\<lambda>_. None) 1 = Some (Inr e0)"
      "replica_reach wal_Marshal cmd_Unmarshal (sort_key snd) (new_replica wal_Unmarshal (log_bytes []) e0) r"
      "rlog r = [json_entry demo_cmd]" "rsound r" "eng_ok (ceng (rconf r)) (\<lambda>_. [])"
      "contents (ememtable (ceng (rconf r))) = [live [1] [2] 3]" "eimmutable (ceng (rconf r)) = None" "ctables (ecompact (ceng (rconf r))) = []"
    using one_entry_replica [OF demo_json(1), of wal_Unmarshal "\<lambda>_ _. 1" wal_Marshal "\<lambda>_. 1" "sort_key snd"] by auto
  obtain s where s: "demo_start (\<lambda>_ _. 1) (log_bytes []) = Some (Inr s)" "ssStore s = e0" "nBatch (ssNode s) = NewBatchWriter 0"
    using demo_start_ok [OF r(1)] by blast
  have fits: "sst_fits (contents (ememtable (ceng (rconf r))))" unfolding r(6) by (rule one_entry_fits) simp_all
  obtain s' where s': "server_stop cmd_Marshal demo_raft None no_io_error 5 (s\<lparr>ssStore := ceng (rconf r)\<rparr>) = Some s'"
    using demo_stop [OF r(5,7) fits r(8) s(3)] by blast
  let ?f = "fdata (bfile (bw (ewal (ssStore s'))))"
  obtain e2 where "eng_Open wal_Unmarshal (\<lambda>_ _. 0) None [] (Some ?f) (\<lambda>_. None) 1 = Some (Inr e2)" using eng_Open_ok by blast
  then obtain s2 where s2: "demo_start (\<lambda>_ _. 0) ?f = Some (Inr s2)" using demo_start_ok by blast
  have "eng_view (ceng (rconf r)) [1] = Some (live [1] [2] 3)"
    using replica_view [OF replica_reach_inv [OF r(2) sort_by_size new_replica_inv [OF r(1)]] r(4), of "[1]"] by (simp add: r(3) demo_json(1))
  moreover have "eng_view (ssStore s2) [1] = eng_view (ceng (rconf r)) [1]"
    by (rule restart_keeps_state [OF s(1) [unfolded demo_start_def] _ _ sort_by_size r(2) [folded s(2)] r(4) _ s' crash_keeps_file _ s2 [unfolded demo_start_def]])
      (simp_all add: r(3) demo_json(2) [simplified])
  ultimately show ?thesis using s r(2) s' s2 crash_keeps_file by metis
qed

end
