(* ===== verification/Cli.thy ===== *)
theory Cli
  imports Grpc Json
begin

text \<open>
  \<open>cmd/cli/main.go\<close>: the command-line client. A command takes the arguments left after cobra has parsed
  the flags (which are arguments of the definition), the outcome of \<open>dial\<close>, and the stub of the call it
  makes, which acts on the state \<open>'s\<close> of the cluster and may fail with an error \<open>'e\<close> of the server or
  the transport. It returns what it prints and its error; \<open>None\<close> is a call that does not return.
  \<open>quoteq\<close> stands for \<open>strconv.Quote\<close>, which needs the tables of printable characters.
\<close>

datatype 'e cli_error = Usage | DialFailed goerror | RpcFailed 'e | StreamFailed goerror

type_synonym 'e outcome = "bytes \<times> 'e cli_error option"

text \<open>\<open>main\<close> exits with 1 when the command has returned an error.\<close>

definition exit_code :: "'e outcome \<Rightarrow> nat" where
  "exit_code r = (if snd r = None then 0 else 1)"

text \<open>Commands that take between \<open>lo\<close> and \<open>hi\<close> arguments, dial, and go on with the call.\<close>

definition with_client ::
  "nat \<Rightarrow> nat \<Rightarrow> goerror option \<Rightarrow> bytes list \<Rightarrow> 's \<Rightarrow> ('s \<times> 'e outcome) option \<Rightarrow> ('s \<times> 'e outcome) option" where
  "with_client lo hi dialErr args s call =
     (if length args < lo \<or> hi < length args then Some (s, [], Some Usage)
      else (case dialErr of Some e \<Rightarrow> Some (s, [], Some (DialFailed e)) | None \<Rightarrow> call))"

definition printed :: "('a \<Rightarrow> bytes) \<Rightarrow> ('s \<times> ('e + 'a)) option \<Rightarrow> ('s \<times> 'e outcome) option" where
  "printed out r = map_option (\<lambda>(s, x). (s, case x of Inl e \<Rightarrow> ([], Some (RpcFailed e)) | Inr resp \<Rightarrow> (out resp, None))) r"

definition ok_line :: "writeResponse \<Rightarrow> bytes" where
  "ok_line resp = str ''OK  version='' @ str (FormatInt (wrRaftIndex resp)) @ [10]"

definition putCmd ::
  "goerror option \<Rightarrow> (putRequest \<Rightarrow> 's \<Rightarrow> ('s \<times> ('e + writeResponse)) option) \<Rightarrow> i64 \<Rightarrow> bytes list \<Rightarrow> 's \<Rightarrow> ('s \<times> 'e outcome) option" where
  "putCmd dialErr put ttl args s = with_client 2 2 dialErr args s
     (printed ok_line (put \<lparr>prKey = args ! 0, prValue = args ! 1, prTtlSeconds = ttl\<rparr> s))"

definition get_line :: "getResponse \<Rightarrow> bytes" where
  "get_line resp =
     (if \<not> gpFound resp then str ''(not found)'' @ [10]
      else gpValue resp @ str ''  [version='' @ str (FormatInt (gpVersion resp)) @ str '']'' @ [10])"

definition getCmd ::
  "goerror option \<Rightarrow> (string list option \<Rightarrow> getRequest \<Rightarrow> 's \<Rightarrow> ('s \<times> ('e + getResponse)) option) \<Rightarrow> string \<Rightarrow> i64 \<Rightarrow> i64 \<Rightarrow>
   bytes list \<Rightarrow> 's \<Rightarrow> ('s \<times> 'e outcome) option" where
  "getCmd dialErr get consistency sessionIndex minVersion args s = with_client 1 1 dialErr args s
     (printed get_line (get (Some [consistency])
        \<lparr>grKey = args ! 0, grConsistency = consistency, grSessionIndex = sessionIndex, grMinVersion = minVersion\<rparr> s))"

definition deleteCmd ::
  "goerror option \<Rightarrow> (bytes \<Rightarrow> 's \<Rightarrow> ('s \<times> ('e + writeResponse)) option) \<Rightarrow> bytes list \<Rightarrow> 's \<Rightarrow> ('s \<times> 'e outcome) option" where
  "deleteCmd dialErr delete args s = with_client 1 1 dialErr args s (printed ok_line (delete (args ! 0) s))"

text \<open>\<open>%-40s\<close> pads to 40 characters; a byte that is no part of a rune counts as one.\<close>

function rune_count :: "bytes \<Rightarrow> nat" where
  "rune_count [] = 0"
| "rune_count (b # bs) = Suc (rune_count (drop (rune_len (b # bs) - 1) bs))"
  by pat_completeness auto
termination
  by (relation "measure length") auto

definition pad40 :: "bytes \<Rightarrow> bytes" where
  "pad40 s = s @ replicate (40 - rune_count s) 32"

definition item_line :: "keyValue \<Rightarrow> bytes" where
  "item_line item = pad40 (kvKey item) @ str ''  '' @ kvValue item @ str ''  [v='' @ str (FormatInt (kvVersion item)) @ str '']'' @ [10]"

definition scan_lines :: "keyValue list \<Rightarrow> bytes" where
  "scan_lines items = concat (map item_line items) @ str ''('' @ str (show_nat (length items)) @ str '' results)'' @ [10]"

definition prefix_arg :: "bytes list \<Rightarrow> bytes" where
  "prefix_arg args = (if length args > 0 then args ! 0 else [])"

definition scanCmd ::
  "goerror option \<Rightarrow> (bytes \<Rightarrow> 32 word \<Rightarrow> 's \<Rightarrow> ('s \<times> ('e + keyValue list)) option) \<Rightarrow> 32 word \<Rightarrow> bytes list \<Rightarrow> 's \<Rightarrow> ('s \<times> 'e outcome) option" where
  "scanCmd dialErr scan limit args s = with_client 0 1 dialErr args s (printed scan_lines (scan (prefix_arg args) limit s))"

text \<open>The watch loop on the events received before the stream's error, which ends the command.\<close>

definition event_line :: "watchEvent \<Rightarrow> bytes" where
  "event_line evt = str ''['' @ str (if weType evt = DELETE then ''DEL'' else ''PUT'') @ str ''] '' @ weKey evt @ str '' = '' @
     weValue evt @ str ''  (v='' @ str (FormatInt (weVersion evt)) @ str '')'' @ [10]"

definition watchCmd ::
  "(bytes \<Rightarrow> bytes) \<Rightarrow> goerror option \<Rightarrow> (bytes \<Rightarrow> 's \<Rightarrow> ('s \<times> ('e + watchEvent list \<times> goerror)) option) \<Rightarrow> bytes list \<Rightarrow> 's \<Rightarrow>
   ('s \<times> 'e outcome) option" where
  "watchCmd quoteq dialErr watch args s = with_client 0 1 dialErr args s
     (let pfx = prefix_arg args; head = str ''Watching prefix '' @ quoteq pfx @ str '' - press Ctrl+C to stop'' @ [10] in
      map_option (\<lambda>(s', x). (s', case x of
          Inl e \<Rightarrow> (head, Some (RpcFailed e))
        | Inr (evts, err) \<Rightarrow> (head @ concat (map event_line evts), Some (StreamFailed err)))) (watch pfx s))"

definition spaced :: "string list \<Rightarrow> bytes" where
  "spaced xs = str ''['' @ concat (map (\<lambda>(i, x). (if i = 0 then [] else [32]) @ str x) (enumerate 0 xs)) @ str '']''"

definition status_lines :: "statusResponse \<Rightarrow> bytes" where
  "status_lines resp = concat
     [str ''Node ID:       '' @ str (stNodeId resp) @ [10],
      str ''State:         '' @ str (stState resp) @ [10],
      str ''Leader:        '' @ str (stLeader resp) @ [10],
      str ''Commit index:  '' @ str (FormatInt (stCommitIndex resp)) @ [10],
      str ''Applied index: '' @ str (FormatInt (stAppliedIndex resp)) @ [10],
      str ''Peers:         '' @ spaced (stPeers resp) @ [10]]"

definition statusCmd ::
  "goerror option \<Rightarrow> ('s \<Rightarrow> ('s \<times> ('e + statusResponse)) option) \<Rightarrow> 's \<Rightarrow> ('s \<times> 'e outcome) option" where
  "statusCmd dialErr status s = with_client 0 0 dialErr [] s (printed status_lines (status s))"

definition chaos_line :: "statusResponse \<Rightarrow> bytes" where
  "chaos_line resp = str ''Chaos target: node='' @ str (stNodeId resp) @ str '' state='' @ str (stState resp) @ str '' leader='' @
     str (stLeader resp) @ [10]"

definition chaos_status ::
  "goerror option \<Rightarrow> ('s \<Rightarrow> ('s \<times> ('e + statusResponse)) option) \<Rightarrow> 's \<Rightarrow> ('s \<times> 'e outcome) option" where
  "chaos_status dialErr status s = with_client 0 0 dialErr [] s (printed chaos_line (status s))"

definition chaos_partition :: "bytes \<Rightarrow> 'e outcome" where
  "chaos_partition partitionNodes =
     (str ''To simulate partition, run on the target node:'' @ [10] @
      str ''  iptables -I INPUT -s '' @ partitionNodes @ str '' -j DROP'' @ [10] @
      str ''  iptables -I OUTPUT -d '' @ partitionNodes @ str '' -j DROP'' @ [10] @
      str ''To heal:'' @ [10] @
      str ''  iptables -D INPUT -s '' @ partitionNodes @ str '' -j DROP'' @ [10] @
      str ''  iptables -D OUTPUT -d '' @ partitionNodes @ str '' -j DROP'' @ [10], None)"

subsection \<open>Commands against a node\<close>

lemma with_client_ok: "lo \<le> length args \<Longrightarrow> length args \<le> hi \<Longrightarrow> with_client lo hi None args s call = call"
  by (simp add: with_client_def)

lemma printed_ok: "printed f r = Some (s, out, None) \<Longrightarrow> \<exists>x. r = Some (s, Inr x) \<and> out = f x"
  by (cases r) (auto simp: printed_def split: sum.splits)

lemma printed_err: "printed f r = Some (s, out, Some e) \<Longrightarrow> out = []"
  by (cases r) (auto simp: printed_def split: sum.splits)

text \<open>\<open>get\<close> against the handler, with the consistency the flag names.\<close>

definition cli_get :: "renv \<Rightarrow> string \<Rightarrow> i64 \<Rightarrow> i64 \<Rightarrow> bytes list \<Rightarrow> (unit \<times> (code \<times> status_msg) outcome) option" where
  "cli_get env consistency idx minv args =
     getCmd None (\<lambda>md req s. map_option (\<lambda>r. (s, r)) (grpc_Get env md req)) consistency idx minv args ()"

lemma cli_get_eq:
  "cli_get env consistency idx minv [k] = printed get_line (map_option (\<lambda>r. ((), r))
     (grpc_Get env (Some [consistency]) \<lparr>grKey = k, grConsistency = consistency, grSessionIndex = idx, grMinVersion = minv\<rparr>))"
  by (simp add: cli_get_def getCmd_def with_client_ok)

subsection \<open>Properties\<close>



end
