(* ===== verification/Mux.thy ===== *)
theory Mux
  imports Http
begin

text \<open>
  \<open>Listen\<close> of \<open>internal/api/http/server.go\<close>: which handler a request reaches. The router is Go's
  \<open>http.ServeMux\<close> (since Go 1.22) with the five patterns of \<open>Listen\<close>, all without a method or a host;
  the middleware only logs. The mux works on the escaped path of the URL: it cleans it as
  \<open>path.Clean\<close> does, redirects a request whose path is not clean, and compares its segments, each
  unescaped, with those of the patterns. The handlers then read the unescaped path. A redirect is
  given by its target path; how it is written into the \<open>Location\<close> header is left out.
\<close>

datatype route = KeyRoute | ScanRoute | StatusRoute | HealthzRoute | ReadyzRoute

datatype target = Handler route | NotFound | Moved bytes

subsection \<open>Paths\<close>

text \<open>\<open>url.PathUnescape\<close>.\<close>

fun path_unescape :: "bytes \<Rightarrow> bytes option" where
  "path_unescape [] = Some []"
| "path_unescape (b # s) =
     (if b = 37 then
        (case s of
           h # l # s' \<Rightarrow> do { x \<leftarrow> unhex h; y \<leftarrow> unhex l; t \<leftarrow> path_unescape s'; Some (of_nat (16 * x + y) # t) }
         | _ \<Rightarrow> None)
      else map_option (Cons b) (path_unescape s))"

text \<open>\<open>path.Clean\<close> of a rooted path, by its elements: empty ones and \<open>.\<close> are dropped, \<open>..\<close> takes
  back the element before it, if there is one. \<open>cleanPath\<close> puts a trailing slash back.\<close>

function split_slash :: "bytes \<Rightarrow> bytes list" where
  "split_slash p = takeWhile (\<lambda>b. b \<noteq> 47) p #
     (case dropWhile (\<lambda>b. b \<noteq> 47) p of [] \<Rightarrow> [] | _ # p' \<Rightarrow> split_slash p')"
  by pat_completeness auto
termination
proof (relation "measure length")
  fix p x and p' :: bytes
  assume "dropWhile (\<lambda>b. b \<noteq> 47) p = x # p'"
  then have "length (x # p') \<le> length p" by (metis length_dropWhile_le)
  then show "(p', p) \<in> measure length" by simp
qed simp

declare split_slash.simps [simp del]

definition clean_step :: "bytes list \<Rightarrow> bytes \<Rightarrow> bytes list" where
  "clean_step st e = (if e = [] \<or> e = [46] then st else if e = [46, 46] then butlast st else st @ [e])"

definition path_Clean :: "bytes \<Rightarrow> bytes" where
  "path_Clean p = (case foldl clean_step [] (split_slash p) of [] \<Rightarrow> [47] | es \<Rightarrow> concat (map (Cons 47) es))"

definition cleanPath :: "bytes \<Rightarrow> bytes" where
  "cleanPath p =
     (if p = [] then [47]
      else let q = (if hd p \<noteq> 47 then 47 # p else p); np = path_Clean q in
        if last q = 47 \<and> np \<noteq> [47] then np @ [47] else np)"

text \<open>The segments of a path: \<open>firstSegment\<close> until the path is empty. A segment that cannot be
  unescaped is kept as it is.\<close>

definition segment_text :: "bytes \<Rightarrow> bytes" where
  "segment_text s = (case path_unescape s of None \<Rightarrow> s | Some t \<Rightarrow> t)"

function segments :: "bytes \<Rightarrow> bytes list" where
  "segments p =
     (if p = [] then []
      else if p = [47] then [[47]]
      else let q = tl p in segment_text (takeWhile (\<lambda>b. b \<noteq> 47) q) # segments (dropWhile (\<lambda>b. b \<noteq> 47) q))"
  by pat_completeness auto
termination
proof (relation "measure length")
  fix p q :: bytes
  assume "p \<noteq> []" "q = tl p"
  then show "(dropWhile (\<lambda>b. b \<noteq> 47) q, p) \<in> measure length"
    using length_dropWhile_le [of "\<lambda>b. b \<noteq> 47" q] by (cases p) auto
qed simp

declare segments.simps [simp del]

subsection \<open>The router\<close>

definition mux_match :: "bytes \<Rightarrow> route option" where
  "mux_match p =
     (case segments p of
        [a] \<Rightarrow> if a = str ''healthz'' then Some HealthzRoute else if a = str ''readyz'' then Some ReadyzRoute else None
      | [a, b] \<Rightarrow>
          if a = str ''v1'' \<and> b = str ''scan'' then Some ScanRoute
          else if a = str ''v1'' \<and> b = str ''status'' then Some StatusRoute else None
      | a # b # c # cs \<Rightarrow> if a = str ''v1'' \<and> b = str ''keys'' then Some KeyRoute else None
      | [] \<Rightarrow> None)"

text \<open>A match of the pattern \<open>/v1/keys/\<close>, which ends in a slash, is exact when nothing comes after it.\<close>

definition exact_match :: "route option \<Rightarrow> bytes \<Rightarrow> bool" where
  "exact_match m p = (case m of None \<Rightarrow> False
     | Some KeyRoute \<Rightarrow> (p = [] \<or> last p = 47) \<and> count_list p 47 = 3
     | Some _ \<Rightarrow> True)"

definition slash_redirect :: "bytes \<Rightarrow> bool" where
  "slash_redirect p \<longleftrightarrow> \<not> exact_match (mux_match p) p \<and> \<not> (p \<noteq> [] \<and> last p = 47) \<and> exact_match (mux_match (p @ [47])) (p @ [47])"

definition findHandler :: "string \<Rightarrow> bytes \<Rightarrow> bytes \<Rightarrow> target" where
  "findHandler method escaped path =
     (let p = (if method = ''CONNECT'' then escaped else cleanPath escaped) in
      if slash_redirect p then Moved (cleanPath path @ [47])
      else if p \<noteq> escaped then Moved p
      else (case mux_match p of None \<Rightarrow> NotFound | Some h \<Rightarrow> Handler h))"

text \<open>A request with the escaped path \<open>escaped\<close>; one that cannot be unescaped is refused by
  \<open>net/http\<close> itself. \<open>Inl\<close> is a redirect.\<close>

definition http_serve ::
  "(command \<Rightarrow> bytes result) \<Rightarrow> 'r raft_apply \<Rightarrow> (entry \<Rightarrow> bool) \<Rightarrow> (entry list \<Rightarrow> entry list) \<Rightarrow> engine \<Rightarrow> renv \<Rightarrow> 'r node \<Rightarrow>
   hrequest \<Rightarrow> bytes \<Rightarrow> ('r node \<times> (bytes + hresponse)) option" where
  "http_serve marshal rapply isnil order store env n r escaped =
     (case path_unescape escaped of
        None \<Rightarrow> Some (n, Inr \<lparr>hStatus = 400, hHeader = [(''Content-Type'', ''text/plain; charset=utf-8''), (''Connection'', ''close'')],
          hBody = Plain ''400 Bad Request''\<rparr>)
      | Some path \<Rightarrow>
          let r = r\<lparr>qPath := path\<rparr> in
          (case findHandler (qMethod r) escaped path of
             Moved p \<Rightarrow> Some (n, Inl p)
           | NotFound \<Rightarrow> Some (n, Inr (http_Error [] (Plain ''404 page not found'') 404))
           | Handler KeyRoute \<Rightarrow> map_option (\<lambda>(n', resp). (n', Inr resp)) (handleKey marshal rapply env n r)
           | Handler ScanRoute \<Rightarrow> map_option (\<lambda>resp. (n, Inr resp)) (handleScan isnil order store r)
           | Handler StatusRoute \<Rightarrow> Some (n, Inr (handleStatus n))
           | Handler HealthzRoute \<Rightarrow> Some (n, Inr \<lparr>hStatus = 200, hHeader = [], hBody = Octets (str ''ok'')\<rparr>)
           | Handler ReadyzRoute \<Rightarrow> Some (n, Inr (handleReadyz n))))"

subsection \<open>Paths without empty elements\<close>

lemma no_slash:
  assumes "47 \<notin> set a"
  shows "takeWhile (\<lambda>b. b \<noteq> 47) a = a" "dropWhile (\<lambda>b. b \<noteq> 47) a = []" "a \<noteq> [] \<Longrightarrow> last a \<noteq> 47"
proof -
  show "takeWhile (\<lambda>b. b \<noteq> 47) a = a" "dropWhile (\<lambda>b. b \<noteq> 47) a = []"
    using assms by (auto simp: takeWhile_eq_all_conv dropWhile_eq_Nil_conv)
  show "last a \<noteq> 47" if "a \<noteq> []" using assms last_in_set [OF that] by metis
qed

lemma split_slash_last: "47 \<notin> set a \<Longrightarrow> split_slash a = [a]"
  by (subst split_slash.simps) (simp add: no_slash)

lemma split_slash_Cons: "47 \<notin> set a \<Longrightarrow> split_slash (a @ 47 # p) = a # split_slash p"
  by (subst split_slash.simps) (simp add: takeWhile_append dropWhile_append no_slash)

lemma segments_last: "47 \<notin> set a \<Longrightarrow> a \<noteq> [] \<Longrightarrow> segments (47 # a) = [segment_text a]"
  by (subst segments.simps) (simp add: no_slash segments.simps [of "[]"])

lemma segments_Cons: "47 \<notin> set a \<Longrightarrow> segments (47 # a @ 47 # p) = segment_text a # segments (47 # p)"
  by (subst segments.simps) (simp add: takeWhile_append dropWhile_append no_slash)

lemma segments_slash: "segments [47] = [[47]]"
  by (simp add: segments.simps [of "[47]"])

lemma path_unescape_plain: "37 \<notin> set a \<Longrightarrow> path_unescape (a @ s) = map_option ((@) a) (path_unescape s)"
  by (induction a) (cases "path_unescape s"; auto)+

lemma keysPath_split: "keysPath = 47 # str ''v1'' @ 47 # str ''keys'' @ [47]"
  by (simp add: keysPath_def str_def)

lemma path_words:
  "47 \<notin> set (str ''v1'')" "47 \<notin> set (str ''keys'')" "37 \<notin> set keysPath" "str ''v1'' \<notin> {[], [46], [46, 46]}" "str ''keys'' \<notin> {[], [46], [46, 46]}"
  "segment_text (str ''v1'') = str ''v1''" "segment_text (str ''keys'') = str ''keys''"
  by (simp_all add: keysPath_def str_def segment_text_def)

text \<open>A key is one segment: its path is clean, and it reaches the handler of keys.\<close>

lemma key_path_clean:
  assumes "47 \<notin> set s" "s \<notin> {[], [46], [46, 46]}"
  shows "cleanPath (keysPath @ s) = keysPath @ s"
proof -
  have "split_slash (keysPath @ s) = [[], str ''v1'', str ''keys'', s]"
    unfolding keysPath_split
    using split_slash_Cons [of "[]"] split_slash_Cons [OF path_words(1)] split_slash_Cons [OF path_words(2), of s] split_slash_last [OF assms(1)]
    by simp
  moreover have "foldl clean_step [] [[], str ''v1'', str ''keys'', s] = [str ''v1'', str ''keys'', s]"
    using assms(2) path_words(4,5) by (simp add: clean_step_def)
  ultimately have "path_Clean (keysPath @ s) = keysPath @ s" by (simp add: path_Clean_def keysPath_split)
  moreover have "last (keysPath @ s) \<noteq> 47" using assms no_slash(3) [OF assms(1)] by auto
  moreover have "hd (keysPath @ s) = 47" "keysPath @ s \<noteq> []" by (simp_all add: keysPath_split)
  ultimately show ?thesis by (simp add: cleanPath_def Let_def)
qed

lemma key_path_segments:
  assumes "47 \<notin> set s" "s \<noteq> []"
  shows "segments (keysPath @ s) = [str ''v1'', str ''keys'', segment_text s]"
    "segments (keysPath @ s @ [47]) = [str ''v1'', str ''keys'', segment_text s, [47]]"
  unfolding keysPath_split
  using segments_Cons [OF path_words(1)] segments_Cons [OF path_words(2)] segments_last [OF assms] segments_Cons [OF assms(1), of "[]"]
  by (simp_all add: path_words segments_slash)

lemma key_path_target:
  assumes "47 \<notin> set s" "s \<notin> {[], [46], [46, 46]}" "method \<noteq> ''CONNECT''"
  shows "findHandler method (keysPath @ s) path = Handler KeyRoute"
proof -
  have s: "s \<noteq> []" using assms(2) by simp
  have match: "mux_match (keysPath @ s) = Some KeyRoute" "mux_match (keysPath @ s @ [47]) = Some KeyRoute"
    by (simp_all add: mux_match_def key_path_segments [OF assms(1) s])
  have "last (keysPath @ s) \<noteq> 47" using no_slash(3) [OF assms(1)] s by auto
  moreover have "count_list (keysPath @ s @ [47]) 47 = 4"
    using assms(1) path_words(1,2) by (simp add: keysPath_split)
  ultimately have "\<not> slash_redirect (keysPath @ s)" by (simp add: slash_redirect_def exact_match_def match)
  then show ?thesis using assms key_path_clean [OF assms(1,2)] by (simp add: findHandler_def Let_def match)
qed

lemma key_path_served:
  assumes "47 \<notin> set s" "s \<notin> {[], [46], [46, 46]}" "path_unescape s = Some key" "qMethod r \<noteq> ''CONNECT''"
  shows "http_serve marshal rapply isnil order store env n r (keysPath @ s) =
    map_option (\<lambda>(n', resp). (n', Inr resp)) (handleKey marshal rapply env n (r\<lparr>qPath := keysPath @ key\<rparr>))"
  using path_unescape_plain [OF path_words(3), of s] key_path_target [OF assms(1,2,4)] assms(3) by (simp add: http_serve_def Let_def)

subsection \<open>Properties\<close>

text \<open>Every byte percent-encoded.\<close>

definition percent :: "bytes \<Rightarrow> bytes" where
  "percent key = concat (map (\<lambda>b. [37, hex_digit (unat b div 16), hex_digit (unat b mod 16)]) key)"

lemma unescape_percent: "path_unescape (percent key) = Some key"
proof (induction key)
  case (Cons b key)
  have "unat b div 16 < 16" "unat b mod 16 < 16" using unat_byte_less [of b] by simp_all
  moreover have "16 * of_nat (unat b div 16) + of_nat (unat b mod 16) = (of_nat (16 * (unat b div 16) + unat b mod 16) :: byte)"
    by (simp only: of_nat_add of_nat_mult of_nat_numeral)
  then have "16 * of_nat (unat b div 16) + of_nat (unat b mod 16) = b" by (simp only: mult_div_mod_eq of_nat_unat_byte)
  ultimately show ?case using Cons by (simp add: percent_def unhex_digit)
qed (simp add: percent_def)

lemma percent_plain: "47 \<notin> set (percent key)" "key \<noteq> [] \<Longrightarrow> percent key \<notin> {[], [46], [46, 46]}"
proof -
  have "hex_digit n \<noteq> 47" if "n < 16" for n
    using unhex_digit [OF that] by (auto simp: unhex_def)
  moreover have "unat b div 16 < 16" "unat b mod 16 < 16" for b :: byte using unat_byte_less [of b] by simp_all
  ultimately have "47 \<noteq> hex_digit (unat b div 16)" "47 \<noteq> hex_digit (unat b mod 16)" for b :: byte by metis+
  then show "47 \<notin> set (percent key)" by (auto simp: percent_def)
  show "percent key \<notin> {[], [46], [46, 46]}" if "key \<noteq> []" using that by (cases key) (auto simp: percent_def)
qed

text \<open>C28. Every key but the empty one can be reached over REST: percent-encoded behind \<open>/v1/keys/\<close>, any
  bytes, slashes and dots included, pass the router unchanged and reach the handler with the key itself.\<close>

theorem every_key_served:
  assumes "key \<noteq> []" "qMethod r \<noteq> ''CONNECT''"
  shows "http_serve marshal rapply isnil order store env n r (keysPath @ percent key) =
    map_option (\<lambda>(n', resp). (n', Inr resp)) (handleKey marshal rapply env n (r\<lparr>qPath := keysPath @ key\<rparr>))"
  by (rule key_path_served [OF percent_plain(1) percent_plain(2) [OF assms(1)] unescape_percent assms(2)])

theorem every_key_served_witness:
  "\<exists>n'. http_serve cmd_Marshal demo_raft (\<lambda>_. True) rev (fresh_engine (\<lambda>_. None) [])
       \<lparr>rapplied = \<lambda>_. 3, rdone = \<lambda>_. None, rverify = None, rstore = \<lambda>_. fresh_engine (\<lambda>_. None) []\<rparr> demo_node
       (demo_request ''PUT'' (\<lambda>_. '''')) (keysPath @ percent [1]) =
     Some (n', Inr \<lparr>hStatus = 200, hHeader = [(''X-Raft-Index'', FormatInt 3)], hBody = Empty\<rparr>)"
proof -
  let ?q = "demo_request ''PUT'' (\<lambda>_. '''')"
  have q: "qMethod ?q \<noteq> ''CONNECT''" "?q\<lparr>qPath := keysPath @ [1]\<rparr> = ?q" by (simp_all add: demo_request_def)
  let ?env = "\<lparr>rapplied = \<lambda>_. 3, rdone = \<lambda>_. None, rverify = None, rstore = \<lambda>_. fresh_engine (\<lambda>_. None) []\<rparr>"
  have "http_serve cmd_Marshal demo_raft (\<lambda>_. True) rev (fresh_engine (\<lambda>_. None) []) ?env demo_node ?q (keysPath @ percent [1]) =
      map_option (\<lambda>(n', resp). (n', Inr resp)) (handleKey cmd_Marshal demo_raft ?env demo_node ?q)"
    using every_key_served [OF _ q(1), of "[1]"] unfolding q(2) by blast
  then show ?thesis using put_acknowledged [of ?env "\<lambda>_. []"] by auto
qed

text \<open>A request whose escaped path is not clean (it has an empty element, a \<open>.\<close> or a \<open>..\<close>) is
  redirected and changes nothing, whatever its method: a \<open>PUT\<close> of \<open>/v1/keys/a//b\<close> is not carried out,
  and a client that follows the redirect asks for another key.\<close>

theorem unclean_path_redirected:
  assumes "path_unescape p = Some path" "cleanPath p \<noteq> p" "qMethod r \<noteq> ''CONNECT''"
  shows "\<exists>q. http_serve marshal rapply isnil order store env n r p = Some (n, Inl q)"
  using assms by (auto simp: http_serve_def findHandler_def Let_def)

theorem unclean_path_redirected_witness:
  "\<exists>q. http_serve cmd_Marshal demo_raft (\<lambda>_. True) rev (fresh_engine (\<lambda>_. None) [])
       \<lparr>rapplied = \<lambda>_. 3, rdone = \<lambda>_. None, rverify = None, rstore = \<lambda>_. fresh_engine (\<lambda>_. None) []\<rparr> demo_node
       (demo_request ''PUT'' (\<lambda>_. [])) (str ''/v1/keys/a//b'') = Some (demo_node, Inl q)"
proof (rule unclean_path_redirected)
  show "path_unescape (str ''/v1/keys/a//b'') = Some (str ''/v1/keys/a//b'')" by code_simp
  show "cleanPath (str ''/v1/keys/a//b'') \<noteq> str ''/v1/keys/a//b''" by code_simp
qed (simp add: demo_request_def)

end
