(* ===== verification/Metrics.thy ===== *)
theory Metrics
  imports Mux
begin

text \<open>
  \<open>internal/metrics/metrics.go\<close>, and the handlers of both APIs with the calls they make to it. What
  Prometheus keeps of a metric is the sequence of observed durations, a count or a value; how it
  renders them is left out, as is the rounding of a gauge to \<open>float64\<close>. \<open>label_ok\<close> is Prometheus'
  check of a label value: \<open>WithLabelValues\<close> panics on a value that fails it, which is \<open>None\<close> here.
  \<open>dur\<close> is the time since the start of the handler.
\<close>

datatype metric = PutLatency | GetLatency | DeleteLatency | RaftCommitIndex | RaftAppliedIndex | RaftTerm | RaftIsLeader
  | ActiveWatchers | RequestsTotal

text \<open>The name and the label names of a metric, and for a histogram the arguments of
  \<open>ExponentialBuckets\<close>: the first bound in units of 10 microseconds, the factor and the number.\<close>

datatype kind = Histogram nat nat nat | Gauge | Counter

definition describe :: "metric \<Rightarrow> string \<times> kind \<times> string list" where
  "describe m = (case m of
     PutLatency \<Rightarrow> (''oncloudkv_put_duration_seconds'', Histogram 10 2 14, [])
   | GetLatency \<Rightarrow> (''oncloudkv_get_duration_seconds'', Histogram 5 2 14, [''consistency''])
   | DeleteLatency \<Rightarrow> (''oncloudkv_delete_duration_seconds'', Histogram 10 2 14, [])
   | RaftCommitIndex \<Rightarrow> (''oncloudkv_raft_commit_index'', Gauge, [])
   | RaftAppliedIndex \<Rightarrow> (''oncloudkv_raft_applied_index'', Gauge, [])
   | RaftTerm \<Rightarrow> (''oncloudkv_raft_term'', Gauge, [])
   | RaftIsLeader \<Rightarrow> (''oncloudkv_raft_is_leader'', Gauge, [])
   | ActiveWatchers \<Rightarrow> (''oncloudkv_active_watchers'', Gauge, [])
   | RequestsTotal \<Rightarrow> (''oncloudkv_requests_total'', Counter, [''op'', ''status'']))"

definition registered :: "metric list" where
  "registered = [PutLatency, GetLatency, DeleteLatency, RaftCommitIndex, RaftAppliedIndex, RaftTerm, RaftIsLeader,
     ActiveWatchers, RequestsTotal]"

record metrics =
  mObserved :: "metric \<Rightarrow> string list \<Rightarrow> i64 list"
  mCount :: "string list \<Rightarrow> nat"
  mGauge :: "metric \<Rightarrow> int"

definition no_metrics :: metrics where
  "no_metrics = \<lparr>mObserved = \<lambda>_ _. [], mCount = \<lambda>_. 0, mGauge = \<lambda>_. 0\<rparr>"

definition observe :: "metric \<Rightarrow> string list \<Rightarrow> i64 \<Rightarrow> metrics \<Rightarrow> metrics" where
  "observe k ls dur m = m\<lparr>mObserved := (mObserved m)(k := (mObserved m k)(ls := mObserved m k ls @ [dur]))\<rparr>"

definition set_gauge :: "metric \<Rightarrow> int \<Rightarrow> metrics \<Rightarrow> metrics" where
  "set_gauge k v m = m\<lparr>mGauge := (mGauge m)(k := v)\<rparr>"

definition ObservePut :: "i64 \<Rightarrow> metrics \<Rightarrow> metrics" where
  "ObservePut dur m = observe PutLatency [] dur m"

definition ObserveGet :: "(string \<Rightarrow> bool) \<Rightarrow> i64 \<Rightarrow> string \<Rightarrow> metrics \<Rightarrow> metrics option" where
  "ObserveGet label_ok dur consistency m = (if label_ok consistency then Some (observe GetLatency [consistency] dur m) else None)"

definition ObserveDelete :: "i64 \<Rightarrow> metrics \<Rightarrow> metrics" where
  "ObserveDelete dur m = observe DeleteLatency [] dur m"

text \<open>\<open>RequestsTotal.WithLabelValues(op, status).Inc()\<close>\<close>

definition count_request :: "(string \<Rightarrow> bool) \<Rightarrow> string \<Rightarrow> string \<Rightarrow> metrics \<Rightarrow> metrics option" where
  "count_request label_ok op status m =
     (if label_ok op \<and> label_ok status then Some (m\<lparr>mCount := (mCount m)([op, status] := mCount m [op, status] + 1)\<rparr>) else None)"

text \<open>The metrics server: its own mux, with two patterns; \<open>prom\<close> is the reply of \<open>promhttp.Handler\<close>.\<close>

definition metrics_ServeHTTP :: "hresponse \<Rightarrow> string \<Rightarrow> bytes \<Rightarrow> bytes + hresponse" where
  "metrics_ServeHTTP prom method escaped =
     (let p = (if method = ''CONNECT'' then escaped else cleanPath escaped) in
      if p \<noteq> escaped then Inl p
      else if segments p = [str ''metrics''] then Inr prom
      else if segments p = [str ''healthz''] then Inr \<lparr>hStatus = 200, hHeader = [], hBody = Octets (str ''ok'')\<rparr>
      else Inr (http_Error [] (Plain ''404 page not found'') 404))"

subsection \<open>The gRPC handlers\<close>

definition mode_name :: "mode \<Rightarrow> string" where
  "mode_name m = (case m of Strong \<Rightarrow> ''strong'' | Eventual \<Rightarrow> ''eventual'' | ReadYourWrites \<Rightarrow> ''read-your-writes''
     | Monotonic \<Rightarrow> ''monotonic'' | OtherMode s \<Rightarrow> s)"

text \<open>A refused request is not counted; the deferred observation runs at every return.\<close>

definition count_reply :: "(string \<Rightarrow> bool) \<Rightarrow> string \<Rightarrow> 'a rpc \<Rightarrow> metrics \<Rightarrow> metrics option" where
  "count_reply label_ok op resp m = (case resp of
     Inl (Internal, msg) \<Rightarrow> count_request label_ok op ''error'' m
   | Inl _ \<Rightarrow> Some m
   | Inr _ \<Rightarrow> count_request label_ok op ''ok'' m)"

definition Put_metered ::
  "(command \<Rightarrow> bytes result) \<Rightarrow> 'r raft_apply \<Rightarrow> (string \<Rightarrow> bool) \<Rightarrow> i64 \<Rightarrow> 'r node \<Rightarrow> putRequest \<Rightarrow> metrics \<Rightarrow>
   ('r node \<times> writeResponse rpc \<times> metrics) option" where
  "Put_metered marshal rapply label_ok dur n req m = do {
     (n', resp) \<leftarrow> grpc_Put marshal rapply n req;
     m' \<leftarrow> count_reply label_ok ''put'' resp m;
     Some (n', resp, ObservePut dur m')
   }"

definition Get_metered ::
  "(string \<Rightarrow> bool) \<Rightarrow> i64 \<Rightarrow> renv \<Rightarrow> string list option \<Rightarrow> getRequest \<Rightarrow> metrics \<Rightarrow> (getResponse rpc \<times> metrics) option" where
  "Get_metered label_ok dur env md req m = do {
     resp \<leftarrow> grpc_Get env md req;
     m' \<leftarrow> count_reply label_ok ''get'' resp m;
     m'' \<leftarrow> ObserveGet label_ok dur (mode_name (consistencyMode md (grConsistency req))) m';
     Some (resp, m'')
   }"

definition Delete_metered ::
  "(command \<Rightarrow> bytes result) \<Rightarrow> 'r raft_apply \<Rightarrow> (string \<Rightarrow> bool) \<Rightarrow> i64 \<Rightarrow> 'r node \<Rightarrow> bytes \<Rightarrow> metrics \<Rightarrow>
   ('r node \<times> writeResponse rpc \<times> metrics) option" where
  "Delete_metered marshal rapply label_ok dur n key m = do {
     (n', resp) \<leftarrow> grpc_Delete marshal rapply n key;
     m' \<leftarrow> count_reply label_ok ''delete'' resp m;
     Some (n', resp, ObserveDelete dur m')
   }"

definition Scan_metered ::
  "(string \<Rightarrow> bool) \<Rightarrow> (entry list \<Rightarrow> entry list) \<Rightarrow> engine \<Rightarrow> bytes \<Rightarrow> 32 word \<Rightarrow> metrics \<Rightarrow> (keyValue list \<times> metrics) option" where
  "Scan_metered label_ok order store pfx limit m = do {
     items \<leftarrow> grpc_Scan order store pfx limit;
     m' \<leftarrow> count_request label_ok ''scan'' ''ok'' m;
     Some (items, m')
   }"

text \<open>\<open>Watch\<close>: up to its loop, and a turn of it. The deferred \<open>Dec\<close> runs when the handler returns.\<close>

definition Watch_start :: "(string \<Rightarrow> bool) \<Rightarrow> hub \<Rightarrow> bytes \<Rightarrow> metrics \<Rightarrow> (hub \<times> u64 \<times> nat \<times> metrics) option" where
  "Watch_start label_ok h pfx m =
     (let m1 = set_gauge ActiveWatchers (mGauge m ActiveWatchers + 1) m; (h', sid, ch) = Subscribe h pfx in do {
        m2 \<leftarrow> count_request label_ok ''watch'' ''ok'' m1;
        Some (h', sid, ch, m2)
      })"

definition Watch_turn_metered ::
  "hub \<Rightarrow> u64 \<Rightarrow> nat \<Rightarrow> watchEvent list \<Rightarrow> bool \<Rightarrow> goerror option \<Rightarrow> metrics \<Rightarrow>
   (hub \<times> watchEvent list \<times> goerror option option \<times> metrics) option" where
  "Watch_turn_metered h sid ch sent ctxDone sendErr m = do {
     (h', sent', ret) \<leftarrow> Watch_turn h sid ch sent ctxDone sendErr;
     Some (h', sent', ret, if ret = None then m else set_gauge ActiveWatchers (mGauge m ActiveWatchers - 1) m)
   }"

definition Status_metered :: "'r node \<Rightarrow> metrics \<Rightarrow> statusResponse \<times> metrics" where
  "Status_metered n m =
     (let s = grpc_Status n;
          m1 = set_gauge RaftCommitIndex (sint (stCommitIndex s)) m;
          m2 = set_gauge RaftAppliedIndex (sint (stAppliedIndex s)) m1 in
      (s, set_gauge RaftIsLeader (if IsLeader n then 1 else 0) m2))"

subsection \<open>The REST handlers\<close>

text \<open>\<open>handleKey\<close> with the calls of the handlers it dispatches to.\<close>

definition handleKey_metered ::
  "(command \<Rightarrow> bytes result) \<Rightarrow> 'r raft_apply \<Rightarrow> (string \<Rightarrow> bool) \<Rightarrow> i64 \<Rightarrow> renv \<Rightarrow> 'r node \<Rightarrow> hrequest \<Rightarrow> metrics \<Rightarrow>
   ('r node \<times> hresponse \<times> metrics) option" where
  "handleKey_metered marshal rapply label_ok dur env n r m = do {
     (n', resp) \<leftarrow> handleKey marshal rapply env n r;
     m' \<leftarrow> (if drop (length keysPath) (qPath r) = [] then Some m
       else if qMethod r = ''GET'' then ObserveGet label_ok dur (mode_name (header_mode r)) m
       else if qMethod r = ''PUT'' \<or> qMethod r = ''POST'' then Some (if IsLeader n then ObservePut dur m else m)
       else if qMethod r = ''DELETE'' then Some (if IsLeader n then ObserveDelete dur m else m)
       else Some m);
     Some (n', resp, m')
   }"

subsection \<open>A server at work\<close>

text \<open>The state both APIs share, with the open watch streams, and the calls they may get in any order.\<close>

record 'r api =
  apNode :: "'r node"
  apHub :: hub
  apStreams :: "(u64 \<times> nat \<times> watchEvent list) list"
  apMetrics :: metrics

datatype api_op = ApiPut putRequest | ApiGet renv "string list option" getRequest | ApiDelete bytes
  | ApiScan engine bytes "32 word" | ApiStatus | ApiWatch bytes | ApiTurn nat bool "goerror option" | ApiNotify event
  | RestKey renv hrequest

fun api_exec ::
  "(command \<Rightarrow> bytes result) \<Rightarrow> 'r raft_apply \<Rightarrow> (string \<Rightarrow> bool) \<Rightarrow> (entry list \<Rightarrow> entry list) \<Rightarrow> 'r api \<Rightarrow> i64 \<times> api_op \<Rightarrow>
   'r api option" where
  "api_exec marshal rapply label_ok order a (dur, ApiPut req) = do {
     (n, resp, m) \<leftarrow> Put_metered marshal rapply label_ok dur (apNode a) req (apMetrics a);
     Some (a\<lparr>apNode := n, apMetrics := m\<rparr>)
   }"
| "api_exec marshal rapply label_ok order a (dur, ApiGet env md req) = do {
     (resp, m) \<leftarrow> Get_metered label_ok dur env md req (apMetrics a);
     Some (a\<lparr>apMetrics := m\<rparr>)
   }"
| "api_exec marshal rapply label_ok order a (dur, ApiDelete key) = do {
     (n, resp, m) \<leftarrow> Delete_metered marshal rapply label_ok dur (apNode a) key (apMetrics a);
     Some (a\<lparr>apNode := n, apMetrics := m\<rparr>)
   }"
| "api_exec marshal rapply label_ok order a (dur, ApiScan store pfx limit) = do {
     (items, m) \<leftarrow> Scan_metered label_ok order store pfx limit (apMetrics a);
     Some (a\<lparr>apMetrics := m\<rparr>)
   }"
| "api_exec marshal rapply label_ok order a (dur, ApiStatus) =
     Some (a\<lparr>apMetrics := snd (Status_metered (apNode a) (apMetrics a))\<rparr>)"
| "api_exec marshal rapply label_ok order a (dur, ApiWatch pfx) = do {
     (h, sid, ch, m) \<leftarrow> Watch_start label_ok (apHub a) pfx (apMetrics a);
     Some (a\<lparr>apHub := h, apStreams := apStreams a @ [(sid, ch, [])], apMetrics := m\<rparr>)
   }"
| "api_exec marshal rapply label_ok order a (dur, ApiTurn k ctxDone sendErr) =
     (if k < length (apStreams a) then (case apStreams a ! k of (sid, ch, sent) \<Rightarrow> do {
        (h, sent', ret, m) \<leftarrow> Watch_turn_metered (apHub a) sid ch sent ctxDone sendErr (apMetrics a);
        Some (a\<lparr>apHub := h, apMetrics := m,
          apStreams := (if ret = None then (apStreams a)[k := (sid, ch, sent')] else take k (apStreams a) @ drop (k + 1) (apStreams a))\<rparr>)
      }) else Some a)"
| "api_exec marshal rapply label_ok order a (dur, ApiNotify e) = do { h \<leftarrow> Notify (apHub a) e; Some (a\<lparr>apHub := h\<rparr>) }"
| "api_exec marshal rapply label_ok order a (dur, RestKey env r) = do {
     (n, resp, m) \<leftarrow> handleKey_metered marshal rapply label_ok dur env (apNode a) r (apMetrics a);
     Some (a\<lparr>apNode := n, apMetrics := m\<rparr>)
   }"

text \<open>The calls that a latency histogram of writes has to show.\<close>

fun is_put :: "bool \<Rightarrow> api_op \<Rightarrow> bool" where
  "is_put leader (ApiPut req) = True"
| "is_put leader (RestKey env r) \<longleftrightarrow>
     leader \<and> (qMethod r = ''PUT'' \<or> qMethod r = ''POST'') \<and> drop (length keysPath) (qPath r) \<noteq> []"
| "is_put leader op = False"

lemmas meter_defs = observe_def set_gauge_def ObservePut_def ObserveGet_def ObserveDelete_def count_request_def count_reply_def

lemma grpc_keeps_role:
  "grpc_Put marshal rapply n req = Some (n', resp) \<Longrightarrow> nState n' = nState n"
  "grpc_Delete marshal rapply n key = Some (n', resp') \<Longrightarrow> nState n' = nState n"
  by (auto simp: grpc_Put_def grpc_Delete_def split: if_splits Option.bind_splits)

lemma handleKey_keeps_role: "handleKey marshal rapply env n r = Some (n', resp) \<Longrightarrow> nState n' = nState n"
  by (auto simp: handleKey_def putKey_def deleteKey_def Let_def split: if_splits Option.bind_splits)

lemma count_keeps:
  "count_request label_ok op status m = Some m' \<Longrightarrow> mGauge m' = mGauge m \<and> mObserved m' = mObserved m"
  "count_reply label_ok op' resp m = Some m' \<Longrightarrow> mGauge m' = mGauge m \<and> mObserved m' = mObserved m"
  by (auto simp: meter_defs split: if_splits sum.splits code.splits prod.splits)

text \<open>What a call leaves of the metrics of writes, and of the gauges.\<close>

lemma Put_effect:
  assumes "Put_metered marshal rapply label_ok dur n req m = Some (n', resp, m')"
  shows "nState n' = nState n \<and> mGauge m' = mGauge m \<and> mObserved m' PutLatency [] = mObserved m PutLatency [] @ [dur]"
  using assms by (auto simp: Put_metered_def ObservePut_def observe_def dest!: count_keeps(2) grpc_keeps_role(1) split: Option.bind_splits)

lemma Delete_effect:
  assumes "Delete_metered marshal rapply label_ok dur n key m = Some (n', resp, m')"
  shows "nState n' = nState n \<and> mGauge m' = mGauge m \<and> mObserved m' PutLatency = mObserved m PutLatency"
  using assms by (auto simp: Delete_metered_def ObserveDelete_def observe_def dest!: count_keeps(2) grpc_keeps_role(2) split: Option.bind_splits)

lemma Get_effect:
  assumes "Get_metered label_ok dur env md req m = Some (resp, m')"
  shows "mGauge m' = mGauge m \<and> mObserved m' PutLatency = mObserved m PutLatency"
  using assms by (auto simp: Get_metered_def ObserveGet_def observe_def dest!: count_keeps(2) split: Option.bind_splits if_splits)

lemma Scan_effect:
  assumes "Scan_metered label_ok order store pfx limit m = Some (items, m')"
  shows "mGauge m' = mGauge m \<and> mObserved m' = mObserved m"
  using assms by (auto simp: Scan_metered_def dest!: count_keeps(1) split: Option.bind_splits)

lemma Status_effect:
  "mGauge (snd (Status_metered n m)) ActiveWatchers = mGauge m ActiveWatchers" "mGauge (snd (Status_metered n m)) RaftTerm = mGauge m RaftTerm"
  "mObserved (snd (Status_metered n m)) = mObserved m"
  by (simp_all add: Status_metered_def set_gauge_def Let_def)

lemma Watch_effect:
  assumes "Watch_start label_ok h pfx m = Some (h', sid, ch, m')"
  shows "mGauge m' = (mGauge m)(ActiveWatchers := mGauge m ActiveWatchers + 1) \<and> mObserved m' = mObserved m"
  using assms by (auto simp: Watch_start_def set_gauge_def dest!: count_keeps(1) split: Option.bind_splits prod.splits)

lemma Rest_effect:
  assumes "handleKey_metered marshal rapply label_ok dur env n r m = Some (n', resp, m')"
  shows "nState n' = nState n \<and> mGauge m' = mGauge m \<and>
    mObserved m' PutLatency [] = mObserved m PutLatency [] @ (if is_put (IsLeader n) (RestKey env r) then [dur] else [])"
  using assms
  by (auto simp: handleKey_metered_def ObserveGet_def ObservePut_def ObserveDelete_def observe_def
      dest!: handleKey_keeps_role split: Option.bind_splits if_splits)

lemma api_step:
  assumes "api_exec marshal rapply label_ok order a (dur, op) = Some a'"
  shows "nState (apNode a') = nState (apNode a) \<and>
    mGauge (apMetrics a') ActiveWatchers - int (length (apStreams a')) = mGauge (apMetrics a) ActiveWatchers - int (length (apStreams a)) \<and>
    mGauge (apMetrics a') RaftTerm = mGauge (apMetrics a) RaftTerm \<and>
    mObserved (apMetrics a') PutLatency [] = mObserved (apMetrics a) PutLatency [] @ (if is_put (IsLeader (apNode a)) op then [dur] else [])"
proof (cases op)
  case (ApiPut req)
  then show ?thesis using assms by (auto dest!: Put_effect split: Option.bind_splits)
next
  case (ApiGet env md req)
  then show ?thesis using assms by (auto dest!: Get_effect split: Option.bind_splits)
next
  case (ApiDelete key)
  then show ?thesis using assms by (auto dest!: Delete_effect split: Option.bind_splits)
next
  case (ApiScan store pfx limit)
  then show ?thesis using assms by (auto dest!: Scan_effect split: Option.bind_splits)
next
  case ApiStatus
  then show ?thesis using assms by (auto simp: Status_effect)
next
  case (ApiWatch pfx)
  then show ?thesis using assms by (auto dest!: Watch_effect split: Option.bind_splits)
next
  case (ApiTurn k ctxDone sendErr)
  then show ?thesis using assms by (auto simp: Watch_turn_metered_def set_gauge_def split: if_splits Option.bind_splits prod.splits)
next
  case (ApiNotify e)
  then show ?thesis using assms by (auto split: Option.bind_splits)
next
  case (RestKey env r)
  then show ?thesis using assms Rest_effect by (fastforce split: Option.bind_splits)
qed

subsection \<open>Properties\<close>

text \<open>C29. What the metrics tell, after any sequence of calls of both APIs in which nothing panics: the gauge of
  active watchers is the number of open streams; every gRPC \<open>Put\<close>, also a refused one, and every REST
  write on the leader has left its duration in the histogram, in order; the gauge of the Raft term
  is 0, as nothing ever sets it.\<close>

theorem metrics_account:
  assumes "foldM (api_exec marshal rapply label_ok order) \<lparr>apNode = n, apHub = h, apStreams = [], apMetrics = no_metrics\<rparr> ops = Some a"
  shows "mGauge (apMetrics a) ActiveWatchers = int (length (apStreams a)) \<and>
    mObserved (apMetrics a) PutLatency [] = map fst (filter (is_put (IsLeader n) \<circ> snd) ops) \<and>
    mGauge (apMetrics a) RaftTerm = 0"
proof -
  have "nState (apNode a) = nState (apNode a0) \<and>
    mGauge (apMetrics a) ActiveWatchers - int (length (apStreams a)) = mGauge (apMetrics a0) ActiveWatchers - int (length (apStreams a0)) \<and>
    mGauge (apMetrics a) RaftTerm = mGauge (apMetrics a0) RaftTerm \<and>
    mObserved (apMetrics a) PutLatency [] = mObserved (apMetrics a0) PutLatency [] @ map fst (filter (is_put (IsLeader (apNode a0)) \<circ> snd) ops)"
    if "foldM (api_exec marshal rapply label_ok order) a0 ops = Some a" for a0
    using that
  proof (induction ops arbitrary: a0)
    case (Cons op ops)
    obtain dur o1 where op: "op = (dur, o1)" by force
    obtain a1 where a1: "api_exec marshal rapply label_ok order a0 op = Some a1" "foldM (api_exec marshal rapply label_ok order) a1 ops = Some a"
      using Cons.prems by (auto split: Option.bind_splits)
    show ?case using api_step [OF a1(1) [unfolded op]] Cons.IH [OF a1(2)] op by (auto simp: IsLeader_def)
  qed simp
  from this [OF assms] show ?thesis by (simp add: no_metrics_def)
qed

theorem metrics_account_witness:
  "\<exists>a. foldM (api_exec cmd_Marshal demo_raft (\<lambda>_. True) rev) \<lparr>apNode = demo_node, apHub = NewHub, apStreams = [], apMetrics = no_metrics\<rparr>
       [(7, ApiPut \<lparr>prKey = [], prValue = [2], prTtlSeconds = 0\<rparr>), (5, ApiWatch [1])] = Some a \<and>
     mGauge (apMetrics a) ActiveWatchers = 1 \<and> mObserved (apMetrics a) PutLatency [] = [7]"
proof -
  let ?ops = "[(7, ApiPut \<lparr>prKey = [], prValue = [2], prTtlSeconds = 0\<rparr>), (5, ApiWatch [1])]"
  obtain a where a: "foldM (api_exec cmd_Marshal demo_raft (\<lambda>_. True) rev)
      \<lparr>apNode = demo_node, apHub = NewHub, apStreams = [], apMetrics = no_metrics\<rparr> ?ops = Some a" "length (apStreams a) = 1"
    by (simp add: Put_metered_def grpc_Put_def Watch_start_def Subscribe_def Let_def meter_defs)
  from metrics_account [OF a(1)] a show ?thesis by simp
qed

text \<open>C39. The consistency mode that a client chooses becomes a label of the latency metric. A mode that is not
  well-formed UTF-8 makes \<open>Get\<close> panic after the read, where without the metric it would have replied;
  grpc-go does not recover from it, so the request ends the process.\<close>

theorem mode_label_panics:
  assumes "\<forall>s. label_ok s \<longrightarrow> valid_utf8 (str s)" "grConsistency req = ''''" "md = Some (s # vals)" "\<not> valid_utf8 (str s)"
    "grpc_Get env md req = Some resp"
  shows "Get_metered label_ok dur env md req m = None"
proof -
  have "valid_utf8 (str ''strong'')" "valid_utf8 (str ''eventual'')" "valid_utf8 (str ''read-your-writes'')" "valid_utf8 (str ''monotonic'')"
    by (rule valid_utf8_ascii, simp add: str_def)+
  then have "Mode s = OtherMode s" using assms(4) unfolding Mode_def by metis
  then have name: "mode_name (consistencyMode md (grConsistency req)) = s" using assms(2,3) by (simp add: consistencyMode_def mode_name_def)
  have "\<not> label_ok s" using assms(1,4) by blast
  then have "ObserveGet label_ok dur s m' = None" for m' by (simp add: ObserveGet_def)
  then show ?thesis unfolding Get_metered_def name assms(5) by (simp split: Option.bind_split)
qed

theorem mode_label_panics_witness:
  "\<exists>resp. grpc_Get \<lparr>rapplied = \<lambda>_. 3, rdone = \<lambda>_. None, rverify = None, rstore = \<lambda>_. fresh_engine (\<lambda>_. None) []\<rparr> (Some [unstr [0xFF]])
       \<lparr>grKey = [1], grConsistency = [], grSessionIndex = 0, grMinVersion = 0\<rparr> = Some resp \<and>
     Get_metered (\<lambda>s. valid_utf8 (str s)) 5 \<lparr>rapplied = \<lambda>_. 3, rdone = \<lambda>_. None, rverify = None, rstore = \<lambda>_. fresh_engine (\<lambda>_. None) []\<rparr>
       (Some [unstr [0xFF]]) \<lparr>grKey = [1], grConsistency = [], grSessionIndex = 0, grMinVersion = 0\<rparr> no_metrics = None"
proof -
  let ?env = "\<lparr>rapplied = \<lambda>_. 3, rdone = \<lambda>_. None, rverify = None, rstore = \<lambda>_. fresh_engine (\<lambda>_. None) []\<rparr>"
  let ?req = "\<lparr>grKey = [1], grConsistency = [], grSessionIndex = 0, grMinVersion = 0\<rparr>" and ?md = "Some [unstr [0xFF]]"
  have s: "str (unstr [0xFF]) = [0xFF]" by (simp add: str_def unstr_def)
  then have bad: "\<not> valid_utf8 (str (unstr [0xFF]))" by (simp add: valid_utf8_def bad_key)
  have "eng_wf (fresh_engine (\<lambda>_. None) [])" using fresh_engine_ok [of "[]"] by (auto simp: eng_wf_def)
  then obtain en b where g: "eng_Get (fresh_engine (\<lambda>_. None) []) [1] = Some (en, b)" using eng.get_law by blast
  have "Mode (unstr [0xFF]) = OtherMode (unstr [0xFF])" by (simp add: Mode_def unstr_def)
  then have r: "grpc_Get ?env ?md ?req = Some (Inr \<lparr>gpFound = b, gpValue = Value en, gpVersion = Version en\<rparr>)"
    by (simp add: grpc_Get_def consistencyMode_def router_Get_def g)
  have "Get_metered (\<lambda>s. valid_utf8 (str s)) 5 ?env ?md ?req no_metrics = None"
    by (rule mode_label_panics [OF _ _ refl bad r]) simp_all
  with r show ?thesis by blast
qed

end
