(* ===== verification/Spec2Isabelle.thy ===== *)
theory Spec2Isabelle
  imports Server Cli Metrics
begin

text \<open>
  OnCloudKV: a replicated key-value store. A verification development for the storage engine, the
  consensus glue, the two APIs, the server and the client under \<open>src/internal\<close> and \<open>src/cmd\<close>.

  \<^bold>\<open>The program.\<close> A node runs a Raft replica (hashicorp/raft). Clients reach it over gRPC or REST
  (\<open>api/grpc\<close>, \<open>api/http\<close>). Their writes go through \<open>consensus/batch.go\<close> (\<open>BatchWriter\<close>)
  into the Raft log; committed entries are applied by \<open>consensus/fsm.go\<close> (\<open>FSM.Apply\<close>) to the LSM
  engine \<open>storage/engine.go\<close>, with the log index as version, and announced on the watch hub
  \<open>watch/hub.go\<close>. The engine writes every record to the write-ahead log \<open>storage/wal\<close> and then to
  the memtable \<open>storage/skiplist\<close>; a flush turns a full memtable into a table file
  \<open>storage/sstable\<close>, whose reader uses the bloom filter \<open>storage/bloom\<close>;
  \<open>storage/compaction\<close> merges tables in the background. Reads go through
  \<open>consistency/router.go\<close>, which may first wait for an index or ask Raft who leads. Commands, log
  records and snapshots are JSON. \<open>cmd/server\<close> reads the configuration and starts all this.

  \<^bold>\<open>Theories.\<close> Each names its source in its own introduction and has one definition per
  function (with the prefix of the component where names clash: \<open>sl_Put\<close>, \<open>wal_Open\<close>,
  \<open>sst_Get\<close>, \<open>eng_Put\<close>, \<open>fsm_Apply\<close>, \<open>router_Get\<close>, \<open>grpc_Put\<close>), loops as functions of their own.
  \<^item> \<open>Prelude\<close>: Go's types, entries, errors, big-endian codec, sorted entry lists.
  \<^item> \<open>Memtable\<close>: the contract \<open>memtable\<close> (a locale) and its abstract state, a list of
    entries sorted by key.
  \<^item> \<open>Skiplist\<close>: \<open>skiplist.go\<close>. Nodes live in an explicit store and are linked by indices,
    because the code mutates shared nodes; the random numbers are an argument. The invariant
    \<open>sl_inv\<close> says that each level is a subchain of level 0 in key order; the interpretation
    \<open>sl\<close> of \<open>memtable\<close> shows that the pointer structure refines the sorted list.
  \<^item> \<open>Files\<close>: \<open>os.File\<close> and \<open>bufio.Writer\<close>, with failing calls and crashes, behind the
    contract \<open>byte_sink\<close>.
  \<^item> \<open>Wal\<close>: \<open>wal.go\<close>. The group commit is the transition system \<open>wal_step\<close>; durability is
    an invariant of it, replay is total on every byte sequence.
  \<^item> \<open>Bloom\<close>: \<open>bloom.go\<close>, behind \<open>membership_filter\<close>. The size of the filter is
    computed in real numbers; the code uses \<open>float64\<close>.
  \<^item> \<open>Sstable\<close>: \<open>sstable.go\<close> down to the bytes of the file, behind \<open>table_format\<close>.
  \<^item> \<open>Compaction\<close>: \<open>compaction.go\<close> on a file system, with I/O errors. \<open>tier_ok\<close> is the
    condition under which a compaction changes no read.
  \<^item> \<open>Engine\<close>: \<open>engine.go\<close>, behind \<open>kv_store\<close>. \<open>eng_view\<close> is what \<open>Get\<close> shows,
    and the layers (memtable, memtable being flushed, tables) together determine it.
  \<^item> \<open>EngineRuns\<close>: the engine with its goroutines as the transition system \<open>eng_step\<close>. A flush has three
    steps and a compaction two (plan and merge, swap), and all of them interleave with writes as the code's locks
    allow; no step has a condition that the code does not check. Since some runs lose data, the configuration records
    whether the run is sound (\<open>csound\<close>) and whether every write succeeded (\<open>cclean\<close>); the invariants on what the
    layers show and on their versions speak of sound runs.
  \<^item> \<open>Watch\<close>: \<open>hub.go\<close> with bounded channels. \<open>Fsm\<close>: \<open>fsm.go\<close> and
    \<open>snapshot.go\<close>. \<open>Batch\<close>: \<open>batch.go\<close> as a transition system. \<open>Router\<close>:
    \<open>router.go\<close> over an environment of polls.
  \<^item> \<open>Cluster\<close>: replicas, which put FSM, engine runs and hub together, and their readers. The
    locale \<open>write_endpoint\<close> is what a handler that acknowledges writes promises; the writing handlers of
    \<open>Grpc\<close> and \<open>Http\<close> interpret it.
  \<^item> \<open>Strconv\<close>, \<open>Utf8\<close>, \<open>Base64\<close>, \<open>Json\<close>: what the sources use of Go's packages of these
    names. \<open>jparse\<close> reads back what \<open>jprint\<close> writes, with bytes that are not UTF-8 replaced.
  \<^item> \<open>Codec\<close>: the JSON forms of \<open>walRecord\<close>, \<open>Command\<close> and snapshots, by their struct tags.
    \<open>Recovery\<close>: replicas with these codecs, their crash recovery and snapshots. \<open>Lifetime\<close>: a node
    through any number of crashes and restarts (\<open>node_life\<close>), in which a crash may fall inside an append, Raft restores a
    snapshot and applies entries again that the store already holds. A node is sound (\<open>lsound\<close>) when its present
    incarnation is and began well.
  \<^item> \<open>Config\<close>: \<open>config.go\<close>. \<open>Node\<close>: \<open>node.go\<close>. \<open>Membership\<close>: \<open>memberlist.go\<close>.
    \<open>Grpc\<close>, \<open>Http\<close>: the handlers of \<open>api/grpc/server.go\<close> and \<open>api/http/server.go\<close>. \<open>Mux\<close>: the
    routes of the REST server over a model of Go's \<open>ServeMux\<close>. \<open>Metrics\<close>: \<open>metrics.go\<close> and the
    handlers with the calls they make to it.
    \<open>Server\<close>: \<open>cmd/server/main.go\<close>. \<open>Cli\<close>: \<open>cmd/cli/main.go\<close>.

  \<^bold>\<open>What is shown.\<close> Per component: invariants that every operation keeps, the exact result of
  every operation on every branch, round trips of the file formats, totality. Across components:
  every sound run of the engine reads as its history, and a node that crashes and restarts any number of times
  shows the committed log whenever it is sound, also after an orderly stop; sound replicas that applied the same log
  agree; snapshots taken with quiet tables move the state; the keys of a sound store are well-formed; a client
  reads its own write on the node that took it, in every mode, and on any other node in the mode
  \<open>read-your-writes\<close>, unless that node's state machine lags behind Raft's applied index. Where the
  code does not do what it means to, a theorem exhibits the run: scanning past the data block,
  compaction that revives deleted keys, a flush after a failed flush, records behind a torn log tail,
  stranded requests at \<open>Close\<close> and \<open>Stop\<close>, keys that are not UTF-8, the value of a deleted key in a
  reply, a session read that misses the write it waited for, a consistency mode that makes the metrics panic.

  \<^bold>\<open>Parameters.\<close> Code outside the repository is an argument: Raft's \<open>Apply\<close> (\<open>rapply\<close>) and the
  other calls of Raft, BoltDB, viper and memberlist, the sort of the table sizes (\<open>srt\<close>, any sort:
  \<open>sorts_by_size\<close>), the iteration order of a map (\<open>order\<close>, any permutation), random numbers
  (\<open>draw\<close>), clocks (\<open>now\<close>, \<open>dur\<close>), Prometheus' check of labels (\<open>label_ok\<close>) and the outcome of system calls (\<open>script\<close>, \<open>io\<close>). What a theorem
  needs of them is a hypothesis. \<open>Engine\<close>, \<open>Fsm\<close> and \<open>Batch\<close> are stated for any codec
  (\<open>enc\<close>, \<open>dec\<close>, \<open>cdec\<close>, \<open>marshal\<close>, \<open>jenc\<close>, \<open>jdec\<close>); from \<open>Recovery\<close> on these are the ones of \<open>Codec\<close>.

  \<^bold>\<open>Raft.\<close> \<open>AppliedIndex\<close> counts an entry once it has been handed to the state machine's goroutine, so the store may
  lag behind it. The environment of a read has both: \<open>rapplied\<close>, which the code polls, and, as an argument of \<open>serves\<close>,
  \<open>tracks\<close> and \<open>follows\<close>, what the state machine has consumed. A future of \<open>Apply\<close> completes
  after the state machine of the node has applied the entry (\<open>applied_here\<close>).

  \<^bold>\<open>Termination.\<close> Loops with a bound have a measure. The pointer loops of the skip list and the
  polling loop of the router are partial functions into \<open>option\<close>; the theorems state that they
  return or exactly when. \<open>None\<close>
  also stands for a panic, so these theorems exclude panics. The JSON parser alone takes fuel, one
  more than the length of its input; \<open>jparse_fuel_enough\<close> shows that no input needs more.

  \<^bold>\<open>Concurrency.\<close> Critical sections are atomic steps. A write is one step with its log append, as
  the FSM is the only writer of an engine and waits for the append; a crash may still leave any part of the append
  (\<open>crash_between\<close>). A handler that writes sees the batch writer serve one client at a time (\<open>Submit_wait\<close>); the
  interleaving of many clients is the transition system of \<open>Batch\<close>. Lengths are unbounded except where
  the format stores them.

  \<^bold>\<open>Not modelled.\<close> The generated protocol code; sockets, grpc-go and what Prometheus does with a
  metric; logging; the flag parsing of the client; the nesting limit of the JSON parser. A snapshot that
  a running follower installs, which leaves its tables readable (\<open>restore_keeps_tables\<close>), is not part of
  \<open>node_life\<close>.
\<close>

section \<open>Properties of the node as a whole\<close>

text \<open>C4. Sound replicas agree. Two replicas, opened on logs with the same writes, apply the same sequence of
  committed entries, each with its own random levels, watchers, flushes and compactions. If both are sound
  (neither store failed a write, no flush began while the memtable of a failed one was waiting, flushed tables fit the
  format under new names, and compactions were harmless when they swapped their tables), they have given the same
  responses, and every key reads the same on both.\<close>

theorem replicas_agree:
  assumes "sorts_by_size srt" "sorts_by_size srt'"
    "eng_Open dec draws None script (Some f) tabs mb = Some (Inr e)"
    "eng_Open dec draws' None script' (Some f') tabs' mb' = Some (Inr e')" "log_ops dec f = log_ops dec f'"
    "replica_reach enc cdec srt (new_replica dec f e) r" "replica_reach enc cdec srt' (new_replica dec f' e') r'"
    "rlog r = rlog r'" "rsound r" "rsound r'"
  shows "rresp r = rresp r' \<and> eng_view (ceng (rconf r)) = eng_view (ceng (rconf r'))"
proof -
  have r: "replica_inv cdec (log_ops dec f) r"
    by (rule replica_reach_inv [OF assms(6,1) new_replica_inv [OF assms(3)]])
  have r': "replica_inv cdec (log_ops dec f) r'"
    unfolding assms(5) by (rule replica_reach_inv [OF assms(7,2) new_replica_inv [OF assms(4)]])
  have "rresp r = rresp r'" using r r' assms(8-10) by (simp add: replica_inv_def rsound_def)
  then show ?thesis using replica_view [OF r assms(9)] replica_view [OF r' assms(10)] assms(8) by auto
qed

theorem replicas_agree_witness:
  "\<exists>e r r'. replica_reach (\<lambda>_. []) (\<lambda>_. Some demo_cmd) (sort_key snd) (new_replica demo_dec [] e) r \<and>
     replica_reach (\<lambda>_. []) (\<lambda>_. Some demo_cmd) (sort_key snd) (new_replica demo_dec [] e) r' \<and>
     rlog r = [demo_entry] \<and> rlog r' = [demo_entry] \<and> ceng (rconf r') = snd (flush_begin (ceng (rconf r))) \<and> rsound r \<and> rsound r' \<and>
     rresp r = rresp r' \<and> eng_view (ceng (rconf r)) = eng_view (ceng (rconf r'))"
proof -
  obtain e r where r: "eng_Open demo_dec (\<lambda>_ _. 1) None [] (Some []) (\<lambda>_. None) 1 = Some (Inr e)"
      "replica_reach (\<lambda>_. []) (\<lambda>_. Some demo_cmd) (sort_key snd) (new_replica demo_dec [] e) r"
      "rlog r = [demo_entry]" "cpc (rconf r) = Idle" "rsound r" "eimmutable (ceng (rconf r)) = None"
    using demo_replica [of "\<lambda>_ _. 1" "\<lambda>_. 1"] by blast
  obtain r' where r': "replica_reach (\<lambda>_. []) (\<lambda>_. Some demo_cmd) (sort_key snd) (new_replica demo_dec [] e) r'"
      "rlog r' = rlog r" "ceng (rconf r') = snd (flush_begin (ceng (rconf r)))" "rsound r'"
    using replica_flush [OF r(2,4-6)] by blast
  from replicas_agree [OF sort_by_size sort_by_size r(1) r(1) refl r(2) r'(1) _ r(5) r'(4)] r r' show ?thesis by metis
qed

text \<open>C18. Read your writes on any node, through gRPC with the JSON codecs in place. A \<open>Put\<close> or a \<open>Delete\<close> of
  a key that is well-formed UTF-8 is answered with success and a Raft index other than 0; a \<open>Get\<close>
  of any key, on any node that is sound (\<open>lsound\<close>), also one that has crashed and is catching up, with
  \<open>read-your-writes\<close> in the request or in the metadata passes that index as its session index. If it is answered
  without an error, it made its read at a poll at which Raft's applied index had reached the session index, and
  the answer is the state of its key after a prefix of the committed log. The write is in that prefix, unless
  the node's state machine had not consumed the entry yet at that poll: Raft counts an entry as applied
  before the state machine has it. No entry is larger than 128 MiB. Raft is assumed to answer \<open>Apply\<close> without an
  error only for a command in the committed log, with what the state machine returned for it. The index must not
  be 0, which is what the batch writer reports when the state machine failed.\<close>

theorem grpc_read_your_writes:
  assumes raft: "\<And>s s' d resp. rapply s d = (s', None, resp) \<Longrightarrow> \<exists>l\<in>set ls. lType l = LogCommand \<and> lData l = d \<and>
      (\<exists>draw f f'. fsm_Apply wal_Marshal cmd_Unmarshal draw f l = Some (f', resp))"
    and wrote: "grpc_Put cmd_Marshal rapply n req = Some (n', Inr ack) \<and> cmd = put_cmd req \<or>
      grpc_Delete cmd_Marshal rapply n k = Some (n', Inr ack) \<and> cmd = delete_cmd k"
      "valid_utf8 (cKey cmd)" "wrRaftIndex ack \<noteq> 0"
    and replica: "follows srt ls fsm env" "sorts_by_size srt" "\<forall>l\<in>set ls. length (lData l) \<le> 2 ^ 27"
    and read: "grpc_Get env md g = Some (Inr reply)" "consistencyMode md (grConsistency g) = ReadYourWrites"
      "grSessionIndex g = wrRaftIndex ack"
  shows "\<exists>i j l. l \<in> set ls \<and> lIndex l = wrRaftIndex ack \<and> cmd_Unmarshal (lData l) = Some cmd \<and> log_op cmd_Unmarshal l \<noteq> None \<and>
    (case last_write (log_writes cmd_Unmarshal (take i ls)) (grKey g) of
       None \<Rightarrow> \<not> gpFound reply
     | Some en \<Rightarrow> gpFound reply \<and> gpValue reply = Value en \<and> gpVersion reply = Version en) \<and>
    wrRaftIndex ack \<le> rapplied env j \<and> (l \<in> set (take i ls) \<or> fsm j < wrRaftIndex ack)"
proof -
  obtain en found where r: "router_Get env (grKey g) ReadYourWrites (wrRaftIndex ack) (grMinVersion g) = Some (en, found, None)"
      "reply = \<lparr>gpFound = found, gpValue = Value en, gpVersion = Version en\<rparr>"
    using read by (auto simp: grpc_Get_def split: Option.bind_splits option.splits)
  have v: "rpc_version (Inr ack) = Some (wrRaftIndex ack)" by (simp add: rpc_version_def)
  note tracks = follows_tracks [OF replica]
  have "\<exists>i j l. l \<in> set ls \<and> lIndex l = wrRaftIndex ack \<and> cmd_Marshal cmd = Inr (lData l) \<and> log_op cmd_Unmarshal l \<noteq> None \<and>
      (case last_write (log_writes cmd_Unmarshal (take i ls)) (grKey g) of None \<Rightarrow> \<not> found | Some x \<Rightarrow> found \<and> en = x) \<and>
      wrRaftIndex ack \<le> rapplied env j \<and> (l \<in> set (take i ls) \<or> fsm j < wrRaftIndex ack)"
    using wrote(1)
  proof
    assume a: "grpc_Put cmd_Marshal rapply n req = Some (n', Inr ack) \<and> cmd = put_cmd req"
    show ?thesis unfolding conjunct2 [OF a]
      by (rule grpc_put.read_back [OF _ conjunct1 [OF a] v wrote(3) tracks r(1)]) (rule raft)
  next
    assume a: "grpc_Delete cmd_Marshal rapply n k = Some (n', Inr ack) \<and> cmd = delete_cmd k"
    show ?thesis unfolding conjunct2 [OF a]
      by (rule grpc_delete.read_back [OF _ conjunct1 [OF a] v wrote(3) tracks r(1)]) (rule raft)
  qed
  then obtain i j l where l: "l \<in> set ls" "lIndex l = wrRaftIndex ack" "cmd_Marshal cmd = Inr (lData l)" "log_op cmd_Unmarshal l \<noteq> None"
      "case last_write (log_writes cmd_Unmarshal (take i ls)) (grKey g) of None \<Rightarrow> \<not> found | Some x \<Rightarrow> found \<and> en = x"
      "wrRaftIndex ack \<le> rapplied env j" "l \<in> set (take i ls) \<or> fsm j < wrRaftIndex ack"
    by blast
  have "cmd_Unmarshal (lData l) = Some cmd" using cmd_roundtrip [OF l(3)] wrote(2) by (simp add: valid_utf8_def)
  with l r(2) show ?thesis by (intro exI [of _ i] exI [of _ j] exI [of _ l]) (auto split: option.splits)
qed

theorem grpc_read_your_writes_witness:
  "\<exists>n. grpc_Get (poll_env 3 (lstore n)) (Some [''read-your-writes''])
       \<lparr>grKey = [1], grConsistency = '''', grSessionIndex = 3, grMinVersion = 0\<rparr> = Some (Inr \<lparr>gpFound = True, gpValue = [2], gpVersion = 3\<rparr>) \<and>
     follows (sort_key snd) [json_entry demo_cmd] (\<lambda>_. 3) (poll_env 3 (lstore n))"
proof -
  let ?srt = "sort_key snd :: size_sort" and ?l = "json_entry demo_cmd"
  let ?g = "\<lparr>grKey = [1], grConsistency = '''', grSessionIndex = 3, grMinVersion = 0\<rparr>" and ?md = "Some [''read-your-writes'']"
  obtain n en b where n: "node_life ?srt [?l] n" "lsound n" "lpos n = 1" "rlog (lrep n) = [?l]"
      "applied_here ?srt [?l] n (jprint (cmd_json demo_cmd)) (ApplyResult 3)" "eng_Get (lstore n) [1] = Some (en, b)"
    using demo_applied by blast
  let ?env = "poll_env 3 (lstore n)"
  have fol: "follows ?srt [?l] (\<lambda>_. 3) ?env" using n(1-3) unfolding follows_def by (intro allI exI [of _ n]) simp
  have m: "consistencyMode ?md (grConsistency ?g) = ReadYourWrites" by (simp add: consistencyMode_def Mode_def)
  have "waitForIndex ?env 3 = Some (0, None)" by (simp add: waitForIndex_def wait_loop.simps [of ?env])
  then obtain reply where reply: "grpc_Get ?env ?md ?g = Some (Inr reply)" using n(6) m by (simp add: grpc_Get_def router_Get_def)
  obtain n' where ack: "grpc_Put cmd_Marshal demo_raft demo_node \<lparr>prKey = [1], prValue = [2], prTtlSeconds = 0\<rparr> =
      Some (n', Inr \<lparr>wrSuccess = True, wrRaftIndex = 3\<rparr>)"
    using demo_submit by (auto simp: grpc_Put_def demo_node_def IsLeader_def demo_cmd_def)
  have valid: "valid_utf8 (cKey demo_cmd)" by (rule valid_utf8_ascii) (simp add: demo_cmd_def)
  have small: "\<forall>l\<in>set [?l]. length (lData l) \<le> 2 ^ 27" using demo_json(2) by simp
  obtain f f' where "fsm_Apply wal_Marshal cmd_Unmarshal (\<lambda>_. 1) f ?l = Some (f', ApplyResult 3)"
    using one_entry_replica [OF demo_json(1), of wal_Unmarshal "\<lambda>_ _. 1" wal_Marshal "\<lambda>_. 1" ?srt] by (auto simp: json_entry_def)
  then have raft: "\<exists>l\<in>set [?l]. lType l = LogCommand \<and> lData l = d \<and> (\<exists>draw f f'. fsm_Apply wal_Marshal cmd_Unmarshal draw f l = Some (f', resp))"
    if "demo_raft s d = (s', None, resp)" for s s' d resp
    using that by (auto simp: demo_raft_def json_entry_def split: if_splits)
  obtain i l where "l \<in> set (take i [?l])" "case last_write (log_writes cmd_Unmarshal (take i [?l])) [1] of
      None \<Rightarrow> \<not> gpFound reply | Some en \<Rightarrow> gpFound reply \<and> gpValue reply = Value en \<and> gpVersion reply = Version en"
    using grpc_read_your_writes [OF raft disjI1 [OF conjI [OF ack]] valid _ fol sort_by_size small reply m]
    by (fastforce simp: put_cmd_def demo_cmd_def)
  then have "gpFound reply" "gpValue reply = [2]" "gpVersion reply = 3" by (simp_all add: demo_last_write live_def)
  then have "reply = \<lparr>gpFound = True, gpValue = [2], gpVersion = 3\<rparr>" by (cases reply) simp
  with reply fol show ?thesis by blast
qed

end
